(* ===== verification/Crates.thy ===== *)
theory Crates
  imports Prelude
begin

text \<open>
  The third-party crates the modelled code calls: the operations a component uses are a record
  that its definitions take as an argument, and what the code relies on is a locale over that
  record, stated from the crates' documentation.

  \<^item> \<open>http::HeaderMap\<close> (a multimap from lower-case names to values), \<open>HeaderName\<close> and
    \<open>HeaderValue\<close>: record \<open>header_ops\<close>, locale \<open>header_map\<close>.
  \<^item> \<open>lru::LruCache\<close> (an unbounded map ordered by recency): record \<open>lru_ops\<close>, locale
    \<open>lru_cache\<close>.
  \<^item> \<open>regex::Regex\<close>: record \<open>regex_ops\<close>; the code relies on no law of it.

  Each locale is interpreted on a complete list implementation, so that the laws are known to be
  consistent and theorems that assume them can be evaluated.
\<close>

section \<open>HTTP header maps\<close>

text \<open>
  A header name is its lower-case text and a header value its bytes. \<open>hv_from_str\<close> is
  \<open>HeaderValue::from_str\<close>, \<open>hv_to_str\<close> is \<open>HeaderValue::to_str\<close> and \<open>hn_from_bytes\<close> is
  \<open>HeaderName::from_bytes\<close>; an \<open>Err\<close> is \<open>None\<close>.
\<close>

record 'h header_ops =
  hm_empty :: 'h
  hm_get_all :: "'h \<Rightarrow> string \<Rightarrow> string list"
  hm_get :: "'h \<Rightarrow> string \<Rightarrow> string option"
  hm_contains_key :: "'h \<Rightarrow> string \<Rightarrow> bool"
  hm_insert :: "'h \<Rightarrow> string \<Rightarrow> string \<Rightarrow> 'h"
  hm_append :: "'h \<Rightarrow> string \<Rightarrow> string \<Rightarrow> 'h"
  hm_remove :: "'h \<Rightarrow> string \<Rightarrow> 'h"
  hm_iter :: "'h \<Rightarrow> (string \<times> string) list"
  hv_from_str :: "string \<Rightarrow> string option"
  hv_to_str :: "string \<Rightarrow> string option"
  hn_from_bytes :: "string \<Rightarrow> string option"

text \<open>The idiom \<open>headers.get(name).and_then(|v| v.to_str().ok())\<close>.\<close>

definition hm_get_str :: "'h header_ops \<Rightarrow> 'h \<Rightarrow> string \<Rightarrow> string option" where
  "hm_get_str H h n = Option.bind (hm_get H h n) (hv_to_str H)"

definition visible_ascii :: "char \<Rightarrow> bool" where
  "visible_ascii c = (let n = (of_char c :: nat) in 32 \<le> n \<and> n \<le> 126)"

locale header_map =
  fixes H :: "'h header_ops"
  assumes get_all_empty: "hm_get_all H (hm_empty H) n = []"
    and get_first: "hm_get H h n = (case hm_get_all H h n of [] \<Rightarrow> None | v # vs \<Rightarrow> Some v)"
    and contains_iff: "hm_contains_key H h n \<longleftrightarrow> hm_get_all H h n \<noteq> []"
    and get_all_insert:
      "hm_get_all H (hm_insert H h n v) m = (if m = n then [v] else hm_get_all H h m)"
    and get_all_append:
      "hm_get_all H (hm_append H h n v) m =
         (if m = n then hm_get_all H h m @ [v] else hm_get_all H h m)"
    and get_all_remove:
      "hm_get_all H (hm_remove H h n) m = (if m = n then [] else hm_get_all H h m)"
    and get_all_iter: "hm_get_all H h n = map snd (filter (\<lambda>p. fst p = n) (hm_iter H h))"
    and from_str_same: "hv_from_str H s = Some v \<Longrightarrow> v = s"
    and to_str_same: "hv_to_str H v = Some s \<Longrightarrow> s = v"
    and visible_from_str: "\<forall>c \<in> set s. visible_ascii c \<Longrightarrow> hv_from_str H s = Some s"
    and visible_to_str: "\<forall>c \<in> set s. visible_ascii c \<Longrightarrow> hv_to_str H s = Some s"
    and name_lower: "hn_from_bytes H s = Some n \<Longrightarrow> n = to_ascii_lowercase s"
begin

lemma get_insert: "hm_get H (hm_insert H h n v) m = (if m = n then Some v else hm_get H h m)"
  by (simp add: get_first get_all_insert)

lemma get_remove: "hm_get H (hm_remove H h n) m = (if m = n then None else hm_get H h m)"
  by (simp add: get_first get_all_remove)

lemma get_append:
  "hm_get H (hm_append H h n v) m =
     (if m = n \<and> hm_get H h n = None then Some v else hm_get H h m)"
  by (auto simp: get_first get_all_append split: list.splits)

lemma get_empty: "hm_get H (hm_empty H) n = None"
  by (simp add: get_first get_all_empty)

lemma contains_get: "hm_contains_key H h n \<longleftrightarrow> hm_get H h n \<noteq> None"
  by (auto simp: contains_iff get_first split: list.splits)

lemmas hm_laws = get_insert get_remove get_append get_empty contains_get
  get_all_insert get_all_append get_all_remove get_all_empty

end

subsection \<open>A list implementation\<close>

type_synonym header_list = "(string \<times> string) list"

definition hl_get_all :: "header_list \<Rightarrow> string \<Rightarrow> string list" where
  "hl_get_all h n = map snd (filter (\<lambda>p. fst p = n) h)"

definition token_char :: "char \<Rightarrow> bool" where
  "token_char c =
     (let n = (of_char c :: nat)
      in 48 \<le> n \<and> n \<le> 57 \<or> 65 \<le> n \<and> n \<le> 90 \<or> 97 \<le> n \<and> n \<le> 122
         \<or> c \<in> set ''!#$%&*+-.^_`|~'' \<or> n = 39)"

definition list_headers :: "header_list header_ops" where
  "list_headers =
     \<lparr>hm_empty = [],
      hm_get_all = hl_get_all,
      hm_get = (\<lambda>h n. case hl_get_all h n of [] \<Rightarrow> None | v # vs \<Rightarrow> Some v),
      hm_contains_key = (\<lambda>h n. hl_get_all h n \<noteq> []),
      hm_insert = (\<lambda>h n v. filter (\<lambda>p. fst p \<noteq> n) h @ [(n, v)]),
      hm_append = (\<lambda>h n v. h @ [(n, v)]),
      hm_remove = (\<lambda>h n. filter (\<lambda>p. fst p \<noteq> n) h),
      hm_iter = (\<lambda>h. h),
      hv_from_str = (\<lambda>s. if list_all (\<lambda>c. c = CHR 0x09 \<or> 32 \<le> (of_char c :: nat)
                             \<and> (of_char c :: nat) \<noteq> 127) s then Some s else None),
      hv_to_str = (\<lambda>s. if list_all (\<lambda>c. c = CHR 0x09 \<or> visible_ascii c) s
                       then Some s else None),
      hn_from_bytes = (\<lambda>s. if s \<noteq> [] \<and> list_all token_char s
                           then Some (to_ascii_lowercase s) else None)\<rparr>"

lemma hl_get_all_append: "hl_get_all (h @ g) n = hl_get_all h n @ hl_get_all g n"
  by (simp add: hl_get_all_def)

lemma hl_get_all_filter:
  "hl_get_all (filter (\<lambda>p. fst p \<noteq> n) h) m = (if m = n then [] else hl_get_all h m)"
  by (induction h) (auto simp: hl_get_all_def)

lemma hl_get_all_single: "hl_get_all [(n, v)] m = (if m = n then [v] else [])"
  by (simp add: hl_get_all_def)

interpretation list_hm: header_map list_headers
  by unfold_locales
    (auto simp: list_headers_def hl_get_all_append hl_get_all_filter hl_get_all_single
      list_all_iff visible_ascii_def Let_def split: if_splits, simp_all add: hl_get_all_def)

section \<open>LRU caches\<close>

text \<open>
  The operations of an unbounded \<open>lru::LruCache\<close> that return something hand back the new cache
  as well. \<open>lru_iter\<close> lists the entries from the most to the least recently used, which is the
  order the crate documents for \<open>iter\<close>; the laws say what each operation does to that list.
\<close>

record ('m, 'k, 'v) lru_ops =
  lru_new :: 'm
  lru_get :: "'m \<Rightarrow> 'k \<Rightarrow> 'v option \<times> 'm"
  lru_put :: "'m \<Rightarrow> 'k \<Rightarrow> 'v \<Rightarrow> 'v option \<times> 'm"
  lru_pop :: "'m \<Rightarrow> 'k \<Rightarrow> 'v option \<times> 'm"
  lru_pop_lru :: "'m \<Rightarrow> ('k \<times> 'v) option \<times> 'm"
  lru_len :: "'m \<Rightarrow> nat"
  lru_iter :: "'m \<Rightarrow> ('k \<times> 'v) list"

abbreviation drop_key :: "'k \<Rightarrow> ('k \<times> 'v) list \<Rightarrow> ('k \<times> 'v) list" where
  "drop_key k es \<equiv> filter (\<lambda>p. fst p \<noteq> k) es"

lemma map_of_drop_key: "map_of (drop_key k es) j = (if j = k then None else map_of es j)"
  by (induction es) auto

locale lru_cache =
  fixes L :: "('m, 'k, 'v) lru_ops"
  assumes iter_new: "lru_iter L (lru_new L) = []"
    and iter_distinct: "distinct (map fst (lru_iter L m))"
    and len_iter: "lru_len L m = length (lru_iter L m)"
    and get_result: "fst (lru_get L m k) = map_of (lru_iter L m) k"
    and iter_get:
      "lru_iter L (snd (lru_get L m k)) =
         (case map_of (lru_iter L m) k of
            None \<Rightarrow> lru_iter L m
          | Some v \<Rightarrow> (k, v) # drop_key k (lru_iter L m))"
    and put_result: "fst (lru_put L m k v) = map_of (lru_iter L m) k"
    and iter_put: "lru_iter L (snd (lru_put L m k v)) = (k, v) # drop_key k (lru_iter L m)"
    and pop_result: "fst (lru_pop L m k) = map_of (lru_iter L m) k"
    and iter_pop: "lru_iter L (snd (lru_pop L m k)) = drop_key k (lru_iter L m)"
    and pop_lru_result:
      "fst (lru_pop_lru L m) =
         (if lru_iter L m = [] then None else Some (last (lru_iter L m)))"
    and iter_pop_lru: "lru_iter L (snd (lru_pop_lru L m)) = butlast (lru_iter L m)"
begin

lemmas iter_laws = iter_new iter_get iter_put iter_pop iter_pop_lru

lemma map_of_iter_put:
  "map_of (lru_iter L (snd (lru_put L m k v))) = (map_of (lru_iter L m))(k \<mapsto> v)"
  by (auto simp: iter_put fun_eq_iff map_of_drop_key)

end

subsection \<open>A list implementation\<close>

text \<open>
  The cache is the list of its entries from the most to the least recently used. The type
  keeps the keys distinct, which every operation preserves.
\<close>

typedef ('k, 'v) lru_list = "{es :: ('k \<times> 'v) list. distinct (map fst es)}"
  by (rule exI[of _ "[]"]) simp

setup_lifting type_definition_lru_list

lemma distinct_drop_key: "distinct (map fst es) \<Longrightarrow> distinct (map fst (drop_key k es))"
  by (induction es) auto

lemma fst_drop_key: "k \<notin> fst ` set (drop_key k es)"
  by auto

lift_definition ll_empty :: "('k, 'v) lru_list" is "[]" by simp

lift_definition ll_entries :: "('k, 'v) lru_list \<Rightarrow> ('k \<times> 'v) list" is "\<lambda>es. es" .

lift_definition ll_touch :: "'k \<Rightarrow> ('k, 'v) lru_list \<Rightarrow> ('k, 'v) lru_list" is
  "\<lambda>k es. case map_of es k of None \<Rightarrow> es | Some v \<Rightarrow> (k, v) # drop_key k es"
  by (auto simp: distinct_drop_key split: option.splits)

lift_definition ll_front :: "'k \<Rightarrow> 'v \<Rightarrow> ('k, 'v) lru_list \<Rightarrow> ('k, 'v) lru_list" is
  "\<lambda>k v es. (k, v) # drop_key k es"
  by (auto simp: distinct_drop_key)

lift_definition ll_drop :: "'k \<Rightarrow> ('k, 'v) lru_list \<Rightarrow> ('k, 'v) lru_list" is
  "\<lambda>k es. drop_key k es"
  by (rule distinct_drop_key)

lift_definition ll_butlast :: "('k, 'v) lru_list \<Rightarrow> ('k, 'v) lru_list" is butlast
  by (simp add: distinct_butlast map_butlast)

lemma ll_entries_distinct: "distinct (map fst (ll_entries m))"
  by transfer

lemma ll_entries_simps:
  "ll_entries ll_empty = []"
  "ll_entries (ll_touch k m) =
     (case map_of (ll_entries m) k of
        None \<Rightarrow> ll_entries m
      | Some v \<Rightarrow> (k, v) # drop_key k (ll_entries m))"
  "ll_entries (ll_front k v m) = (k, v) # drop_key k (ll_entries m)"
  "ll_entries (ll_drop k m) = drop_key k (ll_entries m)"
  "ll_entries (ll_butlast m) = butlast (ll_entries m)"
  by (transfer, simp)+

definition list_lru :: "(('k, 'v) lru_list, 'k, 'v) lru_ops" where
  "list_lru =
     \<lparr>lru_new = ll_empty,
      lru_get = (\<lambda>m k. (map_of (ll_entries m) k, ll_touch k m)),
      lru_put = (\<lambda>m k v. (map_of (ll_entries m) k, ll_front k v m)),
      lru_pop = (\<lambda>m k. (map_of (ll_entries m) k, ll_drop k m)),
      lru_pop_lru = (\<lambda>m. (if ll_entries m = [] then None else Some (last (ll_entries m)),
                          ll_butlast m)),
      lru_len = (\<lambda>m. length (ll_entries m)),
      lru_iter = ll_entries\<rparr>"

interpretation list_lc: lru_cache list_lru
  by unfold_locales (simp_all add: list_lru_def ll_entries_distinct ll_entries_simps
      split: option.split)

section \<open>Regular expressions\<close>

text \<open>
  \<open>re_new\<close> is \<open>Regex::new\<close>; \<open>re_captures\<close> gives, for the leftmost match, the text of each group
  that took part in it (group 0 is the whole match); \<open>re_replace\<close> is \<open>Regex::replace\<close>, which
  substitutes the leftmost match only.
\<close>

record 're regex_ops =
  re_new :: "string \<Rightarrow> 're option"
  re_is_match :: "'re \<Rightarrow> string \<Rightarrow> bool"
  re_captures :: "'re \<Rightarrow> string \<Rightarrow> (nat \<Rightarrow> string option) option"
  re_capture_names :: "'re \<Rightarrow> string option list"
  re_captures_len :: "'re \<Rightarrow> nat"
  re_replace :: "'re \<Rightarrow> string \<Rightarrow> string \<Rightarrow> string"

text \<open>
  The patterns without metacharacters, which match where their text occurs: an instance on
  which the definitions that take a \<open>regex_ops\<close> can be evaluated.
\<close>

fun find_sub :: "string \<Rightarrow> string \<Rightarrow> (string \<times> string) option" where
  "find_sub p [] = (if p = [] then Some ([], []) else None)"
| "find_sub p (c # s) =
     (case strip_prefix p (c # s) of
        Some r \<Rightarrow> Some ([], r)
      | None \<Rightarrow> map_option (\<lambda>(a, b). (c # a, b)) (find_sub p s))"

definition literal_regex :: "string regex_ops" where
  "literal_regex =
     \<lparr>re_new = (\<lambda>p. if list_ex (\<lambda>c. c \<in> set ''.+*?()[]{}|^$'' \<or> c = CHR 0x5C) p then None else Some p),
      re_is_match = (\<lambda>p s. find_sub p s \<noteq> None),
      re_captures = (\<lambda>p s. if find_sub p s = None then None
                            else Some (\<lambda>i. if i = 0 then Some p else None)),
      re_capture_names = (\<lambda>p. [None]),
      re_captures_len = (\<lambda>p. 1),
      re_replace = (\<lambda>p s rep. case find_sub p s of None \<Rightarrow> s | Some (a, b) \<Rightarrow> a @ rep @ b)\<rparr>"

end
