(* ===== verification/Templates.thy ===== *)
theory Templates
  imports Crates
begin

text \<open>
  Value templates (\<open>headers.rs\<close>): literal text mixed with \<open>{name}\<close> and \<open>{name|fallback}\<close>
  tokens. The theory holds the lexer, the resolution of tokens into template parts, and the
  direct references a compiled template makes. Rendering is in theory \<open>Variables\<close>, because a
  template may refer to a config-defined variable whose value is itself a template.

  \<open>lint_unknown\<close> only writes a warning to the log and has no definition here.
\<close>

section \<open>Principals\<close>

record identity =
  username :: string
  groups :: "string list"

datatype principal = Anonymous | Authenticated identity

section \<open>Parts of a template\<close>

datatype known_var =
  ClientIp | Username | Groups | Method | Path | Query | PathAndQuery | Host | Scheme
  | ClientCertSubject | ClientCertSans | CountryVar

type_synonym var_id = nat

datatype template_part =
  Literal string
  | Var known_var "string option"
  | Custom var_id "string option"
  | Header string "string option"
  | Capture nat "string option"
  | Unknown string

datatype template = Template (parts: "template_part list")

definition BUILTIN_VARS :: "string list" where
  "BUILTIN_VARS =
     [''client_ip'', ''username'', ''groups'', ''method'', ''path'', ''query'',
      ''path_and_query'', ''host'', ''scheme'', ''client_cert_subject'',
      ''client_cert_sans'', ''country'']"

definition known_var :: "string \<Rightarrow> known_var option" where
  "known_var name =
     (if name = ''client_ip'' then Some ClientIp
      else if name = ''username'' then Some Username
      else if name = ''groups'' then Some Groups
      else if name = ''method'' then Some Method
      else if name = ''path'' then Some Path
      else if name = ''query'' then Some Query
      else if name = ''path_and_query'' then Some PathAndQuery
      else if name = ''host'' then Some Host
      else if name = ''scheme'' then Some Scheme
      else if name = ''client_cert_subject'' then Some ClientCertSubject
      else if name = ''client_cert_sans'' then Some ClientCertSans
      else if name = ''country'' then Some CountryVar
      else None)"

section \<open>The lexer\<close>

text \<open>A token holds its name, its fallback and the original text with the braces.\<close>

datatype raw_tok = RLiteral string | RToken string "string option" string

lemma split_once_length:
  "split_once c s = Some (a, b) \<Longrightarrow> length s = Suc (length a + length b)"
  by (induction s arbitrary: a) (auto split: if_splits)

function lex_tokens :: "string \<Rightarrow> raw_tok list" where
  "lex_tokens rest =
     (case split_once (CHR ''{'') rest of
        None \<Rightarrow> if rest = [] then [] else [RLiteral rest]
      | Some (before, after) \<Rightarrow>
          (if before = [] then [] else [RLiteral before]) @
          (case split_once (CHR ''}'') after of
             Some (token, rest') \<Rightarrow>
               (let raw = CHR ''{'' # token @ ''}'';
                    (name, fallback) =
                      (case split_once (CHR ''|'') token of
                         Some (n, fb) \<Rightarrow> (n, Some fb)
                       | None \<Rightarrow> (token, None))
                in RToken name fallback raw # lex_tokens rest')
           | None \<Rightarrow> [RLiteral (CHR ''{'' # after)]))"
  by pat_completeness auto
termination
  by (relation "measure length") (auto dest!: split_once_length)

declare lex_tokens.simps [simp del]

section \<open>Capture scopes\<close>

record capture_scope =
  cs_groups :: nat
  cs_names :: "(string \<times> nat) list"

fun enum_names :: "nat \<Rightarrow> string option list \<Rightarrow> (string \<times> nat) list" where
  "enum_names i [] = []"
| "enum_names i (None # ns) = enum_names (Suc i) ns"
| "enum_names i (Some n # ns) = (n, i) # enum_names (Suc i) ns"

definition from_regex :: "'re regex_ops \<Rightarrow> 're \<Rightarrow> capture_scope" where
  "from_regex R re =
     \<lparr>cs_groups = re_captures_len R re - 1, cs_names = enum_names 0 (re_capture_names R re)\<rparr>"

definition empty_captures :: capture_scope where
  "empty_captures = \<lparr>cs_groups = 0, cs_names = []\<rparr>"

definition digit_group :: "string \<Rightarrow> nat option" where
  "digit_group token =
     (case token of
        [b] \<Rightarrow> let n = (of_char b :: nat) in if 49 \<le> n \<and> n \<le> 57 then Some (n - 48) else None
      | _ \<Rightarrow> None)"

definition cs_lookup :: "capture_scope \<Rightarrow> string \<Rightarrow> nat option" where
  "cs_lookup cs token =
     (case find (\<lambda>p. fst p = token) (cs_names cs) of
        Some p \<Rightarrow> Some (snd p)
      | None \<Rightarrow>
          (case digit_group token of
             Some i \<Rightarrow> if i \<le> cs_groups cs then Some i else None
           | None \<Rightarrow> None))"

section \<open>Variable names\<close>

record var_names =
  vn_names :: "string list"
  vn_index :: "string \<rightharpoonup> nat"

definition vn_default :: var_names where
  "vn_default = \<lparr>vn_names = [], vn_index = Map.empty\<rparr>"

definition vn_get :: "var_names \<Rightarrow> string \<Rightarrow> var_id option" where
  "vn_get v name = vn_index v name"

definition vn_insert :: "var_names \<Rightarrow> string \<Rightarrow> var_names" where
  "vn_insert v name =
     \<lparr>vn_names = vn_names v @ [name], vn_index = (vn_index v)(name \<mapsto> length (vn_names v))\<rparr>"

section \<open>Compilation\<close>

text \<open>The only failure: a value that references a capture group the pattern does not have.\<close>

datatype template_error = Capture_out_of_range nat nat

fun build_parts ::
  "'h header_ops \<Rightarrow> var_names option \<Rightarrow> capture_scope option \<Rightarrow> raw_tok list \<Rightarrow>
   template_error + template_part list" where
  "build_parts H vars caps [] = Inr []"
| "build_parts H vars caps (RLiteral l # toks) =
     bind_result (build_parts H vars caps toks) (\<lambda>ps. Inr (Literal l # ps))"
| "build_parts H vars caps (RToken name fb raw # toks) =
     (let next = (\<lambda>p. bind_result (build_parts H vars caps toks) (\<lambda>ps. Inr (p # ps))) in
      case known_var name of
        Some v \<Rightarrow> next (Var v fb)
      | None \<Rightarrow>
         (case vars of
            None \<Rightarrow> next (Unknown raw)
          | Some vn \<Rightarrow>
             (case Option.bind (strip_prefix ''header:'' name) (hn_from_bytes H) of
                Some hname \<Rightarrow> next (Header hname fb)
              | None \<Rightarrow>
                 (let named = (case vn_get vn name of
                                 Some vid \<Rightarrow> next (Custom vid fb)
                               | None \<Rightarrow> next (Unknown raw)) in
                  case caps of
                    None \<Rightarrow> named
                  | Some cs \<Rightarrow>
                      (case cs_lookup cs name of
                         Some i \<Rightarrow> next (Capture i fb)
                       | None \<Rightarrow>
                           (case digit_group name of
                              Some n \<Rightarrow> Inl (Capture_out_of_range n (cs_groups cs))
                            | None \<Rightarrow> named))))))"

definition build_template ::
  "'h header_ops \<Rightarrow> string \<Rightarrow> var_names option \<Rightarrow> capture_scope option \<Rightarrow>
   template_error + template" where
  "build_template H s vars caps =
     bind_result (build_parts H vars caps (lex_tokens s)) (\<lambda>ps. Inr (Template ps))"

definition parse_template :: "'h header_ops \<Rightarrow> string \<Rightarrow> template" where
  "parse_template H s =
     (case build_template H s None None of Inr t \<Rightarrow> t | Inl e \<Rightarrow> Template [Literal s])"

definition compile_template ::
  "'h header_ops \<Rightarrow> string \<Rightarrow> var_names \<Rightarrow> template_error + template" where
  "compile_template H s vars = build_template H s (Some vars) None"

definition compile_with_captures ::
  "'h header_ops \<Rightarrow> string \<Rightarrow> var_names \<Rightarrow> capture_scope \<Rightarrow> template_error + template" where
  "compile_with_captures H s vars caps = build_template H s (Some vars) (Some caps)"

section \<open>Direct references\<close>

record template_refs =
  tr_principal :: bool
  tr_geoip :: bool
  tr_headers :: "string list"
  tr_vars :: "var_id list"

text \<open>The idiom \<open>if !v.contains(x) { v.push(x) }\<close>.\<close>

definition push_new :: "'a list \<Rightarrow> 'a \<Rightarrow> 'a list" where
  "push_new xs x = (if x \<in> set xs then xs else xs @ [x])"

fun references_principal :: "template \<Rightarrow> bool" where
  "references_principal (Template ps) =
     list_ex (\<lambda>p. case p of Var Username _ \<Rightarrow> True | Var Groups _ \<Rightarrow> True | _ \<Rightarrow> False) ps"

fun refs_step :: "template_refs \<Rightarrow> template_part \<Rightarrow> template_refs" where
  "refs_step r (Var Username _) = r\<lparr>tr_principal := True\<rparr>"
| "refs_step r (Var Groups _) = r\<lparr>tr_principal := True\<rparr>"
| "refs_step r (Var CountryVar _) = r\<lparr>tr_geoip := True\<rparr>"
| "refs_step r (Header n _) = r\<lparr>tr_headers := push_new (tr_headers r) n\<rparr>"
| "refs_step r (Custom vid _) = r\<lparr>tr_vars := push_new (tr_vars r) vid\<rparr>"
| "refs_step r _ = r"

definition template_refs_default :: template_refs where
  "template_refs_default =
     \<lparr>tr_principal = False, tr_geoip = False, tr_headers = [], tr_vars = []\<rparr>"

definition refs :: "template \<Rightarrow> template_refs" where
  "refs t = foldl refs_step template_refs_default (parts t)"

section \<open>Lemmas\<close>

subsection \<open>The lexer loses nothing\<close>

fun tok_text :: "raw_tok \<Rightarrow> string" where
  "tok_text (RLiteral l) = l"
| "tok_text (RToken n fb raw) = raw"

lemma lex_text: "concat (map tok_text (lex_tokens s)) = s"
proof (induction s rule: length_induct)
  case (1 s)
  then show ?case
    by (subst lex_tokens.simps)
      (auto simp: split_once_Some split: option.splits prod.splits)
qed

subsection \<open>Compilation\<close>

text \<open>Without capture groups in scope, no token fails the compilation.\<close>

lemma build_parts_total: "\<exists>ps. build_parts H vars None toks = Inr ps"
  by (induction H vars "None :: capture_scope option" toks rule: build_parts.induct)
    (auto simp: Let_def split: option.splits)

lemma parse_template_parts:
  "build_parts H None None (lex_tokens s) = Inr (parts (parse_template H s))"
  using build_parts_total[of H None "lex_tokens s"]
  by (auto simp: parse_template_def build_template_def)

text \<open>In lenient mode every part is a built-in, or the token's own text.\<close>

lemma lenient_parts:
  "build_parts H None None toks = Inr ps \<Longrightarrow>
     list_all2 (\<lambda>t p. p = Literal (tok_text t) \<or> p = Unknown (tok_text t)
                  \<or> (\<exists>v fb n raw. t = RToken n fb raw \<and> known_var n = Some v \<and> p = Var v fb)) toks ps"
  by (induction H "None :: var_names option" "None :: capture_scope option" toks
        arbitrary: ps rule: build_parts.induct)
    (auto simp: Let_def bind_result_Inr split: option.splits)

subsection \<open>References\<close>

lemma set_push_new [simp]: "set (push_new xs x) = insert x (set xs)"
  by (auto simp: push_new_def)

lemma refs_step_effect:
  "set (tr_vars (refs_step r p)) = set (tr_vars r) \<union> {i. \<exists>fb. p = Custom i fb}"
  "set (tr_headers (refs_step r p)) = set (tr_headers r) \<union> {n. \<exists>fb. p = Header n fb}"
  "tr_principal (refs_step r p) \<longleftrightarrow>
     tr_principal r \<or> (\<exists>fb. p = Var Username fb \<or> p = Var Groups fb)"
  "tr_geoip (refs_step r p) \<longleftrightarrow> tr_geoip r \<or> (\<exists>fb. p = Var CountryVar fb)"
  by (cases "(r, p)" rule: refs_step.cases; auto)+

lemma refs_fold:
  "set (tr_vars (foldl refs_step r ps)) = set (tr_vars r) \<union> {i. \<exists>fb. Custom i fb \<in> set ps}"
  "set (tr_headers (foldl refs_step r ps)) = set (tr_headers r) \<union> {n. \<exists>fb. Header n fb \<in> set ps}"
  "tr_principal (foldl refs_step r ps) \<longleftrightarrow>
     tr_principal r \<or> (\<exists>fb. Var Username fb \<in> set ps \<or> Var Groups fb \<in> set ps)"
  "tr_geoip (foldl refs_step r ps) \<longleftrightarrow> tr_geoip r \<or> (\<exists>fb. Var CountryVar fb \<in> set ps)"
  by (induction ps arbitrary: r) (auto simp: refs_step_effect)

lemma refs_sets:
  "set (tr_vars (refs t)) = {i. \<exists>fb. Custom i fb \<in> set (parts t)}"
  "set (tr_headers (refs t)) = {n. \<exists>fb. Header n fb \<in> set (parts t)}"
  "tr_principal (refs t) \<longleftrightarrow> (\<exists>fb. Var Username fb \<in> set (parts t) \<or> Var Groups fb \<in> set (parts t))"
  "tr_geoip (refs t) \<longleftrightarrow> (\<exists>fb. Var CountryVar fb \<in> set (parts t))"
  by (simp_all add: refs_def refs_fold template_refs_default_def)

end
