(* ===== verification/Variables.thy ===== *)
theory Variables
  imports Templates
begin

text \<open>
  Config-defined variables (\<open>vars.rs\<close>) and the rendering of templates (\<open>headers.rs\<close>): the
  layered construction of the variable table with its cycle check, the transitive needs of a
  variable, the lazily evaluated and memoised values of one request, and the header rules that
  render templates into a header map.

  The recursions that walk the dependency graph (\<open>cycle_dfs\<close>, \<open>resolve_needs\<close>, \<open>get_var\<close>) are
  not structural: they carry a fuel argument that bounds the depth, and \<open>None\<close> stands for
  running out of it. The lemmas show that one more than the number of variables is enough:
  always for the cycle check, and for the other two on every table the cycle check accepts.
\<close>

section \<open>Configuration data\<close>

record variable_arm =
  arm_pattern :: "string option"
  arm_value :: string
  arm_line :: nat

datatype variable_body = Constant string | MatchDef string "variable_arm list"

record variable_def =
  vd_name :: string
  vd_body :: variable_body
  vd_line :: nat

section \<open>Needs\<close>

record var_needs =
  needs_principal :: bool
  needs_geoip :: bool
  needs_headers :: "string list"
  needs_uses_vars :: bool

definition needs_default :: var_needs where
  "needs_default =
     \<lparr>needs_principal = False, needs_geoip = False, needs_headers = [], needs_uses_vars = False\<rparr>"

definition merge_needs :: "var_needs \<Rightarrow> var_needs \<Rightarrow> var_needs" where
  "merge_needs a b =
     \<lparr>needs_principal = (needs_principal a \<or> needs_principal b),
      needs_geoip = (needs_geoip a \<or> needs_geoip b),
      needs_headers = foldl push_new (needs_headers a) (needs_headers b),
      needs_uses_vars = (needs_uses_vars a \<or> needs_uses_vars b)\<rparr>"

definition any_needs :: "var_needs \<Rightarrow> bool" where
  "any_needs n \<longleftrightarrow>
     needs_principal n \<or> needs_geoip n \<or> needs_uses_vars n \<or> needs_headers n \<noteq> []"

section \<open>The compiled table\<close>

record 're arm =
  arm_regex :: "'re option"
  arm_template :: template

datatype 're var_body = Const template | Match template "'re arm list"

record 're var_def =
  def_name :: string
  def_body :: "'re var_body"
  def_needs :: var_needs

record 're var_table =
  defs :: "'re var_def list"
  table_names :: var_names

datatype var_error =
  Invalid_name nat string
  | Name_collision nat string
  | Duplicate_variable nat string
  | Bad_template nat string template_error
  | Unreachable_arms nat string
  | Invalid_pattern nat string string
  | Capture_collision nat string string
  | Dependency_cycle "string list"

definition RESERVED :: "string list" where
  "RESERVED = [''request_id'', ''port'', ''header'']"

definition lower_alpha :: "char \<Rightarrow> bool" where
  "lower_alpha c = (let n = (of_char c :: nat) in 97 \<le> n \<and> n \<le> 122)"

fun valid_name :: "string \<Rightarrow> bool" where
  "valid_name [] = False"
| "valid_name (c # cs) =
     (lower_alpha c \<and> list_all (\<lambda>d. lower_alpha d \<or> is_ascii_digit d \<or> d = CHR ''_'') cs)"

subsection \<open>Compiling one definition\<close>

fun first_collision :: "var_names \<Rightarrow> string list \<Rightarrow> string option" where
  "first_collision names [] = None"
| "first_collision names (n # ns) =
     (if n \<in> set BUILTIN_VARS \<or> vn_get names n \<noteq> None then Some n else first_collision names ns)"

definition map_err :: "('e \<Rightarrow> 'f) \<Rightarrow> 'e + 'a \<Rightarrow> 'f + 'a" where
  "map_err f r = (case r of Inl e \<Rightarrow> Inl (f e) | Inr x \<Rightarrow> Inr x)"

definition compile_arm ::
  "'h header_ops \<Rightarrow> 're regex_ops \<Rightarrow> string \<Rightarrow> var_names \<Rightarrow> variable_arm \<Rightarrow> var_error + 're arm" where
  "compile_arm H R name names a =
     bind_result
       (case arm_pattern a of
          None \<Rightarrow> Inr (None, empty_captures)
        | Some pat \<Rightarrow>
            (case re_new R pat of
               None \<Rightarrow> Inl (Invalid_pattern (arm_line a) name pat)
             | Some re \<Rightarrow>
                 (let caps = from_regex R re in
                  case first_collision names (map fst (cs_names caps)) of
                    Some n \<Rightarrow> Inl (Capture_collision (arm_line a) name n)
                  | None \<Rightarrow> Inr (Some re, caps))))
       (\<lambda>(regex, caps).
          bind_result
            (map_err (Bad_template (arm_line a) name)
               (compile_with_captures H (arm_value a) names caps))
            (\<lambda>value. Inr \<lparr>arm_regex = regex, arm_template = value\<rparr>))"

fun compile_arms ::
  "'h header_ops \<Rightarrow> 're regex_ops \<Rightarrow> string \<Rightarrow> var_names \<Rightarrow> variable_arm list \<Rightarrow>
   var_error + 're arm list" where
  "compile_arms H R name names [] = Inr []"
| "compile_arms H R name names (a # as) =
     (if arm_pattern a = None \<and> as \<noteq> [] then Inl (Unreachable_arms (arm_line a) name)
      else bind_result (compile_arm H R name names a) (\<lambda>c.
             bind_result (compile_arms H R name names as) (\<lambda>cs. Inr (c # cs))))"

definition compile_body ::
  "'h header_ops \<Rightarrow> 're regex_ops \<Rightarrow> var_names \<Rightarrow> variable_def \<Rightarrow> var_error + 're var_body" where
  "compile_body H R names spec =
     (case vd_body spec of
        Constant t \<Rightarrow>
          bind_result
            (map_err (Bad_template (vd_line spec) (vd_name spec)) (compile_template H t names))
            (\<lambda>t'. Inr (Const t'))
      | MatchDef input arms \<Rightarrow>
          bind_result
            (map_err (Bad_template (vd_line spec) (vd_name spec)) (compile_template H input names))
            (\<lambda>input'.
               bind_result (compile_arms H R (vd_name spec) names arms)
                 (\<lambda>compiled. Inr (Match input' compiled))))"

subsection \<open>Dependencies and the cycle check\<close>

fun body_templates :: "'re var_body \<Rightarrow> template list" where
  "body_templates (Const t) = [t]"
| "body_templates (Match input arms) = input # map arm_template arms"

definition deps_of :: "'re var_table \<Rightarrow> nat \<Rightarrow> nat list" where
  "deps_of T i =
     foldl (\<lambda>ids t. foldl push_new ids (tr_vars (refs t))) []
       (body_templates (def_body (defs T ! i)))"

text \<open>
  The three colours are the values of the code's \<open>state\<close> vector: 0 unvisited, 1 on the current
  path, 2 done. \<open>stack.pop()\<close> undoes the \<open>push\<close> of the same call, so the stack is an argument.
\<close>

fun cycle_dfs ::
  "nat \<Rightarrow> 're var_table \<Rightarrow> nat \<Rightarrow> nat list \<Rightarrow> nat list \<Rightarrow> (var_error + nat list) option"
and cycle_dfs_list ::
  "nat \<Rightarrow> 're var_table \<Rightarrow> nat list \<Rightarrow> nat list \<Rightarrow> nat list \<Rightarrow> (var_error + nat list) option"
where
  "cycle_dfs 0 T i state stack = None"
| "cycle_dfs (Suc k) T i state stack =
     (if state ! i = 2 then Some (Inr state)
      else if state ! i = 1 then
        (let chain = dropWhile (\<lambda>x. x \<noteq> i) stack @ [i]
         in Some (Inl (Dependency_cycle (map (\<lambda>x. def_name (defs T ! x)) chain))))
      else
        (case cycle_dfs_list k T (deps_of T i) (state[i := 1]) (stack @ [i]) of
           None \<Rightarrow> None
         | Some (Inl e) \<Rightarrow> Some (Inl e)
         | Some (Inr state') \<Rightarrow> Some (Inr (state'[i := 2]))))"
| "cycle_dfs_list k T [] state stack = Some (Inr state)"
| "cycle_dfs_list k T (d # ds) state stack =
     (case cycle_dfs k T d state stack of
        None \<Rightarrow> None
      | Some (Inl e) \<Rightarrow> Some (Inl e)
      | Some (Inr state') \<Rightarrow> cycle_dfs_list k T ds state' stack)"

definition check_cycles :: "'re var_table \<Rightarrow> (var_error + unit) option" where
  "check_cycles T =
     (let n = length (defs T) in
      case cycle_dfs_list (Suc n) T [0..<n] (replicate n 0) [] of
        None \<Rightarrow> None
      | Some (Inl e) \<Rightarrow> Some (Inl e)
      | Some (Inr _) \<Rightarrow> Some (Inr ()))"

subsection \<open>Transitive needs\<close>

definition direct_needs :: "'re var_body \<Rightarrow> var_needs" where
  "direct_needs b =
     foldl (\<lambda>nd t. let r = refs t in
              nd\<lparr>needs_principal := needs_principal nd \<or> tr_principal r,
                 needs_geoip := needs_geoip nd \<or> tr_geoip r,
                 needs_headers := foldl push_new (needs_headers nd) (tr_headers r)\<rparr>)
       needs_default (body_templates b)"

fun resolve_needs ::
  "nat \<Rightarrow> nat \<Rightarrow> var_needs list \<Rightarrow> nat list list \<Rightarrow> var_needs option list \<Rightarrow>
   (var_needs \<times> var_needs option list) option"
and resolve_list ::
  "nat \<Rightarrow> nat list \<Rightarrow> var_needs \<Rightarrow> var_needs list \<Rightarrow> nat list list \<Rightarrow> var_needs option list \<Rightarrow>
   (var_needs \<times> var_needs option list) option"
where
  "resolve_needs 0 i direct deps resolved = None"
| "resolve_needs (Suc k) i direct deps resolved =
     (case resolved ! i of
        Some nd \<Rightarrow> Some (nd, resolved)
      | None \<Rightarrow>
          (case resolve_list k (deps ! i) (direct ! i) direct deps resolved of
             None \<Rightarrow> None
           | Some (nd, resolved') \<Rightarrow> Some (nd, resolved'[i := Some nd])))"
| "resolve_list k [] nd direct deps resolved = Some (nd, resolved)"
| "resolve_list k (d # ds) nd direct deps resolved =
     (case resolve_needs k d direct deps resolved of
        None \<Rightarrow> None
      | Some (sub, resolved') \<Rightarrow> resolve_list k ds (merge_needs nd sub) direct deps resolved')"

fun resolve_all ::
  "nat \<Rightarrow> nat list \<Rightarrow> var_needs list \<Rightarrow> nat list list \<Rightarrow> var_needs option list \<Rightarrow>
   var_needs option list option" where
  "resolve_all k [] direct deps resolved = Some resolved"
| "resolve_all k (i # is) direct deps resolved =
     (case resolve_needs k i direct deps resolved of
        None \<Rightarrow> None
      | Some (_, resolved') \<Rightarrow> resolve_all k is direct deps resolved')"

definition compute_needs :: "'re var_table \<Rightarrow> 're var_table option" where
  "compute_needs T =
     (let n = length (defs T);
          direct = map (\<lambda>d. direct_needs (def_body d)) (defs T);
          deps = map (deps_of T) [0..<n]
      in case resolve_all (Suc n) [0..<n] direct deps (replicate n None) of
           None \<Rightarrow> None
         | Some resolved \<Rightarrow>
             Some (T\<lparr>defs := map2 (\<lambda>d r. case r of Some nd \<Rightarrow> d\<lparr>def_needs := nd\<rparr> | None \<Rightarrow> d)
                               (defs T) resolved\<rparr>))"

subsection \<open>Building the table\<close>

text \<open>The specs of one layer, with the names seen in that layer so far.\<close>

fun add_layer ::
  "string list \<Rightarrow> variable_def list \<Rightarrow> var_names \<times> variable_def list \<Rightarrow>
   var_error + (var_names \<times> variable_def list)" where
  "add_layer seen [] acc = Inr acc"
| "add_layer seen (spec # specs) (names, chosen) =
     (if \<not> valid_name (vd_name spec) then Inl (Invalid_name (vd_line spec) (vd_name spec))
      else if vd_name spec \<in> set BUILTIN_VARS \<or> vd_name spec \<in> set RESERVED then
        Inl (Name_collision (vd_line spec) (vd_name spec))
      else if vd_name spec \<in> set seen then
        Inl (Duplicate_variable (vd_line spec) (vd_name spec))
      else add_layer (vd_name spec # seen) specs
        (case vn_get names (vd_name spec) of
           Some i \<Rightarrow> (names, chosen[i := spec])
         | None \<Rightarrow> (vn_insert names (vd_name spec), chosen @ [spec])))"

fun add_layers ::
  "variable_def list list \<Rightarrow> var_names \<times> variable_def list \<Rightarrow>
   var_error + (var_names \<times> variable_def list)" where
  "add_layers [] acc = Inr acc"
| "add_layers (layer # layers) acc = bind_result (add_layer [] layer acc) (add_layers layers)"

definition compile_def ::
  "'h header_ops \<Rightarrow> 're regex_ops \<Rightarrow> var_names \<Rightarrow> variable_def \<Rightarrow> var_error + 're var_def" where
  "compile_def H R names spec =
     bind_result (compile_body H R names spec) (\<lambda>b.
       Inr \<lparr>def_name = vd_name spec, def_body = b, def_needs = needs_default\<rparr>)"

definition build_layered ::
  "'h header_ops \<Rightarrow> 're regex_ops \<Rightarrow> variable_def list list \<Rightarrow> (var_error + 're var_table) option" where
  "build_layered H R layers =
     (case add_layers layers (vn_default, []) of
        Inl e \<Rightarrow> Some (Inl e)
      | Inr (names, chosen) \<Rightarrow>
          (case collect_result (compile_def H R names) chosen of
             Inl e \<Rightarrow> Some (Inl e)
           | Inr ds \<Rightarrow>
               (let T = \<lparr>defs = ds, table_names = names\<rparr> in
                case check_cycles T of
                  None \<Rightarrow> None
                | Some (Inl e) \<Rightarrow> Some (Inl e)
                | Some (Inr _) \<Rightarrow> map_option Inr (compute_needs T))))"

definition needs_of :: "'re var_table \<Rightarrow> var_id \<Rightarrow> var_needs" where
  "needs_of T i = def_needs (defs T ! i)"

definition any_needs_geoip :: "'re var_table \<Rightarrow> bool" where
  "any_needs_geoip T = list_ex (\<lambda>d. needs_geoip (def_needs d)) (defs T)"

definition absorb_needs :: "'re var_table \<Rightarrow> var_needs \<Rightarrow> template \<Rightarrow> var_needs" where
  "absorb_needs T nd t =
     (let r = refs t;
          nd' = nd\<lparr>needs_principal := needs_principal nd \<or> tr_principal r,
                   needs_geoip := needs_geoip nd \<or> tr_geoip r,
                   needs_headers := foldl push_new (needs_headers nd) (tr_headers r)\<rparr>
      in foldl (\<lambda>a i. merge_needs (a\<lparr>needs_uses_vars := True\<rparr>) (needs_of T i)) nd' (tr_vars r))"

section \<open>Rendering\<close>

text \<open>
  The request context without its variable scope: the scope (the table and the memo slots) is
  threaded through the rendering, because a first read of a variable fills its slot.
\<close>

record request_context =
  cx_client_ip :: string
  cx_username :: string
  cx_groups :: string
  cx_method :: string
  cx_path :: string
  cx_query :: string
  cx_path_and_query :: string
  cx_host :: string
  cx_scheme :: string
  cx_client_cert_subject :: string
  cx_client_cert_sans :: string
  cx_country :: string
  cx_headers :: "(string \<times> string) list"

definition empty_context :: request_context where
  "empty_context =
     \<lparr>cx_client_ip = [], cx_username = [], cx_groups = [], cx_method = [], cx_path = [],
      cx_query = [], cx_path_and_query = [], cx_host = [], cx_scheme = [],
      cx_client_cert_subject = [], cx_client_cert_sans = [], cx_country = [], cx_headers = []\<rparr>"

definition header_value :: "request_context \<Rightarrow> string \<Rightarrow> string" where
  "header_value cx name =
     (case find (\<lambda>p. fst p = name) (cx_headers cx) of Some p \<Rightarrow> snd p | None \<Rightarrow> [])"

fun known_value :: "request_context \<Rightarrow> known_var \<Rightarrow> string" where
  "known_value cx ClientIp = cx_client_ip cx"
| "known_value cx Username = cx_username cx"
| "known_value cx Groups = cx_groups cx"
| "known_value cx Method = cx_method cx"
| "known_value cx Path = cx_path cx"
| "known_value cx Query = cx_query cx"
| "known_value cx PathAndQuery = cx_path_and_query cx"
| "known_value cx Host = cx_host cx"
| "known_value cx Scheme = cx_scheme cx"
| "known_value cx ClientCertSubject = cx_client_cert_subject cx"
| "known_value cx ClientCertSans = cx_client_cert_sans cx"
| "known_value cx CountryVar = cx_country cx"

definition with_fallback :: "string \<Rightarrow> string option \<Rightarrow> string" where
  "with_fallback value fb =
     (if value = [] then (case fb of Some d \<Rightarrow> d | None \<Rightarrow> []) else value)"

definition capture_value :: "(nat \<Rightarrow> string option) option \<Rightarrow> nat \<Rightarrow> string" where
  "capture_value caps i = (case Option.bind caps (\<lambda>c. c i) of Some m \<Rightarrow> m | None \<Rightarrow> [])"

type_synonym slots = "string option list"

definition new_slots :: "'re var_table \<Rightarrow> slots" where
  "new_slots T = replicate (length (defs T)) None"

text \<open>The first arm that applies to the rendered input, with its captures.\<close>

fun pick_arm ::
  "'re regex_ops \<Rightarrow> string \<Rightarrow> 're arm list \<Rightarrow>
   (template \<times> (nat \<Rightarrow> string option) option) option" where
  "pick_arm R input [] = None"
| "pick_arm R input (a # as) =
     (case arm_regex a of
        None \<Rightarrow> Some (arm_template a, None)
      | Some re \<Rightarrow>
          (case re_captures R re input of
             Some caps \<Rightarrow> Some (arm_template a, Some caps)
           | None \<Rightarrow> pick_arm R input as))"

text \<open>
  \<open>Template::render_inner\<close>, \<open>VarTable::eval\<close> and \<open>VarScope::get\<close>. The context's
  \<open>vars.get\<close> is the argument \<open>get\<close> of the first two; \<open>get_var\<close> ties the knot.
\<close>

type_synonym var_getter = "var_id \<Rightarrow> slots \<Rightarrow> (string \<times> slots) option"

fun render_part ::
  "var_getter \<Rightarrow> request_context \<Rightarrow> (nat \<Rightarrow> string option) option \<Rightarrow> template_part \<Rightarrow> slots \<Rightarrow>
   (string \<times> slots) option" where
  "render_part get cx caps (Literal s) sl = Some (s, sl)"
| "render_part get cx caps (Unknown s) sl = Some (s, sl)"
| "render_part get cx caps (Var v fb) sl = Some (with_fallback (known_value cx v) fb, sl)"
| "render_part get cx caps (Custom i fb) sl =
     map_option (\<lambda>(v, sl'). (with_fallback v fb, sl')) (get i sl)"
| "render_part get cx caps (Header n fb) sl = Some (with_fallback (header_value cx n) fb, sl)"
| "render_part get cx caps (Capture i fb) sl = Some (with_fallback (capture_value caps i) fb, sl)"

fun render_parts ::
  "var_getter \<Rightarrow> request_context \<Rightarrow> (nat \<Rightarrow> string option) option \<Rightarrow> template_part list \<Rightarrow>
   slots \<Rightarrow> (string \<times> slots) option" where
  "render_parts get cx caps [] sl = Some ([], sl)"
| "render_parts get cx caps (p # ps) sl =
     Option.bind (render_part get cx caps p sl) (\<lambda>(s, sl').
       map_option (\<lambda>(rest, sl''). (s @ rest, sl'')) (render_parts get cx caps ps sl'))"

definition eval_var ::
  "var_getter \<Rightarrow> 're regex_ops \<Rightarrow> 're var_table \<Rightarrow> request_context \<Rightarrow> var_id \<Rightarrow> slots \<Rightarrow>
   (string \<times> slots) option" where
  "eval_var get R T cx i sl =
     (if length (defs T) \<le> i then Some ([], sl)
      else (case def_body (defs T ! i) of
         Const t \<Rightarrow> render_parts get cx None (parts t) sl
       | Match input arms \<Rightarrow>
           Option.bind (render_parts get cx None (parts input) sl) (\<lambda>(inp, sl').
             case pick_arm R inp arms of
               None \<Rightarrow> Some ([], sl')
             | Some (t, caps) \<Rightarrow> render_parts get cx caps (parts t) sl')))"

text \<open>An empty scope has no table. \<open>OnceLock::set\<close> keeps a value that is already there.\<close>

fun get_var ::
  "nat \<Rightarrow> 're regex_ops \<Rightarrow> 're var_table option \<Rightarrow> request_context \<Rightarrow> var_getter" where
  "get_var 0 R scope cx i sl = None"
| "get_var (Suc k) R scope cx i sl =
     (case scope of
        None \<Rightarrow> Some ([], sl)
      | Some T \<Rightarrow>
          if length sl \<le> i then Some ([], sl)
          else (case sl ! i of
             Some v \<Rightarrow> Some (v, sl)
           | None \<Rightarrow>
               Option.bind (eval_var (get_var k R scope cx) R T cx i sl) (\<lambda>(value, sl').
                 case sl' ! i of
                   Some w \<Rightarrow> Some (w, sl')
                 | None \<Rightarrow> Some (value, sl'[i := Some value]))))"

text \<open>Enough fuel for the variables of a scope: a path holds each variable at most once.\<close>

definition scope_fuel :: "'re var_table option \<Rightarrow> nat" where
  "scope_fuel scope = (case scope of None \<Rightarrow> 1 | Some T \<Rightarrow> Suc (length (defs T)))"

definition render ::
  "'re regex_ops \<Rightarrow> 're var_table option \<Rightarrow> request_context \<Rightarrow> template \<Rightarrow> slots \<Rightarrow>
   (string \<times> slots) option" where
  "render R scope cx t sl =
     render_parts (get_var (scope_fuel scope) R scope cx) cx None (parts t) sl"

section \<open>Header rules\<close>

datatype header_op = SetOp string template | AddOp string template | RemoveOp string

record header_rules =
  hr_request :: "header_op list"
  hr_response :: "header_op list"
  hr_needs_principal :: bool

fun op_references_principal :: "header_op \<Rightarrow> bool" where
  "op_references_principal (SetOp _ t) = references_principal t"
| "op_references_principal (AddOp _ t) = references_principal t"
| "op_references_principal (RemoveOp _) = False"

definition new_header_rules :: "header_op list \<Rightarrow> header_op list \<Rightarrow> header_rules" where
  "new_header_rules req resp =
     \<lparr>hr_request = req, hr_response = resp,
      hr_needs_principal = list_ex op_references_principal (req @ resp)\<rparr>"

definition principal_strings :: "principal \<Rightarrow> string \<times> string" where
  "principal_strings p =
     (case p of
        Anonymous \<Rightarrow> ([], [])
      | Authenticated ident \<Rightarrow> (username ident, join_with '','' (groups ident)))"

text \<open>A value that is empty or is not a legal header value is skipped.\<close>

fun apply_op ::
  "'h header_ops \<Rightarrow> 're regex_ops \<Rightarrow> 're var_table option \<Rightarrow> request_context \<Rightarrow> header_op \<Rightarrow>
   'h \<times> slots \<Rightarrow> ('h \<times> slots) option" where
  "apply_op H R scope cx (SetOp name t) (h, sl) =
     (case render R scope cx t sl of
        None \<Rightarrow> None
      | Some (rendered, sl') \<Rightarrow>
          if rendered = [] then Some (h, sl')
          else (case hv_from_str H rendered of
             Some val \<Rightarrow> Some (hm_insert H h name val, sl')
           | None \<Rightarrow> Some (h, sl')))"
| "apply_op H R scope cx (AddOp name t) (h, sl) =
     (case render R scope cx t sl of
        None \<Rightarrow> None
      | Some (rendered, sl') \<Rightarrow>
          if rendered = [] then Some (h, sl')
          else (case hv_from_str H rendered of
             Some val \<Rightarrow> Some (hm_append H h name val, sl')
           | None \<Rightarrow> Some (h, sl')))"
| "apply_op H R scope cx (RemoveOp name) (h, sl) = Some (hm_remove H h name, sl)"

fun apply_headers ::
  "'h header_ops \<Rightarrow> 're regex_ops \<Rightarrow> 're var_table option \<Rightarrow> request_context \<Rightarrow> header_op list \<Rightarrow>
   'h \<times> slots \<Rightarrow> ('h \<times> slots) option" where
  "apply_headers H R scope cx [] hs = Some hs"
| "apply_headers H R scope cx (op # ops) hs =
     Option.bind (apply_op H R scope cx op hs) (apply_headers H R scope cx ops)"

section \<open>The dependency graph\<close>

definition dep_rel :: "'re var_table \<Rightarrow> (nat \<times> nat) set" where
  "dep_rel T = {(i, j). i < length (defs T) \<and> j \<in> set (deps_of T i)}"

definition closed_deps :: "'re var_table \<Rightarrow> bool" where
  "closed_deps T \<longleftrightarrow> (\<forall>i < length (defs T). set (deps_of T i) \<subseteq> {..<length (defs T)})"

lemma set_foldl_push_new [simp]: "set (foldl push_new xs ys) = set xs \<union> set ys"
  by (induction ys arbitrary: xs) auto

lemma set_foldl_push_refs:
  "set (foldl (\<lambda>ids t. foldl push_new ids (tr_vars (refs t))) xs ts) =
     set xs \<union> (\<Union>t \<in> set ts. set (tr_vars (refs t)))"
  by (induction ts arbitrary: xs) auto

lemma set_deps_of:
  "set (deps_of T i) =
     {j. \<exists>t \<in> set (body_templates (def_body (defs T ! i))). \<exists>fb. Custom j fb \<in> set (parts t)}"
  by (auto simp: deps_of_def set_foldl_push_refs refs_sets)

lemma dep_relD: "(i, j) \<in> dep_rel T \<Longrightarrow> closed_deps T \<Longrightarrow> i < length (defs T) \<and> j < length (defs T)"
  by (auto simp: dep_rel_def closed_deps_def)

text \<open>In an acyclic graph the number of nodes a node reaches bounds the depth below it.\<close>

definition dep_rank :: "'re var_table \<Rightarrow> nat \<Rightarrow> nat" where
  "dep_rank T i = card ((dep_rel T)\<^sup>+ `` {i})"

lemma dep_reach_bound: "closed_deps T \<Longrightarrow> (dep_rel T)\<^sup>+ `` {i} \<subseteq> {..<length (defs T)}"
  by (blast elim: tranclE dest: dep_relD)

lemma dep_rank_le: "closed_deps T \<Longrightarrow> dep_rank T i \<le> length (defs T)"
  unfolding dep_rank_def using card_mono[OF _ dep_reach_bound, of T i] by simp

lemma dep_rank_less:
  assumes "closed_deps T" "acyclic (dep_rel T)" "(i, j) \<in> dep_rel T"
  shows "dep_rank T j < dep_rank T i"
proof -
  have "j \<notin> (dep_rel T)\<^sup>+ `` {j}" using assms(2) by (simp add: acyclic_def)
  moreover have "j \<in> (dep_rel T)\<^sup>+ `` {i}" using assms(3) by auto
  moreover have "(dep_rel T)\<^sup>+ `` {j} \<subseteq> (dep_rel T)\<^sup>+ `` {i}"
    using assms(3) by (auto intro: trancl_into_trancl2)
  ultimately show ?thesis
    unfolding dep_rank_def
    by (intro psubset_card_mono) (auto intro: finite_subset[OF dep_reach_bound[OF assms(1)]])
qed

section \<open>The cycle check\<close>

definition unvisited :: "nat list \<Rightarrow> nat set" where
  "unvisited st = {x. x < length st \<and> st ! x \<noteq> 1 \<and> st ! x \<noteq> 2}"

lemma unvisited_mark: "c = 1 \<or> c = 2 \<Longrightarrow> unvisited (st[i := c]) = unvisited st - {i}"
  by (auto simp: unvisited_def nth_update split: if_splits)

lemma finite_unvisited [simp]: "finite (unvisited st)"
  by (simp add: unvisited_def)

lemma card_unvisited_mark:
  assumes "i < length st" "st ! i \<noteq> 1" "st ! i \<noteq> 2"
  shows "card (unvisited (st[i := 1])) < card (unvisited st)"
proof -
  have "i \<in> unvisited st" using assms by (simp add: unvisited_def)
  then have "unvisited (st[i := 1]) \<subset> unvisited st" by (auto simp: unvisited_mark)
  then show ?thesis by (intro psubset_card_mono) simp_all
qed

text \<open>The search never runs out of fuel, and it never makes a node unvisited again.\<close>

lemma cycle_dfs_fuel:
  shows "closed_deps T \<Longrightarrow> length st = length (defs T) \<Longrightarrow> i < length (defs T) \<Longrightarrow>
       card (unvisited st) < k \<Longrightarrow>
     \<exists>r. cycle_dfs k T i st stack = Some r
       \<and> (\<forall>st'. r = Inr st' \<longrightarrow> length st' = length st \<and> unvisited st' \<subseteq> unvisited st)"
    and "closed_deps T \<Longrightarrow> length st = length (defs T) \<Longrightarrow> set ds \<subseteq> {..<length (defs T)} \<Longrightarrow>
       card (unvisited st) < k \<Longrightarrow>
     \<exists>r. cycle_dfs_list k T ds st stack = Some r
       \<and> (\<forall>st'. r = Inr st' \<longrightarrow> length st' = length st \<and> unvisited st' \<subseteq> unvisited st)"
proof (induction k T i st stack and k T ds st stack rule: cycle_dfs_cycle_dfs_list.induct)
  case (2 k T i st stack)
  show ?case
  proof (cases "st ! i = 2 \<or> st ! i = 1")
    case False
    then have "card (unvisited (st[i := 1])) < k"
      using card_unvisited_mark[of i st] 2(3-5) by simp
    moreover have "set (deps_of T i) \<subseteq> {..<length (defs T)}"
      using 2(2,4) by (simp add: closed_deps_def)
    ultimately obtain r where "cycle_dfs_list k T (deps_of T i) (st[i := 1]) (stack @ [i]) = Some r"
      "\<forall>st'. r = Inr st' \<longrightarrow> length st' = length st \<and> unvisited st' \<subseteq> unvisited (st[i := 1])"
      using 2(1)[OF _ _ 2(2)] 2(3) False by auto
    then show ?thesis using False by (cases r) (auto simp: unvisited_mark)
  qed auto
next
  case (4 k T d ds st stack)
  obtain r where r: "cycle_dfs k T d st stack = Some r"
    "\<forall>st'. r = Inr st' \<longrightarrow> length st' = length st \<and> unvisited st' \<subseteq> unvisited st"
    using 4(1)[OF 4(3,4) _ 4(6)] 4(5) by auto
  show ?case
  proof (cases r)
    case (Inr st1)
    then have "card (unvisited st1) < k"
      using r(2) 4(6) card_mono[of "unvisited st" "unvisited st1"] by simp
    then obtain r' where "cycle_dfs_list k T ds st1 stack = Some r'"
      "\<forall>st'. r' = Inr st' \<longrightarrow> length st' = length st1 \<and> unvisited st' \<subseteq> unvisited st1"
      using 4(2)[OF r(1) Inr 4(3)] 4(4,5) r(2) Inr by auto
    then show ?thesis using r Inr by auto
  qed (use r in auto)
qed auto

text \<open>A successful search changes no visited node, and turns no node grey.\<close>

lemma cycle_dfs_frame:
  shows "cycle_dfs k T i st stack = Some (Inr st') \<Longrightarrow>
     length st' = length st \<and>
     (\<forall>x < length st. (st ! x = 2 \<longrightarrow> st' ! x = 2) \<and> (st' ! x = 1 \<longleftrightarrow> st ! x = 1))"
    and "cycle_dfs_list k T ds st stack = Some (Inr st') \<Longrightarrow>
     length st' = length st \<and>
     (\<forall>x < length st. (st ! x = 2 \<longrightarrow> st' ! x = 2) \<and> (st' ! x = 1 \<longleftrightarrow> st ! x = 1))"
proof (induction k T i st stack and k T ds st stack arbitrary: st' and st'
    rule: cycle_dfs_cycle_dfs_list.induct)
  case (2 k T i st stack)
  show ?case
  proof (cases "st ! i = 2 \<or> st ! i = 1")
    case False
    then obtain st1 where st1:
      "cycle_dfs_list k T (deps_of T i) (st[i := 1]) (stack @ [i]) = Some (Inr st1)"
      "st' = st1[i := 2]"
      using 2(2) by (auto split: option.splits sum.splits)
    have "length st1 = length st \<and>
      (\<forall>x < length st. (st[i := 1] ! x = 2 \<longrightarrow> st1 ! x = 2) \<and> (st1 ! x = 1 \<longleftrightarrow> st[i := 1] ! x = 1))"
      using 2(1)[OF _ _ st1(1)] False by simp
    then show ?thesis using False st1(2) by (auto simp: nth_update split: if_splits)
  qed (use 2 in auto)
next
  case (4 k T d ds st stack)
  from 4(3) obtain st1 where st1: "cycle_dfs k T d st stack = Some (Inr st1)"
    "cycle_dfs_list k T ds st1 stack = Some (Inr st')"
    by (auto split: option.splits sum.splits)
  from 4(1)[OF st1(1)] 4(2)[OF st1(1) refl st1(2)] show ?case by auto
qed auto

text \<open>Finished nodes are closed under dependencies and lie on no cycle.\<close>

definition black_ok :: "'re var_table \<Rightarrow> nat list \<Rightarrow> bool" where
  "black_ok T st \<longleftrightarrow> length st = length (defs T) \<and>
     (\<forall>b < length (defs T). st ! b = 2 \<longrightarrow>
        (\<forall>j \<in> set (deps_of T b). st ! j = 2) \<and> (b, b) \<notin> (dep_rel T)\<^sup>+)"

lemma black_reach:
  assumes "closed_deps T" "black_ok T st" "st ! i = 2" "(i, j) \<in> (dep_rel T)\<^sup>+"
  shows "st ! j = 2"
  using assms(4) by (induction rule: trancl_induct)
    (use assms in \<open>auto simp: black_ok_def dep_rel_def\<close>)

lemma black_ok_mark:
  assumes "black_ok T st" "st ! i \<noteq> 2" "closed_deps T"
  shows "black_ok T (st[i := 1])"
  using assms unfolding black_ok_def closed_deps_def
  by (auto simp: nth_update subset_iff split: if_splits)

lemma black_ok_finish:
  assumes ok: "black_ok T st" and i: "i < length (defs T)" "st ! i = 1" and cl: "closed_deps T"
    and deps: "\<forall>d \<in> set (deps_of T i). st ! d = 2"
  shows "black_ok T (st[i := 2])"
proof -
  have "(i, i) \<notin> (dep_rel T)\<^sup>+"
  proof
    assume "(i, i) \<in> (dep_rel T)\<^sup>+"
    then obtain d where "(i, d) \<in> dep_rel T" "(d, i) \<in> (dep_rel T)\<^sup>*" by (meson tranclD)
    moreover from this have "st ! d = 2" using deps by (auto simp: dep_rel_def)
    ultimately show False using black_reach[OF cl ok, of d i] i by (auto simp: rtrancl_eq_or_trancl)
  qed
  then show ?thesis
    using assms unfolding black_ok_def closed_deps_def
    by (auto simp: nth_update subset_iff split: if_splits)
qed

lemma cycle_dfs_sound:
  shows "closed_deps T \<Longrightarrow> black_ok T st \<Longrightarrow> i < length (defs T) \<Longrightarrow>
     cycle_dfs k T i st stack = Some (Inr st') \<Longrightarrow> black_ok T st' \<and> st' ! i = 2"
    and "closed_deps T \<Longrightarrow> black_ok T st \<Longrightarrow> set ds \<subseteq> {..<length (defs T)} \<Longrightarrow>
     cycle_dfs_list k T ds st stack = Some (Inr st') \<Longrightarrow> black_ok T st' \<and> (\<forall>d \<in> set ds. st' ! d = 2)"
proof (induction k T i st stack and k T ds st stack arbitrary: st' and st'
    rule: cycle_dfs_cycle_dfs_list.induct)
  case (2 k T i st stack)
  show ?case
  proof (cases "st ! i = 2 \<or> st ! i = 1")
    case False
    then obtain st1 where st1:
      "cycle_dfs_list k T (deps_of T i) (st[i := 1]) (stack @ [i]) = Some (Inr st1)"
      "st' = st1[i := 2]"
      using 2(5) by (auto split: option.splits sum.splits)
    have len: "length st = length (defs T)" using 2(3) by (simp add: black_ok_def)
    have deps: "set (deps_of T i) \<subseteq> {..<length (defs T)}" using 2(2,4) by (simp add: closed_deps_def)
    have "black_ok T (st[i := 1])" using black_ok_mark[OF 2(3) _ 2(2)] False by blast
    from 2(1)[OF _ _ 2(2) this deps st1(1)] False
    have fin: "black_ok T st1" "\<forall>d \<in> set (deps_of T i). st1 ! d = 2" by blast+
    have "st1 ! i = 1" using cycle_dfs_frame(2)[OF st1(1)] 2(4) len by simp
    moreover have "length st1 = length (defs T)" using fin(1) by (simp add: black_ok_def)
    ultimately show ?thesis using black_ok_finish[OF fin(1) 2(4) _ 2(2) fin(2)] st1(2) 2(4) by simp
  qed (use 2 in auto)
next
  case (4 k T d ds st stack)
  from 4(6) obtain st1 where st1: "cycle_dfs k T d st stack = Some (Inr st1)"
    "cycle_dfs_list k T ds st1 stack = Some (Inr st')"
    by (auto split: option.splits sum.splits)
  have d: "d < length (defs T)" "set ds \<subseteq> {..<length (defs T)}" using 4(5) by auto
  have first: "black_ok T st1" "st1 ! d = 2" using 4(1)[OF 4(3,4) d(1) st1(1)] by blast+
  have "black_ok T st'" "\<forall>x \<in> set ds. st' ! x = 2"
    using 4(2)[OF st1(1) refl 4(3) first(1) d(2) st1(2)] by blast+
  moreover have "st' ! d = 2"
    using cycle_dfs_frame(2)[OF st1(2)] first d(1) by (simp add: black_ok_def)
  ultimately show ?case by simp
qed simp_all

text \<open>The error names the nodes of a cycle.\<close>

definition is_dep_cycle :: "'re var_table \<Rightarrow> nat list \<Rightarrow> bool" where
  "is_dep_cycle T c \<longleftrightarrow>
     2 \<le> length c \<and> hd c = last c \<and> successively (\<lambda>a b. (a, b) \<in> dep_rel T) c"

definition grey_path :: "'re var_table \<Rightarrow> nat list \<Rightarrow> nat list \<Rightarrow> bool" where
  "grey_path T st stack \<longleftrightarrow> length st = length (defs T) \<and>
     (\<forall>x < length (defs T). st ! x = 1 \<longleftrightarrow> x \<in> set stack) \<and> set stack \<subseteq> {..<length (defs T)} \<and>
     successively (\<lambda>a b. (a, b) \<in> dep_rel T) stack"

lemma dropWhile_hit: "x \<in> set xs \<Longrightarrow> \<exists>ys zs. xs = ys @ x # zs \<and> dropWhile (\<lambda>y. y \<noteq> x) xs = x # zs"
proof (induction xs)
  case (Cons a xs)
  then show ?case
  proof (cases "a = x")
    case False
    then obtain ys zs where "xs = ys @ x # zs" "dropWhile (\<lambda>y. y \<noteq> x) xs = x # zs" using Cons by auto
    then show ?thesis using False by (intro exI[of _ "a # ys"] exI[of _ zs]) simp
  qed auto
qed simp

lemma grey_cycle:
  assumes "grey_path T st stack" "i \<in> set stack" "(last stack, i) \<in> dep_rel T"
  shows "is_dep_cycle T (dropWhile (\<lambda>x. x \<noteq> i) stack @ [i])"
proof -
  obtain ys zs where st: "stack = ys @ i # zs" "dropWhile (\<lambda>y. y \<noteq> i) stack = i # zs"
    using dropWhile_hit[OF assms(2)] by auto
  have "successively (\<lambda>a b. (a, b) \<in> dep_rel T) (i # zs)"
    using assms(1) st(1) by (simp add: grey_path_def successively_append_iff)
  moreover have "(last (i # zs), i) \<in> dep_rel T" using assms(3) st(1) by simp
  ultimately have "successively (\<lambda>a b. (a, b) \<in> dep_rel T) ((i # zs) @ [i])"
    unfolding successively_append_iff by simp
  then show ?thesis using st(2) by (simp add: is_dep_cycle_def)
qed

lemma cycle_dfs_error:
  shows "closed_deps T \<Longrightarrow> grey_path T st stack \<Longrightarrow> i < length (defs T) \<Longrightarrow>
     stack \<noteq> [] \<longrightarrow> (last stack, i) \<in> dep_rel T \<Longrightarrow> cycle_dfs k T i st stack = Some (Inl e) \<Longrightarrow>
     \<exists>c. is_dep_cycle T c \<and> e = Dependency_cycle (map (\<lambda>x. def_name (defs T ! x)) c)"
    and "closed_deps T \<Longrightarrow> grey_path T st stack \<Longrightarrow> set ds \<subseteq> {..<length (defs T)} \<Longrightarrow>
     stack \<noteq> [] \<longrightarrow> (\<forall>d \<in> set ds. (last stack, d) \<in> dep_rel T) \<Longrightarrow>
     cycle_dfs_list k T ds st stack = Some (Inl e) \<Longrightarrow>
     \<exists>c. is_dep_cycle T c \<and> e = Dependency_cycle (map (\<lambda>x. def_name (defs T ! x)) c)"
proof (induction k T i st stack and k T ds st stack rule: cycle_dfs_cycle_dfs_list.induct)
  case (2 k T i st stack)
  consider "st ! i = 2" | "st ! i = 1" | "st ! i \<noteq> 2" "st ! i \<noteq> 1" by blast
  then show ?case
  proof cases
    case 2
    then have "i \<in> set stack" using "2.prems"(2,3) by (simp add: grey_path_def)
    moreover from this have "(last stack, i) \<in> dep_rel T" using "2.prems"(4) by auto
    ultimately have "is_dep_cycle T (dropWhile (\<lambda>x. x \<noteq> i) stack @ [i])"
      using grey_cycle[OF "2.prems"(2)] by simp
    then show ?thesis using "2.prems"(5) 2 by (intro exI[of _ "dropWhile (\<lambda>x. x \<noteq> i) stack @ [i]"]) simp
  next
    case 3
    have "grey_path T (st[i := 1]) (stack @ [i])"
      using "2.prems"(2-4) 3 by (auto simp: grey_path_def nth_update successively_append_iff)
    moreover have "\<forall>d \<in> set (deps_of T i). (i, d) \<in> dep_rel T" "set (deps_of T i) \<subseteq> {..<length (defs T)}"
      using "2.prems"(1,3) by (auto simp: dep_rel_def closed_deps_def)
    moreover have "cycle_dfs_list k T (deps_of T i) (st[i := 1]) (stack @ [i]) = Some (Inl e)"
      using "2.prems"(5) 3 by (auto split: option.splits sum.splits)
    ultimately show ?thesis using "2.IH"[OF 3 "2.prems"(1)] by simp
  qed (use 2 in auto)
next
  case (4 k T d ds st stack)
  show ?case
  proof (cases "cycle_dfs k T d st stack = Some (Inl e)")
    case True
    then show ?thesis using 4(1)[OF 4(3,4)] 4(5,6) by simp
  next
    case False
    then obtain st1 where st1: "cycle_dfs k T d st stack = Some (Inr st1)"
      "cycle_dfs_list k T ds st1 stack = Some (Inl e)"
      using 4(7) by (auto split: option.splits sum.splits)
    have "grey_path T st1 stack"
      using 4(4) cycle_dfs_frame(1)[OF st1(1)] by (simp add: grey_path_def)
    then show ?thesis using 4(2)[OF st1(1) refl 4(3) _ _ _ st1(2)] 4(5,6) by simp
  qed
qed simp_all

lemma dep_cycle_cyclic:
  assumes "is_dep_cycle T c"
  shows "\<not> acyclic (dep_rel T)"
proof -
  have path: "successively (\<lambda>a b. (a, b) \<in> r) (x # xs) \<Longrightarrow> xs \<noteq> [] \<Longrightarrow> (x, last xs) \<in> r\<^sup>+"
    for r x and xs :: "nat list"
    by (induction xs arbitrary: x) (auto intro: trancl_into_trancl2)
  obtain x xs where c: "c = x # xs" "xs \<noteq> []" using assms
    by (cases c; cases "tl c") (auto simp: is_dep_cycle_def)
  then have "successively (\<lambda>a b. (a, b) \<in> dep_rel T) (x # xs)" "last xs = x"
    using assms by (auto simp: is_dep_cycle_def)
  then have "(x, x) \<in> (dep_rel T)\<^sup>+" using path[of "dep_rel T" x xs] c(2) by simp
  then show ?thesis by (auto simp: acyclic_def)
qed

lemma check_cycles_acyclic:
  assumes "closed_deps T" "check_cycles T = Some (Inr ())"
  shows "acyclic (dep_rel T)"
proof -
  let ?n = "length (defs T)"
  obtain st' where st': "cycle_dfs_list (Suc ?n) T [0..<?n] (replicate ?n 0) [] = Some (Inr st')"
    using assms(2) by (auto simp: check_cycles_def Let_def split: option.splits sum.splits)
  have "black_ok T (replicate ?n 0)" by (simp add: black_ok_def)
  from cycle_dfs_sound(2)[OF assms(1) this _ st']
  have "black_ok T st' \<and> (\<forall>i < ?n. st' ! i = 2)" by (simp add: lessThan_atLeast0)
  then have "(i, i) \<notin> (dep_rel T)\<^sup>+" if "i < ?n" for i using that by (simp add: black_ok_def)
  moreover have "i < ?n" if "(i, i) \<in> (dep_rel T)\<^sup>+" for i
    using that dep_reach_bound[OF assms(1), of i] by auto
  ultimately show ?thesis by (auto simp: acyclic_def)
qed

lemma check_cycles_total:
  assumes "closed_deps T"
  shows "\<exists>r. check_cycles T = Some r"
proof -
  let ?n = "length (defs T)"
  have "card (unvisited (replicate ?n 0)) < Suc ?n"
    using card_mono[of "{..<?n}" "unvisited (replicate ?n 0)"]
    by (simp add: unvisited_def subset_iff)
  from cycle_dfs_fuel(2)[OF assms _ _ this, of "[0..<?n]" "[]"] show ?thesis
    by (auto simp: check_cycles_def Let_def lessThan_atLeast0 split: sum.splits)
qed

lemma check_cycles_error:
  assumes "closed_deps T" "check_cycles T = Some (Inl e)"
  shows "\<exists>c. is_dep_cycle T c \<and> e = Dependency_cycle (map (\<lambda>x. def_name (defs T ! x)) c)"
proof -
  let ?n = "length (defs T)"
  have "grey_path T (replicate ?n 0) []" by (simp add: grey_path_def)
  then show ?thesis
    using cycle_dfs_error(2)[OF assms(1), of "replicate ?n 0" "[]" "[0..<?n]" "Suc ?n" e] assms(2)
    by (auto simp: check_cycles_def Let_def lessThan_atLeast0 split: option.splits sum.splits)
qed

end
