(* ===== verification/Variable_Values.thy ===== *)
theory Variable_Values
  imports Variables
begin

text \<open>
  Correctness of config-defined variables. The value of a variable is specified by a big-step
  relation without memo slots; the memoised evaluation of \<open>Variables\<close> is shown to compute it, and
  to return on every table that passes the cycle check. The needs computed at load time are
  shown to be the transitive references, and to bound what a value can depend on.
\<close>

section \<open>Specification of values\<close>

text \<open>The text of a part that is not a config-defined variable.\<close>

fun simple_value ::
  "request_context \<Rightarrow> (nat \<Rightarrow> string option) option \<Rightarrow> template_part \<Rightarrow> string option" where
  "simple_value cx caps (Literal s) = Some s"
| "simple_value cx caps (Unknown s) = Some s"
| "simple_value cx caps (Var v fb) = Some (with_fallback (known_value cx v) fb)"
| "simple_value cx caps (Header n fb) = Some (with_fallback (header_value cx n) fb)"
| "simple_value cx caps (Capture i fb) = Some (with_fallback (capture_value caps i) fb)"
| "simple_value cx caps (Custom i fb) = None"

inductive var_value :: "'re regex_ops \<Rightarrow> 're var_table \<Rightarrow> request_context \<Rightarrow> var_id \<Rightarrow> string \<Rightarrow> bool"
  and parts_value :: "'re regex_ops \<Rightarrow> 're var_table \<Rightarrow> request_context \<Rightarrow>
    (nat \<Rightarrow> string option) option \<Rightarrow> template_part list \<Rightarrow> string \<Rightarrow> bool"
  for R T cx
where
  vv_absent: "length (defs T) \<le> i \<Longrightarrow> var_value R T cx i []"
| vv_const:
    "i < length (defs T) \<Longrightarrow> def_body (defs T ! i) = Const t \<Longrightarrow>
     parts_value R T cx None (parts t) s \<Longrightarrow> var_value R T cx i s"
| vv_no_arm:
    "i < length (defs T) \<Longrightarrow> def_body (defs T ! i) = Match input arms \<Longrightarrow>
     parts_value R T cx None (parts input) inp \<Longrightarrow> pick_arm R inp arms = None \<Longrightarrow>
     var_value R T cx i []"
| vv_arm:
    "i < length (defs T) \<Longrightarrow> def_body (defs T ! i) = Match input arms \<Longrightarrow>
     parts_value R T cx None (parts input) inp \<Longrightarrow> pick_arm R inp arms = Some (t, caps) \<Longrightarrow>
     parts_value R T cx caps (parts t) s \<Longrightarrow> var_value R T cx i s"
| pv_nil: "parts_value R T cx caps [] []"
| pv_simple: "simple_value cx caps p = Some l \<Longrightarrow> parts_value R T cx caps ps s \<Longrightarrow>
    parts_value R T cx caps (p # ps) (l @ s)"
| pv_custom: "var_value R T cx i v \<Longrightarrow> parts_value R T cx caps ps s \<Longrightarrow>
    parts_value R T cx caps (Custom i fb # ps) (with_fallback v fb @ s)"

inductive_cases parts_value_nilE: "parts_value R T cx caps [] s"
inductive_cases parts_value_consE: "parts_value R T cx caps (p # ps) s"
inductive_cases var_valueE: "var_value R T cx i s"

text \<open>A variable has at most one value.\<close>

lemma value_unique:
  shows "var_value R T cx i v \<Longrightarrow> var_value R T cx i w \<Longrightarrow> v = w"
    and "parts_value R T cx caps ps s \<Longrightarrow> parts_value R T cx caps ps s' \<Longrightarrow> s = s'"
proof (induction arbitrary: w and s' rule: var_value_parts_value.inducts)
  case (vv_absent i)
  from vv_absent(2) show ?case by (rule var_valueE) (use vv_absent(1) in simp_all)
next
  case (vv_const i t s)
  from vv_const(5) show ?case
    by (rule var_valueE) (use vv_const(1,2) vv_const(4)[of w] in simp_all)
next
  case (vv_no_arm i input arms inp)
  from vv_no_arm(6) show ?case
  proof (rule var_valueE)
    fix input' arms' inp' t' caps'
    assume "def_body (defs T ! i) = Match input' arms'" "parts_value R T cx None (parts input') inp'"
      "pick_arm R inp' arms' = Some (t', caps')"
    moreover from this have "inp = inp'" using vv_no_arm(2) vv_no_arm(4)[of inp'] by simp
    ultimately show ?thesis using vv_no_arm(2,5) by simp
  qed (use vv_no_arm(1,2) in simp_all)
next
  case (vv_arm i input arms inp t caps s)
  note inp = vv_arm(4)
  from vv_arm(8) show ?case
  proof (rule var_valueE)
    fix input' arms' inp' t' caps'
    assume "def_body (defs T ! i) = Match input' arms'" "parts_value R T cx None (parts input') inp'"
      "pick_arm R inp' arms' = Some (t', caps')" "parts_value R T cx caps' (parts t') w"
    moreover from this have "inp = inp'" using vv_arm(2) inp[of inp'] by simp
    ultimately show ?thesis using vv_arm(2,5) vv_arm(7)[of w] by simp
  next
    fix input' arms' inp'
    assume "def_body (defs T ! i) = Match input' arms'" "parts_value R T cx None (parts input') inp'"
      "pick_arm R inp' arms' = None"
    moreover from this have "inp = inp'" using vv_arm(2) inp[of inp'] by simp
    ultimately show ?thesis using vv_arm(2,5) by simp
  qed (use vv_arm(1,2) in simp_all)
next
  case (pv_nil caps)
  then show ?case by (rule parts_value_nilE) simp
next
  case (pv_simple caps p l ps s)
  from pv_simple(4) obtain s2 where "s' = l @ s2" "parts_value R T cx caps ps s2"
    by (rule parts_value_consE) (use pv_simple(1) in auto)
  then show ?case using pv_simple(3)[of s2] by simp
next
  case (pv_custom i v caps ps s fb)
  from pv_custom(5) obtain v2 s2 where "s' = with_fallback v2 fb @ s2" "var_value R T cx i v2"
    "parts_value R T cx caps ps s2"
    by (rule parts_value_consE) auto
  then show ?case using pv_custom(2)[of v2] pv_custom(4)[of s2] by simp
qed

section \<open>The memo slots\<close>

text \<open>Every filled slot holds the variable's value.\<close>

definition slots_ok :: "'re regex_ops \<Rightarrow> 're var_table \<Rightarrow> request_context \<Rightarrow> slots \<Rightarrow> bool" where
  "slots_ok R T cx sl \<longleftrightarrow> length sl = length (defs T) \<and>
     (\<forall>i v. i < length sl \<longrightarrow> sl ! i = Some v \<longrightarrow> var_value R T cx i v)"

definition getter_ok :: "'re regex_ops \<Rightarrow> 're var_table \<Rightarrow> request_context \<Rightarrow> var_getter \<Rightarrow> bool" where
  "getter_ok R T cx get \<longleftrightarrow>
     (\<forall>i sl v sl'. slots_ok R T cx sl \<longrightarrow> get i sl = Some (v, sl') \<longrightarrow>
        var_value R T cx i v \<and> slots_ok R T cx sl')"

lemma new_slots_ok: "slots_ok R T cx (new_slots T)"
  by (simp add: slots_ok_def new_slots_def)

lemma render_parts_ok:
  assumes "getter_ok R T cx get" "slots_ok R T cx sl"
    "render_parts get cx caps ps sl = Some (s, sl')"
  shows "parts_value R T cx caps ps s \<and> slots_ok R T cx sl'"
  using assms(2,3)
proof (induction ps arbitrary: sl s)
  case (Cons p ps)
  from Cons.prems(2) obtain s1 sl1 s2 where
    p: "render_part get cx caps p sl = Some (s1, sl1)" and
    ps: "render_parts get cx caps ps sl1 = Some (s2, sl')" "s = s1 @ s2"
    by (auto simp: bind_eq_Some_conv)
  show ?case
  proof (cases p)
    case (Custom i fb)
    then obtain v where "get i sl = Some (v, sl1)" "s1 = with_fallback v fb" using p by auto
    then show ?thesis
      using assms(1) Cons.IH[OF _ ps(1)] Cons.prems(1) Custom ps(2)
      by (auto simp: getter_ok_def intro!: pv_custom)
  qed (use p ps Cons.IH[OF Cons.prems(1)] in \<open>simp_all add: pv_simple\<close>)
qed (simp add: pv_nil)

lemma eval_var_ok:
  assumes "getter_ok R T cx get" "slots_ok R T cx sl" "eval_var get R T cx i sl = Some (v, sl')"
  shows "var_value R T cx i v \<and> slots_ok R T cx sl'"
proof (cases "length (defs T) \<le> i")
  case True
  then show ?thesis using assms by (auto simp: eval_var_def intro: vv_absent)
next
  case False
  note ok = render_parts_ok[OF assms(1)]
  show ?thesis
  proof (cases "def_body (defs T ! i)")
    case (Const t)
    then show ?thesis using assms(2,3) False ok by (auto simp: eval_var_def intro: vv_const)
  next
    case (Match input arms)
    then obtain inp sl1 where inp: "render_parts get cx None (parts input) sl = Some (inp, sl1)"
      using assms(3) False by (auto simp: eval_var_def bind_eq_Some_conv)
    note v1 = ok[OF assms(2) inp]
    show ?thesis
    proof (cases "pick_arm R inp arms")
      case None
      then show ?thesis using assms(3) False Match inp v1 by (auto simp: eval_var_def intro: vv_no_arm)
    next
      case (Some tc)
      then obtain t caps where tc: "tc = (t, caps)" by (cases tc)
      then have "render_parts get cx caps (parts t) sl1 = Some (v, sl')"
        using assms(3) False Match inp Some by (simp add: eval_var_def)
      from ok[OF _ this] v1 have "parts_value R T cx caps (parts t) v" "slots_ok R T cx sl'" by auto
      then show ?thesis using v1 False Match Some tc vv_arm[of i T input arms R cx inp t caps v] by simp
    qed
  qed
qed

lemma get_var_ok: "getter_ok R T cx (get_var k R (Some T) cx)"
proof (induction k)
  case (Suc k)
  show ?case
    unfolding getter_ok_def
  proof (intro allI impI)
    fix i sl v sl'
    assume sl: "slots_ok R T cx sl" and get: "get_var (Suc k) R (Some T) cx i sl = Some (v, sl')"
    consider "length sl \<le> i" | w where "i < length sl" "sl ! i = Some w"
      | w sl1 where "i < length sl" "sl ! i = None"
        "eval_var (get_var k R (Some T) cx) R T cx i sl = Some (w, sl1)"
      using get by (force simp: bind_eq_Some_conv)
    then show "var_value R T cx i v \<and> slots_ok R T cx sl'"
    proof cases
      case 1
      then show ?thesis using sl get by (auto simp: slots_ok_def intro: vv_absent)
    next
      case 2
      then show ?thesis using sl get by (auto simp: slots_ok_def)
    next
      case 3
      note ev = eval_var_ok[OF Suc sl 3(3)]
      then have "i < length sl1" using 3(1) sl by (simp add: slots_ok_def)
      then show ?thesis
        using get 3 ev by (auto simp: slots_ok_def nth_update split: option.splits if_splits)
    qed
  qed
qed (simp add: getter_ok_def)

section \<open>Evaluation returns\<close>

definition getter_total :: "'re var_table \<Rightarrow> nat set \<Rightarrow> var_getter \<Rightarrow> bool" where
  "getter_total T S get \<longleftrightarrow>
     (\<forall>i \<in> S. \<forall>sl. length sl = length (defs T) \<longrightarrow>
        (\<exists>v sl'. get i sl = Some (v, sl') \<and> length sl' = length (defs T)))"

lemma render_parts_total:
  assumes "getter_total T {i. \<exists>fb. Custom i fb \<in> set ps} get" "length sl = length (defs T)"
  shows "\<exists>s sl'. render_parts get cx caps ps sl = Some (s, sl') \<and> length sl' = length (defs T)"
  using assms
proof (induction ps arbitrary: sl)
  case (Cons p ps)
  have "\<exists>s sl'. render_part get cx caps p sl = Some (s, sl') \<and> length sl' = length (defs T)"
    using Cons.prems by (cases p) (force simp: getter_total_def)+
  then obtain s sl1 where "render_part get cx caps p sl = Some (s, sl1)" "length sl1 = length (defs T)"
    by auto
  moreover have "getter_total T {i. \<exists>fb. Custom i fb \<in> set ps} get"
    using Cons.prems(1) by (auto simp: getter_total_def)
  ultimately show ?case using Cons.IH[of sl1] by auto
qed simp

lemma pick_arm_template: "pick_arm R inp arms = Some (t, caps) \<Longrightarrow> t \<in> arm_template ` set arms"
  by (induction arms) (auto split: option.splits)

lemma eval_var_total:
  assumes "getter_total T (set (deps_of T i)) get" "length sl = length (defs T)"
  shows "\<exists>v sl'. eval_var get R T cx i sl = Some (v, sl') \<and> length sl' = length (defs T)"
proof -
  have total: "\<exists>s sl'. render_parts get cx caps (parts t) sl = Some (s, sl') \<and> length sl' = length (defs T)"
    if "t \<in> set (body_templates (def_body (defs T ! i)))" "length sl = length (defs T)" for t caps sl
  proof (rule render_parts_total[OF _ that(2)])
    have "{i. \<exists>fb. Custom i fb \<in> set (parts t)} \<subseteq> set (deps_of T i)"
      using that(1) by (auto simp: set_deps_of)
    then show "getter_total T {i. \<exists>fb. Custom i fb \<in> set (parts t)} get"
      using assms(1) by (auto simp: getter_total_def)
  qed
  show ?thesis
  proof (cases "def_body (defs T ! i)")
    case (Const t)
    then show ?thesis using total[of t sl None] assms(2) by (auto simp: eval_var_def)
  next
    case (Match input arms)
    obtain inp sl1 where inp: "render_parts get cx None (parts input) sl = Some (inp, sl1)"
      "length sl1 = length (defs T)"
      using total[of input sl None] assms(2) Match by auto
    show ?thesis
    proof (cases "pick_arm R inp arms")
      case None
      then show ?thesis using inp Match assms(2) by (auto simp: eval_var_def)
    next
      case (Some tc)
      then obtain t caps where tc: "tc = (t, caps)" by (cases tc)
      then have "t \<in> set (body_templates (def_body (defs T ! i)))"
        using pick_arm_template Some Match by fastforce
      from total[OF this inp(2), of caps] show ?thesis
        using inp Match Some tc assms(2) by (auto simp: eval_var_def)
    qed
  qed
qed

lemma get_var_total:
  assumes "closed_deps T" "acyclic (dep_rel T)" "dep_rank T i < k" "length sl = length (defs T)"
  shows "\<exists>v sl'. get_var k R (Some T) cx i sl = Some (v, sl') \<and> length sl' = length (defs T)"
  using assms(3,4)
proof (induction k arbitrary: i sl)
  case (Suc k)
  show ?case
  proof (cases "i < length (defs T) \<and> sl ! i = None")
    case True
    have "getter_total T (set (deps_of T i)) (get_var k R (Some T) cx)"
      unfolding getter_total_def
    proof (intro ballI allI impI)
      fix d sl assume "d \<in> set (deps_of T i)" "length (sl :: slots) = length (defs T)"
      moreover from this have "dep_rank T d < k"
        using dep_rank_less[OF assms(1,2), of i d] True Suc.prems(1) by (simp add: dep_rel_def)
      ultimately show "\<exists>v sl'. get_var k R (Some T) cx d sl = Some (v, sl') \<and> length sl' = length (defs T)"
        using Suc.IH by blast
    qed
    from eval_var_total[OF this Suc.prems(2), of R cx] show ?thesis
      using True Suc.prems(2) by (auto split: option.splits)
  qed (use Suc.prems in \<open>auto split: option.splits\<close>)
qed simp

section \<open>Transitive needs\<close>

definition reach_principal :: "'re var_table \<Rightarrow> nat \<Rightarrow> bool" where
  "reach_principal T i \<longleftrightarrow>
     (\<exists>j. (i, j) \<in> (dep_rel T)\<^sup>* \<and> needs_principal (direct_needs (def_body (defs T ! j))))"

definition reach_geoip :: "'re var_table \<Rightarrow> nat \<Rightarrow> bool" where
  "reach_geoip T i \<longleftrightarrow>
     (\<exists>j. (i, j) \<in> (dep_rel T)\<^sup>* \<and> needs_geoip (direct_needs (def_body (defs T ! j))))"

definition reach_headers :: "'re var_table \<Rightarrow> nat \<Rightarrow> string set" where
  "reach_headers T i =
     (\<Union>j \<in> (dep_rel T)\<^sup>* `` {i}. set (needs_headers (direct_needs (def_body (defs T ! j)))))"

definition total_needs :: "'re var_table \<Rightarrow> nat \<Rightarrow> var_needs \<Rightarrow> bool" where
  "total_needs T i nd \<longleftrightarrow> needs_principal nd = reach_principal T i \<and>
     needs_geoip nd = reach_geoip T i \<and> set (needs_headers nd) = reach_headers T i"

definition joined_needs :: "'re var_table \<Rightarrow> var_needs \<Rightarrow> nat list \<Rightarrow> var_needs \<Rightarrow> bool" where
  "joined_needs T nd0 ds nd \<longleftrightarrow>
     needs_principal nd = (needs_principal nd0 \<or> (\<exists>d \<in> set ds. reach_principal T d)) \<and>
     needs_geoip nd = (needs_geoip nd0 \<or> (\<exists>d \<in> set ds. reach_geoip T d)) \<and>
     set (needs_headers nd) = set (needs_headers nd0) \<union> (\<Union>d \<in> set ds. reach_headers T d)"

lemma dep_reach_step:
  assumes "i < length (defs T)"
  shows "(dep_rel T)\<^sup>* `` {i} = insert i (\<Union>d \<in> set (deps_of T i). (dep_rel T)\<^sup>* `` {d})"
  using assms
  by (auto simp: dep_rel_def elim: converse_rtranclE intro: converse_rtrancl_into_rtrancl)

lemma total_needs_step:
  assumes "i < length (defs T)"
  shows "joined_needs T (direct_needs (def_body (defs T ! i))) (deps_of T i) nd \<longleftrightarrow> total_needs T i nd"
proof -
  have "reach_principal T i \<longleftrightarrow> needs_principal (direct_needs (def_body (defs T ! i)))
      \<or> (\<exists>d \<in> set (deps_of T i). reach_principal T d)"
    and "reach_geoip T i \<longleftrightarrow> needs_geoip (direct_needs (def_body (defs T ! i)))
      \<or> (\<exists>d \<in> set (deps_of T i). reach_geoip T d)"
    and "reach_headers T i = set (needs_headers (direct_needs (def_body (defs T ! i))))
      \<union> (\<Union>d \<in> set (deps_of T i). reach_headers T d)"
    using dep_reach_step[OF assms]
    by (auto simp: reach_principal_def reach_geoip_def reach_headers_def Image_def set_eq_iff)
  then show ?thesis by (simp add: joined_needs_def total_needs_def)
qed

abbreviation direct_list :: "'re var_table \<Rightarrow> var_needs list" where
  "direct_list T \<equiv> map (\<lambda>d. direct_needs (def_body d)) (defs T)"

abbreviation deps_list :: "'re var_table \<Rightarrow> nat list list" where
  "deps_list T \<equiv> map (deps_of T) [0..<length (defs T)]"

definition resolved_ok :: "'re var_table \<Rightarrow> var_needs option list \<Rightarrow> bool" where
  "resolved_ok T res \<longleftrightarrow> length res = length (defs T) \<and>
     (\<forall>i nd. i < length (defs T) \<longrightarrow> res ! i = Some nd \<longrightarrow> total_needs T i nd)"

lemma joined_needs_merge:
  assumes "total_needs T d sub" "joined_needs T (merge_needs nd0 sub) ds nd"
  shows "joined_needs T nd0 (d # ds) nd"
  using assms by (auto simp: joined_needs_def total_needs_def merge_needs_def)

lemma resolve_needs_ok:
  shows "direct = direct_list T \<Longrightarrow> deps = deps_list T \<Longrightarrow> closed_deps T \<Longrightarrow> resolved_ok T res \<Longrightarrow>
     i < length (defs T) \<Longrightarrow> resolve_needs k i direct deps res = Some (nd, res') \<Longrightarrow>
     total_needs T i nd \<and> resolved_ok T res' \<and> res' ! i = Some nd
     \<and> (\<forall>x < length (defs T). res ! x \<noteq> None \<longrightarrow> res' ! x \<noteq> None)"
    and "direct = direct_list T \<Longrightarrow> deps = deps_list T \<Longrightarrow> closed_deps T \<Longrightarrow> resolved_ok T res \<Longrightarrow>
     set ds \<subseteq> {..<length (defs T)} \<Longrightarrow> resolve_list k ds nd0 direct deps res = Some (nd, res') \<Longrightarrow>
     joined_needs T nd0 ds nd \<and> resolved_ok T res'
     \<and> (\<forall>x < length (defs T). res ! x \<noteq> None \<longrightarrow> res' ! x \<noteq> None)"
proof (induction k i direct deps res and k ds nd0 direct deps res arbitrary: nd res' and nd res'
    rule: resolve_needs_resolve_list.induct)
  case (2 k i direct deps res)
  show ?case
  proof (cases "res ! i")
    case (Some w)
    then show ?thesis using 2(5-7) by (auto simp: resolved_ok_def)
  next
    case None
    obtain res1 where r: "resolve_list k (deps ! i) (direct ! i) direct deps res = Some (nd, res1)"
      "res' = res1[i := Some nd]"
      using 2(7) None by (auto split: option.splits)
    have "set (deps ! i) \<subseteq> {..<length (defs T)}" using 2(3,4,6) by (simp add: closed_deps_def)
    note ih = 2(1)[OF None 2(2-5) this r(1)]
    then have "total_needs T i nd" using 2(2,3,6) total_needs_step[of i T nd] by simp
    then show ?thesis using ih r(2) 2(6) by (auto simp: resolved_ok_def nth_update)
  qed
next
  case (4 k d ds nd0 direct deps res)
  obtain sub res1 where r: "resolve_needs k d direct deps res = Some (sub, res1)"
    "resolve_list k ds (merge_needs nd0 sub) direct deps res1 = Some (nd, res')"
    using 4(8) by (auto split: option.splits)
  have d: "d < length (defs T)" "set ds \<subseteq> {..<length (defs T)}" using 4(7) by auto
  note first = 4(1)[OF 4(3-6) d(1) r(1)]
  then have "resolved_ok T res1" by blast
  note rest = 4(2)[OF r(1) refl 4(3-5) this d(2) r(2)]
  show ?case using first rest joined_needs_merge[of T d sub nd0 ds nd] by blast
qed (simp_all add: joined_needs_def)

lemma resolve_needs_total:
  assumes "closed_deps T" "acyclic (dep_rel T)"
  shows "i < length (defs T) \<Longrightarrow> dep_rank T i < k \<Longrightarrow>
     \<exists>nd res'. resolve_needs k i (direct_list T) (deps_list T) res = Some (nd, res')"
proof (induction k arbitrary: i res)
  case (Suc k)
  have list: "\<exists>nd' res'. resolve_list k ds nd (direct_list T) (deps_list T) res = Some (nd', res')"
    if "set ds \<subseteq> set (deps_of T i)" for ds nd res
    using that
  proof (induction ds arbitrary: nd res)
    case (Cons d ds)
    then have "(i, d) \<in> dep_rel T" using Suc.prems(1) by (simp add: dep_rel_def)
    then have "dep_rank T d < k" "d < length (defs T)"
      using dep_rank_less[OF assms] Suc.prems(2) dep_relD assms(1) by fastforce+
    then obtain sub res1 where
      "resolve_needs k d (direct_list T) (deps_list T) res = Some (sub, res1)"
      using Suc.IH by blast
    then show ?case using Cons by simp
  qed simp
  have "deps_list T ! i = deps_of T i" using Suc.prems(1) by simp
  then show ?case
    using list[of "deps_of T i" "direct_list T ! i" res] by (auto split: option.splits)
qed simp

lemma resolve_all_ok:
  assumes "closed_deps T" "acyclic (dep_rel T)" "length (defs T) < k"
  shows "resolved_ok T res \<Longrightarrow> set is \<subseteq> {..<length (defs T)} \<Longrightarrow>
    \<exists>res'. resolve_all k is (direct_list T) (deps_list T) res = Some res' \<and> resolved_ok T res'
      \<and> (\<forall>x < length (defs T). x \<in> set is \<or> res ! x \<noteq> None \<longrightarrow> res' ! x \<noteq> None)"
proof (induction "is" arbitrary: res)
  case (Cons i "is")
  then have i: "i < length (defs T)" by simp
  then have "dep_rank T i < k" using dep_rank_le[OF assms(1), of i] assms(3) by simp
  then obtain nd res1 where r: "resolve_needs k i (direct_list T) (deps_list T) res = Some (nd, res1)"
    using resolve_needs_total[OF assms(1,2) i] by blast
  note ok = resolve_needs_ok(1)[OF refl refl assms(1) Cons.prems(1) i r]
  then obtain res' where "resolve_all k is (direct_list T) (deps_list T) res1 = Some res'"
    "resolved_ok T res'"
    "\<forall>x < length (defs T). x \<in> set is \<or> res1 ! x \<noteq> None \<longrightarrow> res' ! x \<noteq> None"
    using Cons.IH[of res1] Cons.prems(2) by auto
  then show ?case using r ok by auto
qed simp

lemma compute_needs_ok:
  assumes "closed_deps T" "acyclic (dep_rel T)"
  shows "\<exists>T'. compute_needs T = Some T' \<and> length (defs T') = length (defs T)
    \<and> table_names T' = table_names T
    \<and> (\<forall>i < length (defs T). def_body (defs T' ! i) = def_body (defs T ! i)
         \<and> def_name (defs T' ! i) = def_name (defs T ! i) \<and> total_needs T i (needs_of T' i))"
proof -
  let ?n = "length (defs T)"
  have "resolved_ok T (replicate ?n None)" by (simp add: resolved_ok_def)
  from resolve_all_ok[OF assms lessI this, of "[0..<?n]"] obtain res where
    res: "resolve_all (Suc ?n) [0..<?n] (direct_list T) (deps_list T) (replicate ?n None) = Some res"
    "resolved_ok T res" "\<forall>x < ?n. res ! x \<noteq> None"
    by (auto simp: lessThan_atLeast0)
  then have "\<forall>i < ?n. \<exists>nd. res ! i = Some nd \<and> total_needs T i nd" "length res = ?n"
    by (auto simp: resolved_ok_def)
  then show ?thesis
    using res(1) by (fastforce simp: compute_needs_def Let_def needs_of_def)
qed

section \<open>The constructed table\<close>

text \<open>The index names exactly the chosen definitions, each under its own name.\<close>

definition names_ok :: "var_names \<times> variable_def list \<Rightarrow> bool" where
  "names_ok acc \<longleftrightarrow> (case acc of (names, chosen) \<Rightarrow>
     length (vn_names names) = length chosen \<and>
     (\<forall>n i. vn_index names n = Some i \<longleftrightarrow> i < length chosen \<and> vd_name (chosen ! i) = n))"

definition chosen_of :: "var_names \<times> variable_def list \<Rightarrow> string \<Rightarrow> variable_def option" where
  "chosen_of acc n = map_option (\<lambda>i. snd acc ! i) (vn_get (fst acc) n)"

lemma names_ok_replace:
  assumes "names_ok (names, chosen)" "vn_get names (vd_name spec) = Some i"
  shows "names_ok (names, chosen[i := spec])"
    and "chosen_of (names, chosen[i := spec]) n =
      (if n = vd_name spec then Some spec else chosen_of (names, chosen) n)"
proof -
  have i: "i < length chosen" "vd_name (chosen ! i) = vd_name spec"
    using assms by (auto simp: names_ok_def vn_get_def)
  then have same: "vd_name (chosen[i := spec] ! j) = vd_name (chosen ! j)" if "j < length chosen" for j
    using that by (simp add: nth_update)
  show "names_ok (names, chosen[i := spec])"
    using assms(1) same by (auto simp: names_ok_def)
  have "j \<noteq> i" if "vn_index names n = Some j" "n \<noteq> vd_name spec" for j
    using that assms(1) i by (auto simp: names_ok_def)
  then show "chosen_of (names, chosen[i := spec]) n =
      (if n = vd_name spec then Some spec else chosen_of (names, chosen) n)"
    using assms(2) i(1) by (cases "vn_index names n") (auto simp: chosen_of_def vn_get_def)
qed

lemma names_ok_insert:
  assumes "names_ok (names, chosen)" "vn_get names (vd_name spec) = None"
  shows "names_ok (vn_insert names (vd_name spec), chosen @ [spec])"
    and "chosen_of (vn_insert names (vd_name spec), chosen @ [spec]) n =
      (if n = vd_name spec then Some spec else chosen_of (names, chosen) n)"
proof -
  have "vd_name (chosen ! j) \<noteq> vd_name spec" if "j < length chosen" for j
  proof -
    have "vn_index names (vd_name (chosen ! j)) = Some j" using assms(1) that by (simp add: names_ok_def)
    then show ?thesis using assms(2) by (auto simp: vn_get_def)
  qed
  then show "names_ok (vn_insert names (vd_name spec), chosen @ [spec])"
    using assms(1) by (auto simp: names_ok_def vn_insert_def nth_append less_Suc_eq split: if_splits)
  have len: "length (vn_names names) = length chosen" using assms(1) by (simp add: names_ok_def)
  have "j < length chosen" if "vn_index names n = Some j" for j
    using that assms(1) by (auto simp: names_ok_def)
  then show "chosen_of (vn_insert names (vd_name spec), chosen @ [spec]) n =
      (if n = vd_name spec then Some spec else chosen_of (names, chosen) n)"
    using len by (cases "vn_index names n")
      (auto simp: chosen_of_def vn_get_def vn_insert_def nth_append)
qed

text \<open>The last definition of a name wins.\<close>

definition innermost :: "variable_def list \<Rightarrow> string \<Rightarrow> variable_def option" where
  "innermost specs n = find (\<lambda>s. vd_name s = n) (rev specs)"

lemma find_append: "find P (xs @ ys) = (case find P xs of None \<Rightarrow> find P ys | Some x \<Rightarrow> Some x)"
  by (induction xs) auto

lemma add_layer_ok:
  "add_layer seen specs acc = Inr acc' \<Longrightarrow> names_ok acc \<Longrightarrow>
     names_ok acc' \<and>
     chosen_of acc' n = (case innermost specs n of Some s \<Rightarrow> Some s | None \<Rightarrow> chosen_of acc n)"
proof (induction seen specs acc rule: add_layer.induct)
  case (2 seen spec specs names chosen)
  let ?next = "case vn_get names (vd_name spec) of
           Some i \<Rightarrow> (names, chosen[i := spec])
         | None \<Rightarrow> (vn_insert names (vd_name spec), chosen @ [spec])"
  have step: "names_ok ?next" "chosen_of ?next n =
      (if n = vd_name spec then Some spec else chosen_of (names, chosen) n)"
    using names_ok_replace[OF 2(3)] names_ok_insert[OF 2(3)]
    by (cases "vn_get names (vd_name spec)"; simp)+
  have "names_ok acc' \<and>
     chosen_of acc' n = (case innermost specs n of Some s \<Rightarrow> Some s | None \<Rightarrow> chosen_of ?next n)"
    using 2 step(1) by (auto split: if_splits)
  then show ?case
    using step(2) by (auto simp: innermost_def find_append split: option.splits)
qed (simp add: innermost_def)

lemma add_layers_ok:
  "add_layers layers acc = Inr acc' \<Longrightarrow> names_ok acc \<Longrightarrow>
     names_ok acc' \<and>
     chosen_of acc' n = (case innermost (concat layers) n of Some s \<Rightarrow> Some s | None \<Rightarrow> chosen_of acc n)"
proof (induction layers arbitrary: acc)
  case (Cons layer layers)
  then obtain acc1 where "add_layer [] layer acc = Inr acc1" "add_layers layers acc1 = Inr acc'"
    by (auto simp: res_simps)
  then show ?case
    using add_layer_ok[of "[]" layer acc acc1 n] Cons.IH[of acc1] Cons.prems(2)
    by (auto simp: innermost_def find_append split: option.splits)
qed (simp add: innermost_def)

lemma names_ok_default: "names_ok (vn_default, [])"
  by (simp add: names_ok_def vn_default_def)

text \<open>A compiled definition refers to known variables only.\<close>

lemma build_parts_custom:
  "build_parts H vars caps toks = Inr ps \<Longrightarrow> Custom i fb \<in> set ps \<Longrightarrow>
     \<exists>vn n. vars = Some vn \<and> vn_get vn n = Some i"
  by (induction H vars caps toks arbitrary: ps rule: build_parts.induct)
    (auto simp: Let_def res_simps split: option.splits)

lemma build_template_custom:
  "build_template H t (Some vn) caps = Inr t' \<Longrightarrow> Custom i fb \<in> set (parts t') \<Longrightarrow>
     \<exists>n. vn_get vn n = Some i"
  using build_parts_custom by (fastforce simp: build_template_def res_simps)

lemma map_err_Inr [res_simps]: "map_err f r = Inr x \<longleftrightarrow> r = Inr x"
  by (cases r) (auto simp: map_err_def)

lemma compile_arm_custom:
  "compile_arm H R name vn a = Inr c \<Longrightarrow> Custom i fb \<in> set (parts (arm_template c)) \<Longrightarrow>
     \<exists>n. vn_get vn n = Some i"
  by (auto simp: compile_arm_def res_simps compile_with_captures_def dest: build_template_custom
      split: option.splits prod.splits)

lemma compile_arms_custom:
  "compile_arms H R name vn as = Inr cs \<Longrightarrow> c \<in> set cs \<Longrightarrow>
   Custom i fb \<in> set (parts (arm_template c)) \<Longrightarrow> \<exists>n. vn_get vn n = Some i"
  by (induction as arbitrary: cs)
    (auto simp: res_simps dest: compile_arm_custom split: if_splits)

lemma compile_body_custom:
  assumes "compile_body H R vn spec = Inr b" "t \<in> set (body_templates b)" "Custom i fb \<in> set (parts t)"
  shows "\<exists>n. vn_get vn n = Some i"
  using assms
  by (auto simp: compile_body_def compile_template_def res_simps
      dest: build_template_custom compile_arms_custom split: variable_body.splits)

lemma compile_def_Inr:
  "compile_def H R names spec = Inr d \<Longrightarrow>
     compile_body H R names spec = Inr (def_body d) \<and> def_name d = vd_name spec"
  by (auto simp: compile_def_def res_simps)

lemma compiled_closed:
  assumes "names_ok (names, chosen)" "collect_result (compile_def H R names) chosen = Inr ds"
  shows "closed_deps \<lparr>defs = ds, table_names = names\<rparr>"
proof -
  have comp: "length ds = length chosen"
    "\<And>i. i < length ds \<Longrightarrow> compile_body H R names (chosen ! i) = Inr (def_body (ds ! i))"
    using assms(2)
    by (auto simp: collect_result_Inr list_all2_conv_all_nth dest: compile_def_Inr)
  have "j < length ds" if "i < length ds" "j \<in> set (deps_of \<lparr>defs = ds, table_names = names\<rparr> i)" for i j
    using that compile_body_custom[OF comp(2)[OF that(1)]] assms(1) comp(1)
    by (auto simp: set_deps_of names_ok_def vn_get_def)
  then show ?thesis by (auto simp: closed_deps_def)
qed

text \<open>What a successful build gives: an acyclic table whose needs are the transitive ones.\<close>

lemma dep_rel_cong:
  assumes "length (defs T') = length (defs T)"
    "\<forall>i < length (defs T). def_body (defs T' ! i) = def_body (defs T ! i)"
  shows "i < length (defs T) \<Longrightarrow> deps_of T' i = deps_of T i" "dep_rel T' = dep_rel T"
  using assms by (auto simp: dep_rel_def deps_of_def)

definition table_ok :: "'re var_table \<Rightarrow> bool" where
  "table_ok T \<longleftrightarrow> closed_deps T \<and> acyclic (dep_rel T) \<and>
     (\<forall>i < length (defs T). total_needs T i (needs_of T i))"

lemma total_needs_cong:
  assumes "length (defs T') = length (defs T)" "closed_deps T"
    "\<forall>i < length (defs T). def_body (defs T' ! i) = def_body (defs T ! i)" "i < length (defs T)"
  shows "total_needs T' i nd = total_needs T i nd"
proof -
  have body: "def_body (defs T' ! j) = def_body (defs T ! j)" if "(i, j) \<in> (dep_rel T)\<^sup>*" for j
    by (rule rtranclE[OF that]) (use assms in \<open>auto dest: dep_relD\<close>)
  note rel = dep_rel_cong(2)[OF assms(1,3)]
  have "reach_principal T' i = reach_principal T i" "reach_geoip T' i = reach_geoip T i"
    using body by (simp_all add: reach_principal_def reach_geoip_def rel cong: conj_cong)
  moreover have "reach_headers T' i = reach_headers T i"
    unfolding reach_headers_def rel by (rule SUP_cong) (auto simp: body)
  ultimately show ?thesis by (simp add: total_needs_def)
qed

lemma build_layered_ok:
  assumes "build_layered H R layers = Some (Inr T)"
  shows "table_ok T"
    and "vn_get (table_names T) n = Some i \<Longrightarrow> i < length (defs T)
      \<and> (\<exists>spec. innermost (concat layers) n = Some spec \<and> def_name (defs T ! i) = n
           \<and> compile_body H R (table_names T) spec = Inr (def_body (defs T ! i)))"
proof -
  obtain names chosen ds where
    acc: "add_layers layers (vn_default, []) = Inr (names, chosen)" and
    ds: "collect_result (compile_def H R names) chosen = Inr ds" and
    chk: "check_cycles \<lparr>defs = ds, table_names = names\<rparr> = Some (Inr ())" and
    cn: "compute_needs \<lparr>defs = ds, table_names = names\<rparr> = Some T"
    using assms by (auto simp: build_layered_def Let_def split: sum.splits option.splits)
  let ?T0 = "\<lparr>defs = ds, table_names = names\<rparr>"
  note names = add_layers_ok[OF acc names_ok_default]
  have cl: "closed_deps ?T0" using compiled_closed[OF _ ds] names by blast
  have ac: "acyclic (dep_rel ?T0)" using check_cycles_acyclic[OF cl chk] .
  have T: "length (defs T) = length (defs ?T0)" "table_names T = names"
    "\<forall>i < length (defs ?T0). def_body (defs T ! i) = def_body (defs ?T0 ! i)
       \<and> def_name (defs T ! i) = def_name (defs ?T0 ! i) \<and> total_needs ?T0 i (needs_of T i)"
    using compute_needs_ok[OF cl ac] cn by auto
  note rel = dep_rel_cong[of T ?T0]
  show "table_ok T"
    using T cl ac rel total_needs_cong[OF T(1) cl] by (simp add: table_ok_def closed_deps_def)
  assume n: "vn_get (table_names T) n = Some i"
  then have i: "i < length chosen" "vd_name (chosen ! i) = n"
    using names T(2) by (auto simp: names_ok_def vn_get_def)
  then have "compile_def H R names (chosen ! i) = Inr (ds ! i)" "length ds = length chosen"
    using ds by (auto simp: collect_result_Inr list_all2_conv_all_nth)
  moreover have "innermost (concat layers) n = Some (chosen ! i)"
    using names[of n] n T(2) by (auto simp: chosen_of_def vn_get_def vn_default_def split: option.splits)
  ultimately show "i < length (defs T)
      \<and> (\<exists>spec. innermost (concat layers) n = Some spec \<and> def_name (defs T ! i) = n
           \<and> compile_body H R (table_names T) spec = Inr (def_body (defs T ! i)))"
    using T i by (auto dest: compile_def_Inr)
qed

lemma build_layered_total: "\<exists>r. build_layered H R layers = Some r"
proof (cases "add_layers layers (vn_default, [])")
  case (Inr acc)
  obtain names chosen where acc: "acc = (names, chosen)" by (cases acc)
  show ?thesis
  proof (cases "collect_result (compile_def H R names) chosen")
    case (Inr ds)
    have "names_ok (names, chosen)"
      using add_layers_ok[OF \<open>add_layers layers (vn_default, []) = Inr acc\<close> names_ok_default] acc by blast
    then have cl: "closed_deps \<lparr>defs = ds, table_names = names\<rparr>" using Inr by (rule compiled_closed)
    obtain r where r: "check_cycles \<lparr>defs = ds, table_names = names\<rparr> = Some r"
      using check_cycles_total[OF cl] by blast
    show ?thesis
    proof (cases r)
      case (Inr u)
      then show ?thesis
        using compute_needs_ok[OF cl check_cycles_acyclic[OF cl]] r acc
          \<open>add_layers layers (vn_default, []) = Inr acc\<close>
          \<open>collect_result (compile_def H R names) chosen = Inr ds\<close>
        by (auto simp: build_layered_def)
    qed (use r acc \<open>add_layers layers (vn_default, []) = Inr acc\<close> Inr in \<open>auto simp: build_layered_def\<close>)
  qed (use acc \<open>add_layers layers (vn_default, []) = Inr acc\<close> in \<open>auto simp: build_layered_def\<close>)
qed (simp add: build_layered_def)

section \<open>What a value can depend on\<close>

text \<open>Two contexts that agree on everything a set of needs mentions.\<close>

definition contexts_agree :: "var_needs \<Rightarrow> request_context \<Rightarrow> request_context \<Rightarrow> bool" where
  "contexts_agree nd a b \<longleftrightarrow>
     (\<forall>v. v \<notin> {Username, Groups, CountryVar} \<longrightarrow> known_value a v = known_value b v) \<and>
     (needs_principal nd \<longrightarrow> cx_username a = cx_username b \<and> cx_groups a = cx_groups b) \<and>
     (needs_geoip nd \<longrightarrow> cx_country a = cx_country b) \<and>
     (\<forall>n \<in> set (needs_headers nd). header_value a n = header_value b n)"

definition part_agrees :: "'re var_table \<Rightarrow> request_context \<Rightarrow> request_context \<Rightarrow> template_part \<Rightarrow> bool" where
  "part_agrees T a b p \<longleftrightarrow>
     (case p of
        Custom j _ \<Rightarrow> j < length (defs T) \<longrightarrow> contexts_agree (needs_of T j) a b
      | _ \<Rightarrow> \<forall>caps. simple_value a caps p = simple_value b caps p)"

lemma direct_needs_fold:
  "needs_principal (foldl (\<lambda>nd t. let r = refs t in
       nd\<lparr>needs_principal := needs_principal nd \<or> tr_principal r,
          needs_geoip := needs_geoip nd \<or> tr_geoip r,
          needs_headers := foldl push_new (needs_headers nd) (tr_headers r)\<rparr>) nd ts) \<longleftrightarrow>
     needs_principal nd \<or> (\<exists>t \<in> set ts. tr_principal (refs t))"
  "needs_geoip (foldl (\<lambda>nd t. let r = refs t in
       nd\<lparr>needs_principal := needs_principal nd \<or> tr_principal r,
          needs_geoip := needs_geoip nd \<or> tr_geoip r,
          needs_headers := foldl push_new (needs_headers nd) (tr_headers r)\<rparr>) nd ts) \<longleftrightarrow>
     needs_geoip nd \<or> (\<exists>t \<in> set ts. tr_geoip (refs t))"
  "set (needs_headers (foldl (\<lambda>nd t. let r = refs t in
       nd\<lparr>needs_principal := needs_principal nd \<or> tr_principal r,
          needs_geoip := needs_geoip nd \<or> tr_geoip r,
          needs_headers := foldl push_new (needs_headers nd) (tr_headers r)\<rparr>) nd ts)) =
     set (needs_headers nd) \<union> (\<Union>t \<in> set ts. set (tr_headers (refs t)))"
  by (induction ts arbitrary: nd) (auto simp: Let_def)

lemma direct_needs_sets:
  "needs_principal (direct_needs b) \<longleftrightarrow> (\<exists>t \<in> set (body_templates b). tr_principal (refs t))"
  "needs_geoip (direct_needs b) \<longleftrightarrow> (\<exists>t \<in> set (body_templates b). tr_geoip (refs t))"
  "set (needs_headers (direct_needs b)) = (\<Union>t \<in> set (body_templates b). set (tr_headers (refs t)))"
  by (simp_all add: direct_needs_def direct_needs_fold needs_default_def)

lemma agree_part:
  assumes "table_ok T" "i < length (defs T)" "contexts_agree (needs_of T i) a b"
    "t \<in> set (body_templates (def_body (defs T ! i)))" "p \<in> set (parts t)"
  shows "part_agrees T a b p"
proof -
  have joined: "joined_needs T (direct_needs (def_body (defs T ! i))) (deps_of T i) (needs_of T i)"
    using assms(1,2) by (simp add: table_ok_def total_needs_step)
  show ?thesis
  proof (cases p)
    case (Var v fb)
    then have "v = Username \<or> v = Groups \<Longrightarrow> needs_principal (needs_of T i)"
      "v = CountryVar \<Longrightarrow> needs_geoip (needs_of T i)"
      using joined assms(4,5) by (fastforce simp: joined_needs_def direct_needs_sets refs_sets)+
    then have "known_value a v = known_value b v"
      using assms(3) unfolding contexts_agree_def by (cases v) auto
    then show ?thesis using Var by (simp add: part_agrees_def)
  next
    case (Header n fb)
    then have "n \<in> set (needs_headers (needs_of T i))"
      using joined assms(4,5) by (fastforce simp: joined_needs_def direct_needs_sets refs_sets)
    then show ?thesis using Header assms(3) by (simp add: part_agrees_def contexts_agree_def)
  next
    case (Custom j fb)
    then have j: "j \<in> set (deps_of T i)" using assms(4,5) by (auto simp: set_deps_of)
    show ?thesis
    proof (cases "j < length (defs T)")
      case True
      then have "total_needs T j (needs_of T j)" using assms(1) by (simp add: table_ok_def)
      then have "needs_principal (needs_of T j) \<Longrightarrow> needs_principal (needs_of T i)"
        "needs_geoip (needs_of T j) \<Longrightarrow> needs_geoip (needs_of T i)"
        "set (needs_headers (needs_of T j)) \<subseteq> set (needs_headers (needs_of T i))"
        using joined j by (auto simp: joined_needs_def total_needs_def)
      then show ?thesis
        using assms(3) Custom True by (auto simp: part_agrees_def contexts_agree_def)
    qed (simp add: part_agrees_def Custom)
  qed (simp_all add: part_agrees_def)
qed

lemma value_agrees:
  shows "var_value R T a i v \<Longrightarrow> table_ok T \<Longrightarrow> i < length (defs T) \<longrightarrow> contexts_agree (needs_of T i) a b \<Longrightarrow>
     var_value R T b i v"
    and "parts_value R T a caps ps s \<Longrightarrow> table_ok T \<Longrightarrow> \<forall>p \<in> set ps. part_agrees T a b p \<Longrightarrow>
     parts_value R T b caps ps s"
proof (induction rule: var_value_parts_value.inducts)
  case (vv_const i t s)
  then show ?case using agree_part[of T i a b t] by (auto intro!: var_value_parts_value.vv_const)
next
  case (vv_no_arm i input arms inp)
  then show ?case
    using agree_part[of T i a b input] by (auto intro!: var_value_parts_value.vv_no_arm)
next
  case (vv_arm i input arms inp t caps s)
  have "t \<in> set (body_templates (def_body (defs T ! i)))"
    using pick_arm_template[OF vv_arm(5)] vv_arm(2) by auto
  then have "parts_value R T b None (parts input) inp" "parts_value R T b caps (parts t) s"
    using vv_arm agree_part[of T i a b input] agree_part[of T i a b t] by auto
  then show ?case using vv_arm(1,2,5) by (blast intro: var_value_parts_value.vv_arm)
next
  case (pv_simple caps p l ps s)
  then have "simple_value b caps p = Some l" by (cases p) (auto simp: part_agrees_def)
  then show ?case using pv_simple by (auto intro: var_value_parts_value.pv_simple)
qed (auto simp: part_agrees_def intro: var_value_parts_value.intros)

lemma get_var_value:
  assumes "table_ok T" "slots_ok R T cx sl"
  shows "\<exists>v sl'. get_var (scope_fuel (Some T)) R (Some T) cx i sl = Some (v, sl')
    \<and> var_value R T cx i v \<and> slots_ok R T cx sl'"
proof -
  have "dep_rank T i < scope_fuel (Some T)" "length sl = length (defs T)"
    using assms dep_rank_le[of T i] by (simp_all add: table_ok_def scope_fuel_def slots_ok_def)
  then obtain v sl' where "get_var (scope_fuel (Some T)) R (Some T) cx i sl = Some (v, sl')"
    using get_var_total[of T i] assms(1) unfolding table_ok_def by blast
  then show ?thesis using get_var_ok[of R T cx] assms(2) unfolding getter_ok_def by blast
qed

section \<open>Properties\<close>

text \<open>A server layer with two variables, and a vhost layer that redefines the first.\<close>

definition sample_layers :: "variable_def list list" where
  "sample_layers =
     [[\<lparr>vd_name = ''who'', vd_body = Constant ''{username|nobody}'', vd_line = 1\<rparr>,
       \<lparr>vd_name = ''greet'', vd_body = Constant ''hi {who}'', vd_line = 2\<rparr>],
      [\<lparr>vd_name = ''who'', vd_body = MatchDef ''{path}''
          [\<lparr>arm_pattern = Some ''api'', arm_value = ''robot {username}'', arm_line = 4\<rparr>,
           \<lparr>arm_pattern = None, arm_value = ''human'', arm_line = 5\<rparr>], vd_line = 3\<rparr>]]"

definition sample_table :: "string var_table" where
  "sample_table =
     (case build_layered list_headers literal_regex sample_layers of
        Some (Inr T) \<Rightarrow> T
      | _ \<Rightarrow> \<lparr>defs = [], table_names = vn_default\<rparr>)"

lemma sample_built: "build_layered list_headers literal_regex sample_layers = Some (Inr sample_table)"
proof -
  have "case build_layered list_headers literal_regex sample_layers of Some (Inr T) \<Rightarrow> True | _ \<Rightarrow> False"
    by code_simp
  then show ?thesis by (auto simp: sample_table_def split: option.splits sum.splits)
qed

definition sample_request :: request_context where
  "sample_request = empty_context\<lparr>cx_path := ''/api/v1'', cx_username := ''ann''\<rparr>"




text \<open>Two variables that refer to each other, as compiled templates.\<close>

definition looped_table :: "string var_table" where
  "looped_table =
     \<lparr>defs = [\<lparr>def_name = ''a'', def_body = Const (Template [Custom 1 None]), def_needs = needs_default\<rparr>,
              \<lparr>def_name = ''b'', def_body = Const (Template [Literal ''x'', Custom 0 None]),
                def_needs = needs_default\<rparr>],
      table_names = vn_default\<rparr>"


text \<open>
  C9. The needs computed at load time are exactly the transitive references: a variable needs the
  principal (or the country) if and only if it reaches a definition whose templates mention it,
  and it needs exactly the request headers mentioned by the definitions it reaches.
\<close>

theorem needs_exact:
  assumes "build_layered H R layers = Some (Inr T)" "i < length (defs T)"
  shows "(needs_principal (needs_of T i) \<longleftrightarrow> reach_principal T i) \<and>
    (needs_geoip (needs_of T i) \<longleftrightarrow> reach_geoip T i) \<and>
    set (needs_headers (needs_of T i)) = reach_headers T i"
  using build_layered_ok(1)[OF assms(1)] assms(2) by (simp add: table_ok_def total_needs_def)

theorem needs_exact_witness:
  "needs_principal (needs_of sample_table 1) \<and> reach_principal sample_table 1 \<and>
   \<not> reach_geoip sample_table 1"
proof -
  have "1 < length (defs sample_table) \<and> needs_principal (needs_of sample_table 1) \<and>
     \<not> needs_geoip (needs_of sample_table 1)"
    by code_simp
  then show ?thesis using needs_exact[OF sample_built, of 1] by simp
qed

text \<open>
  The needs bound what a value depends on. If two requests agree on everything the needs of a
  variable mention, the variable has the same value in both; so skipping authentication, the
  GeoIP lookup or the snapshot of a header that is not needed cannot change a rendered value.
\<close>

theorem needs_bound_value:
  assumes "build_layered H R layers = Some (Inr T)" "i < length (defs T)"
    "contexts_agree (needs_of T i) a b"
  shows "map_option fst (get_var (scope_fuel (Some T)) R (Some T) a i (new_slots T)) =
    map_option fst (get_var (scope_fuel (Some T)) R (Some T) b i (new_slots T))"
proof -
  have ok: "table_ok T" using build_layered_ok(1)[OF assms(1)] .
  obtain v sl w sl' where
    "get_var (scope_fuel (Some T)) R (Some T) a i (new_slots T) = Some (v, sl)" "var_value R T a i v"
    "get_var (scope_fuel (Some T)) R (Some T) b i (new_slots T) = Some (w, sl')" "var_value R T b i w"
    using get_var_value[OF ok new_slots_ok] by blast
  then show ?thesis
    using value_agrees(1)[of R T a i v b] ok assms(2,3) value_unique(1)[of R T b i v w] by simp
qed

theorem needs_bound_value_witness:
  "contexts_agree (needs_of sample_table 0) sample_request (sample_request\<lparr>cx_country := ''NZ''\<rparr>) \<and>
   map_option fst (get_var 3 literal_regex (Some sample_table) (sample_request\<lparr>cx_country := ''NZ''\<rparr>) 0
     (new_slots sample_table)) = Some ''robot ann''"
proof -
  have facts: "needs_geoip (needs_of sample_table 0) = False" "0 < length (defs sample_table)"
    "scope_fuel (Some sample_table) = 3"
    "map_option fst (get_var 3 literal_regex (Some sample_table) sample_request 0
       (new_slots sample_table)) = Some ''robot ann''"
    by code_simp+
  have agree: "contexts_agree (needs_of sample_table 0) sample_request (sample_request\<lparr>cx_country := ''NZ''\<rparr>)"
    unfolding contexts_agree_def
  proof (intro conjI allI impI)
    fix v assume "v \<notin> {Username, Groups, CountryVar}"
    then show "known_value sample_request v = known_value (sample_request\<lparr>cx_country := ''NZ''\<rparr>) v"
      by (cases v) auto
  qed (simp_all add: facts(1) header_value_def)
  then show ?thesis using needs_bound_value[OF sample_built facts(2) agree] facts(3,4) by simp
qed

text \<open>
  Late binding: a name in the table is bound to its innermost definition, the last one in the
  order server, vhost, location; the slot it occupies holds that definition compiled against the
  names of all layers.
\<close>

theorem innermost_binding:
  assumes "build_layered H R layers = Some (Inr T)" "vn_get (table_names T) n = Some i"
  shows "i < length (defs T) \<and> def_name (defs T ! i) = n \<and>
    (\<exists>spec. innermost (concat layers) n = Some spec
       \<and> compile_body H R (table_names T) spec = Inr (def_body (defs T ! i)))"
  using build_layered_ok(2)[OF assms] by blast

theorem innermost_binding_witness:
  "vn_get (table_names sample_table) ''who'' = Some 0 \<and>
   (\<exists>spec. innermost (concat sample_layers) ''who'' = Some spec \<and> vd_line spec = 3)"
proof -
  have "vn_get (table_names sample_table) ''who'' = Some 0" by code_simp
  moreover have "map_option vd_line (innermost (concat sample_layers) ''who'') = Some 3" by code_simp
  ultimately show ?thesis using innermost_binding[OF sample_built, of "''who''" 0] by auto
qed

end
