(* ===== verification/Access.thy ===== *)
theory Access
  imports Variable_Values
begin

text \<open>
  Policy-based access control (\<open>access.rs\<close>): the predicate tree, its sequential evaluation with
  a lazily resolved and cached principal, and policy blocks whose first matching rule wins.

  The authentication provider is code behind a trait: it is the function \<open>auth\<close> of the number of
  the call (a provider may answer differently each time), and the evaluation context counts the
  calls. Membership of an address in a network is the \<open>ipnet\<close> crate's \<open>contains\<close>, the argument
  \<open>net_contains\<close>. Status codes are natural numbers; the code does no arithmetic on them.
\<close>

unbundle bit_operations_syntax

section \<open>Addresses\<close>

datatype ip_addr = V4 "32 word" | V6 "128 word"

text \<open>\<open>Ipv6Addr::to_ipv4_mapped\<close>: the addresses of \<open>::ffff:0:0/96\<close>.\<close>

definition to_ipv4_mapped :: "128 word \<Rightarrow> 32 word option" where
  "to_ipv4_mapped a = (if drop_bit 32 a = 0xFFFF then Some (ucast a) else None)"

fun normalise :: "ip_addr \<Rightarrow> ip_addr" where
  "normalise (V6 a) = (case to_ipv4_mapped a of Some v4 \<Rightarrow> V4 v4 | None \<Rightarrow> V6 a)"
| "normalise (V4 a) = V4 a"

section \<open>Predicates and rules\<close>

datatype 'net predicate =
  PAddress "'net list"
  | PCountry "string list"
  | PUser "string list"
  | PGroup "string list"
  | PAuthenticated
  | PNot "'net predicate"
  | PAnd "'net predicate list"

fun pred_needs_geoip :: "'net predicate \<Rightarrow> bool" where
  "pred_needs_geoip (PCountry _) = True"
| "pred_needs_geoip (PNot inner) = pred_needs_geoip inner"
| "pred_needs_geoip (PAnd ps) = list_ex pred_needs_geoip ps"
| "pred_needs_geoip _ = False"

fun pred_needs_auth :: "'net predicate \<Rightarrow> bool" where
  "pred_needs_auth PAuthenticated = True"
| "pred_needs_auth (PUser _) = True"
| "pred_needs_auth (PGroup _) = True"
| "pred_needs_auth (PNot inner) = pred_needs_auth inner"
| "pred_needs_auth (PAnd ps) = list_ex pred_needs_auth ps"
| "pred_needs_auth _ = False"

datatype predicate_result = PMatch | PNoMatch | Challenge nat

datatype policy_action = AAllow | ADeny nat | ARedirect string nat

record 'net policy_rule =
  rule_predicate :: "'net predicate option"
  rule_action :: policy_action

record 'net policy_block =
  rules :: "'net policy_rule list"
  block_needs_geoip :: bool
  redirect_templates :: "template option list"

datatype policy_outcome = Allow | Deny nat | Redirect template nat

subsection \<open>Building a block\<close>

definition assemble_block :: "'net policy_rule list \<Rightarrow> template option list \<Rightarrow> 'net policy_block" where
  "assemble_block rs ts =
     \<lparr>rules = rs,
      block_needs_geoip =
        list_ex (\<lambda>r. case rule_predicate r of Some p \<Rightarrow> pred_needs_geoip p | None \<Rightarrow> False) rs,
      redirect_templates = ts\<rparr>"

definition new_block :: "'h header_ops \<Rightarrow> 'net policy_rule list \<Rightarrow> 'net policy_block" where
  "new_block H rs =
     assemble_block rs
       (map (\<lambda>r. case rule_action r of ARedirect to _ \<Rightarrow> Some (parse_template H to) | _ \<Rightarrow> None) rs)"

definition block_with_vars ::
  "'h header_ops \<Rightarrow> 'net policy_rule list \<Rightarrow> var_names \<Rightarrow> template_error + 'net policy_block" where
  "block_with_vars H rs names =
     bind_result
       (collect_result
          (\<lambda>r. case rule_action r of
                 ARedirect to _ \<Rightarrow> bind_result (compile_template H to names) (\<lambda>t. Inr (Some t))
               | _ \<Rightarrow> Inr None) rs)
       (\<lambda>ts. Inr (assemble_block rs ts))"

definition block_templates :: "'net policy_block \<Rightarrow> template list" where
  "block_templates b = List.map_filter (\<lambda>t. t) (redirect_templates b)"

section \<open>Evaluation\<close>

record eval_context =
  ec_peer :: ip_addr
  ec_country :: "string option"
  ec_principal :: "principal option"
  ec_calls :: nat

definition new_context :: "ip_addr \<Rightarrow> string option \<Rightarrow> eval_context" where
  "new_context peer country =
     \<lparr>ec_peer = normalise peer, ec_country = country, ec_principal = None, ec_calls = 0\<rparr>"

definition take_principal :: "eval_context \<Rightarrow> principal" where
  "take_principal cx = (case ec_principal cx of Some p \<Rightarrow> p | None \<Rightarrow> Anonymous)"

definition resolve_principal :: "(nat \<Rightarrow> principal) \<Rightarrow> eval_context \<Rightarrow> principal \<times> eval_context" where
  "resolve_principal auth cx =
     (case ec_principal cx of
        Some p \<Rightarrow> (p, cx)
      | None \<Rightarrow>
          (let p = auth (ec_calls cx)
           in (p, cx\<lparr>ec_principal := Some p, ec_calls := Suc (ec_calls cx)\<rparr>)))"

fun eval_predicate ::
  "('net \<Rightarrow> ip_addr \<Rightarrow> bool) \<Rightarrow> (nat \<Rightarrow> principal) \<Rightarrow> 'net predicate \<Rightarrow> eval_context \<Rightarrow>
   predicate_result \<times> eval_context"
and eval_and ::
  "('net \<Rightarrow> ip_addr \<Rightarrow> bool) \<Rightarrow> (nat \<Rightarrow> principal) \<Rightarrow> 'net predicate list \<Rightarrow> eval_context \<Rightarrow>
   predicate_result \<times> eval_context"
where
  "eval_predicate nc auth (PAddress nets) cx =
     (if list_ex (\<lambda>n. nc n (ec_peer cx)) nets then PMatch else PNoMatch, cx)"
| "eval_predicate nc auth (PCountry codes) cx =
     (if (case ec_country cx of Some c \<Rightarrow> list_ex (\<lambda>code. c = code) codes | None \<Rightarrow> False)
      then PMatch else PNoMatch, cx)"
| "eval_predicate nc auth PAuthenticated cx =
     (case resolve_principal auth cx of
        (Authenticated _, cx') \<Rightarrow> (PMatch, cx')
      | (Anonymous, cx') \<Rightarrow> (Challenge 401, cx'))"
| "eval_predicate nc auth (PUser names) cx =
     (case resolve_principal auth cx of
        (Authenticated ident, cx') \<Rightarrow>
          (if username ident \<in> set names then PMatch else PNoMatch, cx')
      | (Anonymous, cx') \<Rightarrow> (Challenge 401, cx'))"
| "eval_predicate nc auth (PGroup gs) cx =
     (case resolve_principal auth cx of
        (Authenticated ident, cx') \<Rightarrow>
          (if list_ex (\<lambda>g. g \<in> set gs) (groups ident) then PMatch else PNoMatch, cx')
      | (Anonymous, cx') \<Rightarrow> (Challenge 401, cx'))"
| "eval_predicate nc auth (PNot inner) cx =
     (case eval_predicate nc auth inner cx of
        (PMatch, cx') \<Rightarrow> (PNoMatch, cx')
      | (_, cx') \<Rightarrow> (PMatch, cx'))"
| "eval_predicate nc auth (PAnd ps) cx = eval_and nc auth ps cx"
| "eval_and nc auth [] cx = (PMatch, cx)"
| "eval_and nc auth (p # ps) cx =
     (case eval_predicate nc auth p cx of
        (PMatch, cx') \<Rightarrow> eval_and nc auth ps cx'
      | (other, cx') \<Rightarrow> (other, cx'))"

text \<open>What a matching rule at index \<open>i\<close> of the block does.\<close>

definition fire_action ::
  "'h header_ops \<Rightarrow> 'net policy_block \<Rightarrow> nat \<Rightarrow> policy_action \<Rightarrow> policy_outcome" where
  "fire_action H b i a =
     (case a of
        AAllow \<Rightarrow> Allow
      | ADeny code \<Rightarrow> Deny code
      | ARedirect to code \<Rightarrow>
          (let t = (if i < length (redirect_templates b) then redirect_templates b ! i else None)
           in Redirect (case t of Some t' \<Rightarrow> t' | None \<Rightarrow> parse_template H to) code))"

fun evaluate_from ::
  "'h header_ops \<Rightarrow> ('net \<Rightarrow> ip_addr \<Rightarrow> bool) \<Rightarrow> (nat \<Rightarrow> principal) \<Rightarrow> 'net policy_block \<Rightarrow> nat \<Rightarrow>
   'net policy_rule list \<Rightarrow> eval_context \<Rightarrow> policy_outcome \<times> eval_context" where
  "evaluate_from H nc auth b i [] cx = (Deny 403, cx)"
| "evaluate_from H nc auth b i (r # rs) cx =
     (case (case rule_predicate r of
              None \<Rightarrow> (PMatch, cx)
            | Some p \<Rightarrow> eval_predicate nc auth p cx) of
        (PMatch, cx') \<Rightarrow> (fire_action H b i (rule_action r), cx')
      | (Challenge code, cx') \<Rightarrow> (Deny code, cx')
      | (PNoMatch, cx') \<Rightarrow> evaluate_from H nc auth b (Suc i) rs cx')"

definition evaluate ::
  "'h header_ops \<Rightarrow> ('net \<Rightarrow> ip_addr \<Rightarrow> bool) \<Rightarrow> (nat \<Rightarrow> principal) \<Rightarrow> 'net policy_block \<Rightarrow>
   eval_context \<Rightarrow> policy_outcome \<times> eval_context" where
  "evaluate H nc auth b cx = evaluate_from H nc auth b 0 (rules b) cx"

section \<open>Reference semantics\<close>

text \<open>
  The meaning of a predicate for a request from \<open>peer\<close> in \<open>country\<close> made by \<open>who\<close>: no context, no
  caching, no order of evaluation beyond the one that decides which result an \<open>and\<close> reports.
\<close>

definition conj_results :: "predicate_result list \<Rightarrow> predicate_result" where
  "conj_results rs = (case find (\<lambda>r. r \<noteq> PMatch) rs of None \<Rightarrow> PMatch | Some r \<Rightarrow> r)"

fun pred_meaning ::
  "('net \<Rightarrow> ip_addr \<Rightarrow> bool) \<Rightarrow> ip_addr \<Rightarrow> string option \<Rightarrow> principal \<Rightarrow> 'net predicate \<Rightarrow>
   predicate_result" where
  "pred_meaning nc peer country who (PAddress nets) =
     (if \<exists>n \<in> set nets. nc n peer then PMatch else PNoMatch)"
| "pred_meaning nc peer country who (PCountry codes) =
     (if \<exists>c \<in> set codes. country = Some c then PMatch else PNoMatch)"
| "pred_meaning nc peer country who PAuthenticated =
     (if who = Anonymous then Challenge 401 else PMatch)"
| "pred_meaning nc peer country who (PUser names) =
     (case who of
        Anonymous \<Rightarrow> Challenge 401
      | Authenticated u \<Rightarrow> if username u \<in> set names then PMatch else PNoMatch)"
| "pred_meaning nc peer country who (PGroup gs) =
     (case who of
        Anonymous \<Rightarrow> Challenge 401
      | Authenticated u \<Rightarrow> if set (groups u) \<inter> set gs \<noteq> {} then PMatch else PNoMatch)"
| "pred_meaning nc peer country who (PNot p) =
     (if pred_meaning nc peer country who p = PMatch then PNoMatch else PMatch)"
| "pred_meaning nc peer country who (PAnd ps) =
     conj_results (map (pred_meaning nc peer country who) ps)"

definition rule_meaning ::
  "('net \<Rightarrow> ip_addr \<Rightarrow> bool) \<Rightarrow> ip_addr \<Rightarrow> string option \<Rightarrow> principal \<Rightarrow> 'net policy_rule \<Rightarrow>
   predicate_result" where
  "rule_meaning nc peer country who r =
     (case rule_predicate r of None \<Rightarrow> PMatch | Some p \<Rightarrow> pred_meaning nc peer country who p)"

definition rule_outcome ::
  "'h header_ops \<Rightarrow> 'net policy_block \<Rightarrow> nat \<Rightarrow> 'net policy_rule \<Rightarrow> predicate_result \<Rightarrow> policy_outcome" where
  "rule_outcome H b i r res =
     (case res of Challenge code \<Rightarrow> Deny code | _ \<Rightarrow> fire_action H b i (rule_action r))"

text \<open>The outcome is decided by the first rule that does not answer \<open>PNoMatch\<close>.\<close>

definition block_meaning ::
  "'h header_ops \<Rightarrow> ('net \<Rightarrow> ip_addr \<Rightarrow> bool) \<Rightarrow> 'net policy_block \<Rightarrow> ip_addr \<Rightarrow> string option \<Rightarrow>
   principal \<Rightarrow> policy_outcome" where
  "block_meaning H nc b peer country who =
     (case find (\<lambda>i. rule_meaning nc peer country who (rules b ! i) \<noteq> PNoMatch)
             [0..<length (rules b)] of
        None \<Rightarrow> Deny 403
      | Some i \<Rightarrow> rule_outcome H b i (rules b ! i) (rule_meaning nc peer country who (rules b ! i)))"

text \<open>A predicate that can only match for a known identity.\<close>

fun requires_identity :: "'net predicate \<Rightarrow> bool" where
  "requires_identity PAuthenticated = True"
| "requires_identity (PUser _) = True"
| "requires_identity (PGroup _) = True"
| "requires_identity (PAnd ps) = list_ex requires_identity ps"
| "requires_identity _ = False"

section \<open>Lemmas\<close>

lemma conj_results_Nil [simp]: "conj_results [] = PMatch"
  by (simp add: conj_results_def)

lemma conj_results_Cons [simp]:
  "conj_results (r # rs) = (if r = PMatch then conj_results rs else r)"
  by (simp add: conj_results_def)

lemma conj_results_PMatch: "conj_results rs = PMatch \<longleftrightarrow> (\<forall>r \<in> set rs. r = PMatch)"
  by (induction rs) auto

text \<open>The principal is unknown and was never asked for, or it is the answer to the only call.\<close>

definition cached :: "(nat \<Rightarrow> principal) \<Rightarrow> eval_context \<Rightarrow> bool" where
  "cached auth cx \<longleftrightarrow>
     ec_principal cx = None \<and> ec_calls cx = 0 \<or> ec_principal cx = Some (auth 0) \<and> ec_calls cx = 1"

lemma resolve_principal_ok:
  assumes "cached auth cx"
  obtains cx' where "resolve_principal auth cx = (auth 0, cx')" "cached auth cx'"
    "ec_peer cx' = ec_peer cx" "ec_country cx' = ec_country cx"
  using assms by (auto simp: cached_def resolve_principal_def Let_def)

lemma list_ex_overlap: "list_ex (\<lambda>g. g \<in> set gs) xs \<longleftrightarrow> set xs \<inter> set gs \<noteq> {}"
  by (auto simp: list_ex_iff)

lemma eval_predicate_ok:
  shows "cached auth cx \<Longrightarrow> eval_predicate nc auth p cx = (r, cx') \<Longrightarrow>
     r = pred_meaning nc (ec_peer cx) (ec_country cx) (auth 0) p \<and> cached auth cx'
     \<and> ec_peer cx' = ec_peer cx \<and> ec_country cx' = ec_country cx
     \<and> (\<not> pred_needs_auth p \<longrightarrow> cx' = cx)"
    and "cached auth cx \<Longrightarrow> eval_and nc auth ps cx = (r, cx') \<Longrightarrow>
     r = pred_meaning nc (ec_peer cx) (ec_country cx) (auth 0) (PAnd ps) \<and> cached auth cx'
     \<and> ec_peer cx' = ec_peer cx \<and> ec_country cx' = ec_country cx
     \<and> (\<not> list_ex pred_needs_auth ps \<longrightarrow> cx' = cx)"
proof (induction nc auth p cx and nc auth ps cx arbitrary: r cx' and r cx'
    rule: eval_predicate_eval_and.induct)
  case (2 nc auth codes cx)
  then show ?case by (cases "ec_country cx") (auto simp: list_ex_iff)
next
  case (3 nc auth cx)
  show ?case
    by (rule resolve_principal_ok[OF 3(1)], cases "auth 0") (use 3(2) in auto)
next
  case (4 nc auth names cx)
  show ?case
    by (rule resolve_principal_ok[OF 4(1)], cases "auth 0") (use 4(2) in auto)
next
  case (5 nc auth gs cx)
  show ?case
    by (rule resolve_principal_ok[OF 5(1)], cases "auth 0") (use 5(2) in \<open>auto simp: list_ex_overlap\<close>)
next
  case (6 nc auth inner cx)
  then show ?case by (auto split: prod.splits predicate_result.splits)
next
  case (9 nc auth p ps cx)
  obtain r1 cx1 where e: "eval_predicate nc auth p cx = (r1, cx1)" by fastforce
  note head = 9(1)[OF 9(3) e]
  show ?case
  proof (cases "r1 = PMatch")
    case True
    then have "eval_and nc auth ps cx1 = (r, cx')" using 9(4) e by simp
    note tail = 9(2)[OF e[symmetric] True _ this]
    show ?thesis using head tail True by simp
  next
    case False
    then have "r = r1" "cx' = cx1" using 9(4) e by (cases r1; simp)+
    then show ?thesis using head False by simp
  qed
qed (auto simp: list_ex_iff)

lemma find_map_Suc: "find P (map Suc xs) = map_option Suc (find (\<lambda>i. P (Suc i)) xs)"
  by (induction xs) auto

lemma find_upt_Suc:
  "find P [0..<Suc n] = (if P 0 then Some 0 else map_option Suc (find (\<lambda>i. P (Suc i)) [0..<n]))"
  using find_map_Suc[of P "[0..<n]"] by (simp add: upt_conv_Cons map_Suc_upt del: upt_Suc)

lemma evaluate_from_ok:
  assumes "cached auth cx" "evaluate_from H nc auth b k rs cx = (out, cx')"
  shows "out = (case find (\<lambda>i. rule_meaning nc (ec_peer cx) (ec_country cx) (auth 0) (rs ! i) \<noteq> PNoMatch)
                  [0..<length rs] of
               None \<Rightarrow> Deny 403
             | Some i \<Rightarrow> rule_outcome H b (k + i) (rs ! i)
                           (rule_meaning nc (ec_peer cx) (ec_country cx) (auth 0) (rs ! i)))
      \<and> cached auth cx'
      \<and> ((\<forall>r \<in> set rs. \<forall>p. rule_predicate r = Some p \<longrightarrow> \<not> pred_needs_auth p) \<longrightarrow> cx' = cx)"
  using assms
proof (induction rs arbitrary: k cx)
  case (Cons r rs)
  obtain res cx1 where res: "(case rule_predicate r of None \<Rightarrow> (PMatch, cx)
      | Some p \<Rightarrow> eval_predicate nc auth p cx) = (res, cx1)" by fastforce
  have step: "rule_meaning nc (ec_peer cx) (ec_country cx) (auth 0) r = res \<and> cached auth cx1
      \<and> ec_peer cx1 = ec_peer cx \<and> ec_country cx1 = ec_country cx
      \<and> ((\<forall>p. rule_predicate r = Some p \<longrightarrow> \<not> pred_needs_auth p) \<longrightarrow> cx1 = cx)"
    using res Cons.prems(1) eval_predicate_ok(1)[OF Cons.prems(1), of nc]
    by (auto simp: rule_meaning_def split: option.splits)
  show ?case
  proof (cases "res = PNoMatch")
    case True
    then have "evaluate_from H nc auth b (Suc k) rs cx1 = (out, cx')" using Cons.prems(2) res by simp
    from Cons.IH[OF _ this] show ?thesis
      using step True by (auto simp: find_upt_Suc simp del: upt_Suc split: option.splits)
  next
    case False
    then show ?thesis
      using Cons.prems(2) res step
      by (cases res) (auto simp: find_upt_Suc rule_outcome_def simp del: upt_Suc)
  qed
qed simp

lemma new_context_cached: "cached auth (new_context peer country)"
  by (simp add: cached_def new_context_def)

lemma evaluate_meaning:
  "fst (evaluate H nc auth b (new_context peer country)) =
     block_meaning H nc b (normalise peer) country (auth 0)"
  using evaluate_from_ok[OF new_context_cached, of H nc auth b 0 "rules b" peer country]
  by (cases "evaluate H nc auth b (new_context peer country)")
    (simp add: evaluate_def block_meaning_def new_context_def cong: option.case_cong)

lemma pred_meaning_country:
  "\<not> pred_needs_geoip p \<Longrightarrow> pred_meaning nc peer c who p = pred_meaning nc peer d who p"
proof (induction p)
  case (PAnd ps)
  then have "map (pred_meaning nc peer c who) ps = map (pred_meaning nc peer d who) ps"
    by (auto simp: list_ex_iff)
  then show ?case by (simp del: map_eq_conv)
qed auto

lemma anonymous_no_match:
  "requires_identity p \<Longrightarrow> pred_meaning nc peer c Anonymous p \<noteq> PMatch"
proof (induction p)
  case (PAnd ps)
  then obtain q where "q \<in> set ps" "pred_meaning nc peer c Anonymous q \<noteq> PMatch"
    by (auto simp: list_ex_iff)
  then show ?case by (auto simp: conj_results_PMatch)
qed auto

lemma find_upt_Some:
  "find P [0..<n] = Some i \<longleftrightarrow> i < n \<and> P i \<and> (\<forall>j < i. \<not> P j)"
proof (induction n arbitrary: P i)
  case (Suc n)
  show ?case
    by (subst find_upt_Suc) (cases i, auto simp: Suc All_less_Suc2)
qed simp

lemma to_ipv4_mapped_or:
  "to_ipv4_mapped (push_bit 32 0xFFFF OR ucast (a :: 32 word)) = Some a"
proof -
  have "drop_bit 32 (ucast a :: 128 word) = 0"
    by (rule bit_eqI) (auto simp: bit_simps dest: bit_imp_le_length)
  moreover have "drop_bit 32 (push_bit 32 0xFFFF OR ucast a :: 128 word) =
      drop_bit 32 (push_bit 32 0xFFFF) OR drop_bit 32 (ucast a)"
    by (simp only: drop_bit_or)
  ultimately have "drop_bit 32 (push_bit 32 0xFFFF OR ucast a :: 128 word) = 0xFFFF" by simp
  moreover have "ucast (push_bit 32 x OR ucast a :: 128 word) = a" for x
    by (rule bit_eqI) (auto simp: bit_simps)
  ultimately show ?thesis unfolding to_ipv4_mapped_def by presburger
qed

text \<open>The templates of a constructed block are aligned with its redirect rules.\<close>

lemma block_with_vars_template:
  assumes "block_with_vars H rs names = Inr b" "i < length rs" "rule_action (rs ! i) = ARedirect to code"
  shows "\<exists>t. compile_template H to names = Inr t \<and> fire_action H b i (ARedirect to code) = Redirect t code"
  using assms
  by (auto simp: block_with_vars_def assemble_block_def res_simps collect_result_Inr
      list_all2_conv_all_nth fire_action_def Let_def dest!: spec[of _ i] split: option.splits)

lemma evaluate_no_auth:
  assumes "\<forall>r \<in> set (rules b). \<forall>p. rule_predicate r = Some p \<longrightarrow> \<not> pred_needs_auth p"
  shows "ec_calls (snd (evaluate H nc auth b (new_context peer country))) = 0 \<and>
    fst (evaluate H nc auth b (new_context peer country)) =
    fst (evaluate H nc auth' b (new_context peer country))"
proof -
  have ctx: "snd (evaluate H nc a b (new_context peer country)) = new_context peer country" for a
    using evaluate_from_ok[OF new_context_cached, of H nc a b 0 "rules b" peer country] assms
    by (cases "evaluate H nc a b (new_context peer country)") (simp add: evaluate_def)
  have eval: "eval_predicate nc a p cx = eval_predicate nc a' p cx" if "\<not> pred_needs_auth p" for a a' p cx
    using that
  proof (induction p arbitrary: cx)
    case (PAnd ps)
    then show ?case by (induction ps arbitrary: cx) (auto split: prod.splits predicate_result.splits)
  qed auto
  have "evaluate_from H nc auth b k rs cx = evaluate_from H nc auth' b k rs cx"
    if "set rs \<subseteq> set (rules b)" for k rs cx
    using that
  proof (induction rs arbitrary: k cx)
    case (Cons r rs)
    then have "eval_predicate nc auth p cx = eval_predicate nc auth' p cx" if "rule_predicate r = Some p" for p
      using that assms eval by auto
    then show ?case
      using Cons by (cases "rule_predicate r") (auto split: prod.splits predicate_result.splits)
  qed simp
  then show ?thesis using ctx by (simp add: evaluate_def new_context_def)
qed

section \<open>Properties\<close>

text \<open>
  C3. Evaluating a policy gives the outcome of its reference meaning: the first rule that does not
  answer no-match decides, a challenge denies with its code, and a policy without such a rule
  denies with 403. The authentication provider is called at most once, and the principal left in
  the context is the answer to that call.
\<close>

theorem policy_first_match:
  "fst (evaluate H nc auth b (new_context peer country)) =
     block_meaning H nc b (normalise peer) country (auth 0)
   \<and> ec_calls (snd (evaluate H nc auth b (new_context peer country))) \<le> 1
   \<and> take_principal (snd (evaluate H nc auth b (new_context peer country))) \<in> {Anonymous, auth 0}"
  using evaluate_from_ok[OF new_context_cached, of H nc auth b 0 "rules b" peer country]
    evaluate_meaning[of H nc auth b peer country]
  by (cases "evaluate H nc auth b (new_context peer country)")
    (auto simp: evaluate_def cached_def take_principal_def)

text \<open>
  A policy none of whose predicates tests an identity never calls the authentication provider,
  and its outcome does not depend on who the client is.
\<close>

theorem no_auth_predicates:
  assumes "\<forall>r \<in> set (rules b). \<forall>p. rule_predicate r = Some p \<longrightarrow> \<not> pred_needs_auth p"
  shows "ec_calls (snd (evaluate H nc auth b (new_context peer country))) = 0 \<and>
    fst (evaluate H nc auth b (new_context peer country)) =
    fst (evaluate H nc auth' b (new_context peer country))"
  using assms by (rule evaluate_no_auth)

text \<open>A policy for one network that sends everyone else to another page.\<close>

definition sample_nets :: "string \<Rightarrow> ip_addr \<Rightarrow> bool" where
  "sample_nets n a = (n = ''10.0.0.0/8'' \<and> (case a of V4 w \<Rightarrow> drop_bit 24 w = 10 | V6 _ \<Rightarrow> False))"

definition sample_block :: "string policy_block" where
  "sample_block =
     new_block list_headers
       [\<lparr>rule_predicate = Some (PAddress [''10.0.0.0/8'']), rule_action = AAllow\<rparr>,
        \<lparr>rule_predicate = None, rule_action = ARedirect ''https://{host}/'' 302\<rparr>]"

theorem no_auth_predicates_witness:
  "ec_calls (snd (evaluate list_headers sample_nets (\<lambda>_. Anonymous) sample_block
     (new_context (V4 0x0A000001) None))) = 0 \<and>
   fst (evaluate list_headers sample_nets (\<lambda>_. Anonymous) sample_block
     (new_context (V4 0x0A000001) None)) = Allow"
proof -
  have "\<forall>r \<in> set (rules sample_block). \<forall>p. rule_predicate r = Some p \<longrightarrow> \<not> pred_needs_auth p"
    by (simp add: sample_block_def new_block_def assemble_block_def)
  moreover have "fst (evaluate list_headers sample_nets (\<lambda>_. Anonymous) sample_block
     (new_context (V4 0x0A000001) None)) = Allow"
    by (simp add: sample_block_def new_block_def assemble_block_def evaluate_def sample_nets_def
        new_context_def fire_action_def drop_bit_eq_div)
  ultimately show ?thesis
    using no_auth_predicates[of sample_block list_headers sample_nets "\<lambda>_. Anonymous"
        "V4 0x0A000001" None "\<lambda>_. Anonymous"] by simp
qed

text \<open>
  Fail closed for anonymous clients: if every rule that does not deny is guarded by a predicate
  that requires an identity, an anonymous client is denied, whatever address or country it has.
\<close>

theorem anonymous_denied:
  assumes "\<forall>r \<in> set (rules b). (\<exists>code. rule_action r = ADeny code)
      \<or> (\<exists>p. rule_predicate r = Some p \<and> requires_identity p)"
    "auth 0 = Anonymous"
  shows "\<exists>code. fst (evaluate H nc auth b (new_context peer country)) = Deny code"
proof (cases "find (\<lambda>i. rule_meaning nc (normalise peer) country Anonymous (rules b ! i) \<noteq> PNoMatch)
    [0..<length (rules b)]")
  case None
  then show ?thesis using evaluate_meaning[of H nc auth b] assms(2) by (simp add: block_meaning_def)
next
  case (Some i)
  then have i: "i < length (rules b)" by (simp add: find_upt_Some)
  have "(\<exists>code. rule_action (rules b ! i) = ADeny code)
      \<or> rule_meaning nc (normalise peer) country Anonymous (rules b ! i) \<noteq> PMatch"
    using assms(1) i anonymous_no_match by (fastforce simp: rule_meaning_def)
  then show ?thesis
    using evaluate_meaning[of H nc auth b peer country] assms(2) Some
    by (auto simp: block_meaning_def rule_outcome_def find_upt_Some fire_action_def
        split: predicate_result.splits)
qed

theorem anonymous_denied_witness:
  "\<exists>code. fst (evaluate list_headers sample_nets (\<lambda>_. Anonymous)
     (new_block list_headers
        [\<lparr>rule_predicate = Some (PAnd [PAddress [''10.0.0.0/8''], PGroup [''admin'']]), rule_action = AAllow\<rparr>])
     (new_context (V4 0x0A000001) None)) = Deny code"
  by (rule anonymous_denied) (simp_all add: new_block_def assemble_block_def)

text \<open>
  The GeoIP flag is sound: a block built by the constructors whose flag is off has the same
  outcome for every country, so skipping the lookup changes nothing.
\<close>

theorem geoip_flag_sound:
  assumes "\<not> block_needs_geoip (assemble_block rs ts)"
  shows "fst (evaluate H nc auth (assemble_block rs ts) (new_context peer c)) =
    fst (evaluate H nc auth (assemble_block rs ts) (new_context peer d))"
proof -
  have same: "rule_meaning nc (normalise peer) c (auth 0) (rs ! i) =
      rule_meaning nc (normalise peer) d (auth 0) (rs ! i)" if "i < length rs" for i
    using assms that pred_meaning_country
    by (fastforce simp: assemble_block_def rule_meaning_def list_ex_iff split: option.splits)
  then have find_same:
    "find (\<lambda>i. rule_meaning nc (normalise peer) c (auth 0) (rs ! i) \<noteq> PNoMatch) [0..<length rs] =
      find (\<lambda>i. rule_meaning nc (normalise peer) d (auth 0) (rs ! i) \<noteq> PNoMatch) [0..<length rs]"
    by (intro find_cong) auto
  show ?thesis
  proof (cases "find (\<lambda>i. rule_meaning nc (normalise peer) d (auth 0) (rs ! i) \<noteq> PNoMatch) [0..<length rs]")
    case None
    then show ?thesis
      using find_same by (simp add: evaluate_meaning block_meaning_def assemble_block_def)
  next
    case (Some i)
    then have "i < length rs" by (simp add: find_upt_Some)
    then show ?thesis
      using find_same same Some by (simp add: evaluate_meaning block_meaning_def assemble_block_def)
  qed
qed

theorem geoip_flag_sound_witness:
  "\<not> block_needs_geoip sample_block \<and>
   fst (evaluate list_headers sample_nets (\<lambda>_. Anonymous) sample_block (new_context (V4 0x0A000001) None)) =
   fst (evaluate list_headers sample_nets (\<lambda>_. Anonymous) sample_block (new_context (V4 0x0A000001) (Some ''FR'')))"
  using geoip_flag_sound[of "rules sample_block" "redirect_templates sample_block" list_headers sample_nets
      "\<lambda>_. Anonymous" "V4 0x0A000001" None "Some ''FR''"]
  by (simp add: sample_block_def new_block_def assemble_block_def)

text \<open>
  An IPv4-mapped IPv6 peer is treated as the IPv4 address it carries: the outcome of every
  policy is the same for both.
\<close>

theorem mapped_peer_same:
  "fst (evaluate H nc auth b (new_context (V6 (push_bit 32 0xFFFF OR ucast (a :: 32 word))) country)) =
   fst (evaluate H nc auth b (new_context (V4 a) country))"
  by (simp only: new_context_def normalise.simps to_ipv4_mapped_or option.case)

text \<open>
  A redirect sends the client to the compiled target of the rule that matched: for a block
  built against the variable table, the template of the outcome is the compilation of that rule's
  own \<open>to=\<close> text, and the code is that rule's.
\<close>

theorem redirect_target:
  assumes "block_with_vars H rs names = Inr b"
    "fst (evaluate H nc auth b (new_context peer country)) = Redirect t code"
  shows "\<exists>i to. i < length rs \<and> rule_action (rs ! i) = ARedirect to code
    \<and> compile_template H to names = Inr t
    \<and> rule_meaning nc (normalise peer) country (auth 0) (rs ! i) = PMatch
    \<and> (\<forall>j < i. rule_meaning nc (normalise peer) country (auth 0) (rs ! j) = PNoMatch)"
proof -
  have rules: "rules b = rs"
    using assms(1) by (auto simp: block_with_vars_def assemble_block_def res_simps)
  obtain i where i: "i < length rs" "rule_meaning nc (normalise peer) country (auth 0) (rs ! i) = PMatch"
    "\<forall>j < i. rule_meaning nc (normalise peer) country (auth 0) (rs ! j) = PNoMatch"
    "fire_action H b i (rule_action (rs ! i)) = Redirect t code"
    using assms(2)
    by (auto simp: evaluate_meaning block_meaning_def rule_outcome_def rules find_upt_Some
        split: option.splits predicate_result.splits)
  then obtain to where to: "rule_action (rs ! i) = ARedirect to code"
    by (auto simp: fire_action_def Let_def split: policy_action.splits)
  then show ?thesis using block_with_vars_template[OF assms(1) i(1)] i by auto
qed

theorem redirect_target_witness:
  "block_with_vars list_headers (rules sample_block) vn_default = Inr sample_block \<and>
   fst (evaluate list_headers sample_nets (\<lambda>_. Anonymous) sample_block (new_context (V4 0x0B000001) None)) =
     Redirect (Template [Literal ''https://'', Var Host None, Literal ''/'']) 302 \<and>
   compile_template list_headers ''https://{host}/'' vn_default =
     Inr (Template [Literal ''https://'', Var Host None, Literal ''/''])"
proof -
  have b: "block_with_vars list_headers (rules sample_block) vn_default = Inr sample_block" by code_simp
  have e: "fst (evaluate list_headers sample_nets (\<lambda>_. Anonymous) sample_block
      (new_context (V4 0x0B000001) None)) =
      Redirect (Template [Literal ''https://'', Var Host None, Literal ''/'']) 302"
    by code_simp
  have r: "rules sample_block =
      [\<lparr>rule_predicate = Some (PAddress [''10.0.0.0/8'']), rule_action = AAllow\<rparr>,
       \<lparr>rule_predicate = None, rule_action = ARedirect ''https://{host}/'' 302\<rparr>]"
    by (simp add: sample_block_def new_block_def assemble_block_def)
  show ?thesis using redirect_target[OF b e] b e by (auto simp: r less_Suc_eq nth_Cons')
qed

end
