(* ===== verification/Policy_Resolve.thy ===== *)
theory Policy_Resolve
  imports Access
begin

text \<open>
  Named policies (\<open>router.rs\<close>): \<open>apply\<close> references are expanded into flat rule lists when the
  router is built, with detection of circular and undefined references, and the blocks of stream
  listeners are checked to hold no identity predicate.

  The parsed policies are a \<open>HashMap\<close>: a map from names to definitions, with the list of its
  keys in the (unspecified) order the map iterates in. The recursion through \<open>apply\<close> carries a
  fuel argument; the chain of names being visited never repeats a name, so one more than the
  number of policies is always enough.
\<close>

section \<open>Definitions\<close>

datatype 'net policy_rule_def =
  RuleDef "'net predicate option" policy_action
  | ApplyDef string

datatype policy_error =
  Circular_policy string "string list"
  | Undefined_policy string
  | Identity_predicate
  | Identity_in_policy string

type_synonym 'net policy_defs = "string \<rightharpoonup> 'net policy_rule_def list"
type_synonym 'net resolved = "string \<rightharpoonup> 'net policy_rule list"
type_synonym 'net resolution = "(policy_error + ('net policy_rule list \<times> 'net resolved)) option"

text \<open>
  \<open>one\<close> is \<open>resolve_one\<close> with the current chain of names; \<open>result.extend\<close> appends in order.
\<close>

fun resolve_rule_defs ::
  "(string \<Rightarrow> 'net resolved \<Rightarrow> 'net resolution) \<Rightarrow> 'net policy_rule_def list \<Rightarrow>
   'net policy_rule list \<Rightarrow> 'net resolved \<Rightarrow> 'net resolution" where
  "resolve_rule_defs one [] result res = Some (Inr (result, res))"
| "resolve_rule_defs one (RuleDef p a # ds) result res =
     resolve_rule_defs one ds (result @ [\<lparr>rule_predicate = p, rule_action = a\<rparr>]) res"
| "resolve_rule_defs one (ApplyDef name # ds) result res =
     (case one name res of
        None \<Rightarrow> None
      | Some (Inl e) \<Rightarrow> Some (Inl e)
      | Some (Inr (inlined, res')) \<Rightarrow> resolve_rule_defs one ds (result @ inlined) res')"

fun resolve_one ::
  "nat \<Rightarrow> 'net policy_defs \<Rightarrow> string list \<Rightarrow> string \<Rightarrow> 'net resolved \<Rightarrow> 'net resolution" where
  "resolve_one 0 pd visiting name res = None"
| "resolve_one (Suc k) pd visiting name res =
     (case res name of
        Some rs \<Rightarrow> Some (Inr (rs, res))
      | None \<Rightarrow>
          if name \<in> set visiting then Some (Inl (Circular_policy name visiting))
          else (case pd name of
             None \<Rightarrow> Some (Inl (Undefined_policy name))
           | Some rule_defs \<Rightarrow>
               (case resolve_rule_defs (resolve_one k pd (visiting @ [name])) rule_defs [] res of
                  None \<Rightarrow> None
                | Some (Inl e) \<Rightarrow> Some (Inl e)
                | Some (Inr (rs, res')) \<Rightarrow> Some (Inr (rs, res'(name \<mapsto> rs))))))"

fun resolve_keys ::
  "nat \<Rightarrow> 'net policy_defs \<Rightarrow> string list \<Rightarrow> 'net resolved \<Rightarrow> (policy_error + 'net resolved) option" where
  "resolve_keys k pd [] res = Some (Inr res)"
| "resolve_keys k pd (name # names) res =
     (case resolve_one k pd [] name res of
        None \<Rightarrow> None
      | Some (Inl e) \<Rightarrow> Some (Inl e)
      | Some (Inr (_, res')) \<Rightarrow> resolve_keys k pd names res')"

definition resolve_named_policies ::
  "'net policy_defs \<Rightarrow> string list \<Rightarrow> (policy_error + 'net resolved) option" where
  "resolve_named_policies pd keys = resolve_keys (Suc (length keys)) pd keys Map.empty"

subsection \<open>Blocks of locations and listeners\<close>

definition check_tcp_predicate :: "'net predicate option \<Rightarrow> bool \<Rightarrow> policy_error + unit" where
  "check_tcp_predicate p tcp_only =
     (if \<not> tcp_only then Inr ()
      else if (case p of Some q \<Rightarrow> pred_needs_auth q | None \<Rightarrow> False) then Inl Identity_predicate
      else Inr ())"

fun check_tcp_block_rules :: "'net policy_rule list \<Rightarrow> string \<Rightarrow> policy_error + unit" where
  "check_tcp_block_rules [] name = Inr ()"
| "check_tcp_block_rules (r # rs) name =
     (if (case rule_predicate r of Some q \<Rightarrow> pred_needs_auth q | None \<Rightarrow> False)
      then Inl (Identity_in_policy name)
      else check_tcp_block_rules rs name)"

fun inline_rules ::
  "'net policy_rule_def list \<Rightarrow> 'net resolved \<Rightarrow> bool \<Rightarrow> policy_error + 'net policy_rule list" where
  "inline_rules [] named tcp_only = Inr []"
| "inline_rules (RuleDef p a # ds) named tcp_only =
     bind_result (check_tcp_predicate p tcp_only) (\<lambda>_.
       bind_result (inline_rules ds named tcp_only) (\<lambda>rs.
         Inr (\<lparr>rule_predicate = p, rule_action = a\<rparr> # rs)))"
| "inline_rules (ApplyDef name # ds) named tcp_only =
     (case named name of
        None \<Rightarrow> Inl (Undefined_policy name)
      | Some rs \<Rightarrow>
          bind_result (if tcp_only then check_tcp_block_rules rs name else Inr ()) (\<lambda>_.
            bind_result (inline_rules ds named tcp_only) (\<lambda>rest. Inr (rs @ rest))))"

definition resolve_block ::
  "'h header_ops \<Rightarrow> 'net resolved \<Rightarrow> 'net policy_rule_def list \<Rightarrow> bool \<Rightarrow>
   policy_error + 'net policy_block" where
  "resolve_block H named ds tcp_only =
     bind_result (inline_rules ds named tcp_only) (\<lambda>rs. Inr (new_block H rs))"

section \<open>Reference expansion\<close>

text \<open>The rules a name or a list of definitions stands for, if its references end.\<close>

inductive name_expands :: "'net policy_defs \<Rightarrow> string \<Rightarrow> 'net policy_rule list \<Rightarrow> bool"
  and defs_expand :: "'net policy_defs \<Rightarrow> 'net policy_rule_def list \<Rightarrow> 'net policy_rule list \<Rightarrow> bool"
  for pd
where
  expand_name: "pd name = Some ds \<Longrightarrow> defs_expand pd ds rs \<Longrightarrow> name_expands pd name rs"
| expand_nil: "defs_expand pd [] []"
| expand_rule: "defs_expand pd ds rs \<Longrightarrow>
    defs_expand pd (RuleDef p a # ds) (\<lparr>rule_predicate = p, rule_action = a\<rparr> # rs)"
| expand_apply: "name_expands pd name rs \<Longrightarrow> defs_expand pd ds rest \<Longrightarrow>
    defs_expand pd (ApplyDef name # ds) (rs @ rest)"

inductive_simps name_expands_iff: "name_expands pd name rs"
inductive_simps defs_expand_simps [simp]:
  "defs_expand pd [] rs"
  "defs_expand pd (RuleDef p a # ds) rs"
  "defs_expand pd (ApplyDef name # ds) rs"

text \<open>\<open>m\<close> is applied by the definition of \<open>n\<close>.\<close>

definition applied_by :: "'net policy_defs \<Rightarrow> string \<Rightarrow> string \<Rightarrow> bool" where
  "applied_by pd m n \<longleftrightarrow> (\<exists>ds. pd n = Some ds \<and> ApplyDef m \<in> set ds)"

lemma expansion_unique:
  shows "name_expands pd name rs \<Longrightarrow> name_expands pd name rs' \<Longrightarrow> rs = rs'"
    and "defs_expand pd ds rs \<Longrightarrow> defs_expand pd ds rs' \<Longrightarrow> rs = rs'"
proof (induction arbitrary: rs' and rs' rule: name_expands_defs_expand.inducts)
  case (expand_name name ds rs)
  then show ?case by (auto simp: name_expands_iff[of pd name])
next
  case (expand_rule ds rs p a)
  from expand_rule(3) obtain r where "rs' = \<lparr>rule_predicate = p, rule_action = a\<rparr> # r" "defs_expand pd ds r"
    by auto
  then show ?case using expand_rule(2)[of r] by simp
next
  case (expand_apply name rs ds rest)
  from expand_apply(5) obtain a b where "rs' = a @ b" "name_expands pd name a" "defs_expand pd ds b"
    by auto
  then show ?case using expand_apply(2)[of a] expand_apply(4)[of b] by simp
qed simp

lemma defs_expand_apply: "defs_expand pd ds rs \<Longrightarrow> ApplyDef m \<in> set ds \<Longrightarrow> \<exists>rs'. name_expands pd m rs'"
proof (induction ds arbitrary: rs)
  case (Cons d ds)
  then show ?case by (cases d) auto
qed simp

text \<open>A name with an expansion is on no cycle of references.\<close>

lemma expands_accp:
  shows "name_expands pd name rs \<Longrightarrow> Wellfounded.accp (applied_by pd) name"
    and "defs_expand pd ds rs \<Longrightarrow> (\<forall>m. ApplyDef m \<in> set ds \<longrightarrow> Wellfounded.accp (applied_by pd) m)"
  by (induction rule: name_expands_defs_expand.inducts)
    (auto simp: applied_by_def intro: accp.accI)

lemma accp_no_cycle: "Wellfounded.accp r x \<Longrightarrow> \<not> r\<^sup>+\<^sup>+ x x"
proof (induction rule: accp.induct)
  case (accI x)
  show ?case
  proof
    assume "r\<^sup>+\<^sup>+ x x"
    then obtain y where "r\<^sup>*\<^sup>* x y" "r y x" by (auto elim: tranclp.cases intro: tranclp_into_rtranclp)
    then have "r\<^sup>+\<^sup>+ y y" by (meson rtranclp_into_tranclp2)
    then show False using accI \<open>r y x\<close> by blast
  qed
qed

section \<open>Resolution\<close>

definition resolved_sound :: "'net policy_defs \<Rightarrow> 'net resolved \<Rightarrow> bool" where
  "resolved_sound pd res \<longleftrightarrow> (\<forall>n rs. res n = Some rs \<longrightarrow> name_expands pd n rs)"

definition one_sound :: "'net policy_defs \<Rightarrow> (string \<Rightarrow> 'net resolved \<Rightarrow> 'net resolution) \<Rightarrow> bool" where
  "one_sound pd one \<longleftrightarrow>
     (\<forall>name res rs res'. resolved_sound pd res \<longrightarrow> one name res = Some (Inr (rs, res')) \<longrightarrow>
        name_expands pd name rs \<and> resolved_sound pd res' \<and> res \<subseteq>\<^sub>m res')"

lemma resolve_rule_defs_sound:
  assumes "one_sound pd one"
  shows "resolved_sound pd res \<Longrightarrow> resolve_rule_defs one ds result res = Some (Inr (out, res')) \<Longrightarrow>
    \<exists>rs. out = result @ rs \<and> defs_expand pd ds rs \<and> resolved_sound pd res' \<and> res \<subseteq>\<^sub>m res'"
proof (induction ds arbitrary: result res)
  case (Cons d ds)
  show ?case
  proof (cases d)
    case (RuleDef p a)
    then show ?thesis using Cons.IH[OF Cons.prems(1)] Cons.prems(2) by fastforce
  next
    case (ApplyDef name)
    obtain inl res1 where r: "one name res = Some (Inr (inl, res1))"
      "resolve_rule_defs one ds (result @ inl) res1 = Some (Inr (out, res'))"
      using Cons.prems(2) ApplyDef by (auto split: option.splits sum.splits prod.splits)
    then have s: "name_expands pd name inl" "resolved_sound pd res1" "res \<subseteq>\<^sub>m res1"
      using assms Cons.prems(1) unfolding one_sound_def by blast+
    from Cons.IH[OF s(2) r(2)] s ApplyDef show ?thesis by (auto intro: map_le_trans)
  qed
qed simp

lemma resolve_one_sound: "one_sound pd (resolve_one k pd visiting)"
proof (induction k arbitrary: visiting)
  case (Suc k)
  show ?case
    unfolding one_sound_def
  proof (intro allI impI)
    fix name res rs res'
    assume ok: "resolved_sound pd res"
      and one: "resolve_one (Suc k) pd visiting name res = Some (Inr (rs, res'))"
    show "name_expands pd name rs \<and> resolved_sound pd res' \<and> res \<subseteq>\<^sub>m res'"
    proof (cases "res name")
      case None
      then obtain ds res1 where d: "pd name = Some ds"
        "resolve_rule_defs (resolve_one k pd (visiting @ [name])) ds [] res = Some (Inr (rs, res1))"
        "res' = res1(name \<mapsto> rs)"
        using one by (auto split: option.splits sum.splits if_splits prod.splits)
      from resolve_rule_defs_sound[OF Suc ok d(2)] have
        r: "defs_expand pd ds rs" "resolved_sound pd res1" "res \<subseteq>\<^sub>m res1" by auto
      then show ?thesis
        using d None by (auto simp: resolved_sound_def map_le_def name_expands_iff[of pd name] dom_def)
    qed (use one ok in \<open>auto simp: resolved_sound_def\<close>)
  qed
qed (simp add: one_sound_def)

lemma resolve_one_stored:
  "resolve_one k pd visiting name res = Some (Inr (rs, res')) \<Longrightarrow> res' name = Some rs"
  by (cases k) (auto split: option.splits sum.splits if_splits prod.splits)

text \<open>The chain of names being visited has no repetition, which bounds the depth.\<close>

lemma resolve_rule_defs_total:
  assumes "\<And>m res. \<exists>r. one m res = Some r"
  shows "\<exists>r. resolve_rule_defs one ds result res = Some r"
proof (induction ds arbitrary: result res)
  case (Cons d ds)
  show ?case
  proof (cases d)
    case (ApplyDef name)
    obtain r where "one name res = Some r" using assms by blast
    then show ?thesis using Cons ApplyDef by (cases r) auto
  qed (use Cons in auto)
qed simp

lemma resolve_one_total:
  assumes "finite (dom pd)"
  shows "distinct visiting \<Longrightarrow> set visiting \<subseteq> dom pd \<Longrightarrow> card (dom pd) < k + length visiting \<Longrightarrow>
    \<exists>r. resolve_one k pd visiting name res = Some r"
proof (induction k arbitrary: visiting name res)
  case 0
  then have "length visiting \<le> card (dom pd)"
    using card_mono[OF assms, of "set visiting"] by (simp add: distinct_card)
  then show ?case using 0 by simp
next
  case (Suc k)
  show ?case
  proof (cases "res name = None \<and> name \<notin> set visiting \<and> name \<in> dom pd")
    case True
    then obtain ds where ds: "pd name = Some ds" by auto
    have "\<exists>r. resolve_one k pd (visiting @ [name]) m res = Some r" for m res
      using Suc.IH[of "visiting @ [name]"] Suc.prems True by auto
    from resolve_rule_defs_total[of "resolve_one k pd (visiting @ [name])", OF this]
    obtain r where "resolve_rule_defs (resolve_one k pd (visiting @ [name])) ds [] res = Some r" by blast
    then show ?thesis using True ds by (cases r) auto
  qed (auto split: option.splits)
qed

text \<open>A name with an expansion is resolved without error.\<close>

lemma resolve_rule_defs_no_error:
  assumes "\<And>m res e. ApplyDef m \<in> set ds \<Longrightarrow> one m res \<noteq> Some (Inl e)"
  shows "resolve_rule_defs one ds result res \<noteq> Some (Inl e)"
  using assms
proof (induction ds arbitrary: result res)
  case (Cons d ds)
  then show ?case by (cases d) (auto split: option.splits sum.splits prod.splits)
qed simp

lemma resolve_one_no_error:
  assumes "name_expands pd name rs" "\<forall>v \<in> set visiting. (applied_by pd)\<^sup>+\<^sup>+ name v"
  shows "resolve_one k pd visiting name res \<noteq> Some (Inl e)"
  using assms
proof (induction k arbitrary: visiting name rs res e)
  case (Suc k)
  have "name \<notin> set visiting"
    using Suc.prems(2) accp_no_cycle[OF expands_accp(1)[OF Suc.prems(1)]] by blast
  moreover obtain ds where ds: "pd name = Some ds" "defs_expand pd ds rs"
    using Suc.prems(1) by (auto simp: name_expands_iff)
  have "resolve_rule_defs (resolve_one k pd (visiting @ [name])) ds [] res \<noteq> Some (Inl e')" for e'
  proof (rule resolve_rule_defs_no_error)
    fix m res e assume m: "ApplyDef m \<in> set ds"
    then have "applied_by pd m name" using ds(1) by (auto simp: applied_by_def)
    then have "\<forall>v \<in> set (visiting @ [name]). (applied_by pd)\<^sup>+\<^sup>+ m v"
      using Suc.prems(2) by (auto intro: tranclp_into_tranclp2)
    then show "resolve_one k pd (visiting @ [name]) m res \<noteq> Some (Inl e)"
      using defs_expand_apply[OF ds(2) m] Suc.IH by blast
  qed
  ultimately show ?case
    using ds(1) by (auto split: option.splits sum.splits prod.splits)
qed simp

lemma resolve_keys_ok:
  assumes "resolved_sound pd res" "resolve_keys k pd names res = Some (Inr out)"
  shows "resolved_sound pd out \<and> res \<subseteq>\<^sub>m out \<and> set names \<subseteq> dom out"
  using assms
proof (induction names arbitrary: res)
  case (Cons n ns)
  obtain rs res1 where r: "resolve_one k pd [] n res = Some (Inr (rs, res1))"
    "resolve_keys k pd ns res1 = Some (Inr out)"
    using Cons.prems(2) by (auto split: option.splits sum.splits prod.splits)
  have s: "resolved_sound pd res1" "res \<subseteq>\<^sub>m res1"
    using resolve_one_sound[of pd k "[]"] Cons.prems(1) r(1) unfolding one_sound_def by blast+
  from Cons.IH[OF s(1) r(2)] show ?case
    using s(2) resolve_one_stored[OF r(1)] by (auto simp: map_le_def intro: map_le_trans) (metis domI)+
qed simp

lemma resolve_keys_no_error:
  assumes "\<forall>n \<in> set names. \<exists>rs. name_expands pd n rs"
  shows "resolve_keys k pd names res \<noteq> Some (Inl e)"
  using assms
proof (induction names arbitrary: res)
  case (Cons n ns)
  then have "resolve_one k pd [] n res \<noteq> Some (Inl e')" for e'
    using resolve_one_no_error[of pd n _ "[]"] by auto
  then show ?case using Cons by (auto split: option.splits sum.splits prod.splits)
qed simp

lemma resolve_keys_total:
  assumes "finite (dom pd)" "card (dom pd) < k"
  shows "\<exists>r. resolve_keys k pd names res = Some r"
proof (induction names arbitrary: res)
  case (Cons n ns)
  obtain r where "resolve_one k pd [] n res = Some r"
    using resolve_one_total[OF assms(1), of "[]" k n res] assms(2) by auto
  then show ?case using Cons by (cases r) auto
qed simp

section \<open>Inlining\<close>

lemma check_tcp_block_rules_Inr:
  "check_tcp_block_rules rs name = Inr u \<longleftrightarrow>
     (\<forall>r \<in> set rs. \<forall>p. rule_predicate r = Some p \<longrightarrow> \<not> pred_needs_auth p)"
  by (induction rs) (auto split: option.splits)

lemma inline_rules_expand:
  assumes "\<And>n rs. named n = Some rs \<longleftrightarrow> name_expands pd n rs"
  shows "inline_rules ds named tcp = Inr rs \<Longrightarrow> defs_expand pd ds rs
    \<and> (tcp \<longrightarrow> (\<forall>r \<in> set rs. \<forall>p. rule_predicate r = Some p \<longrightarrow> \<not> pred_needs_auth p))"
proof (induction ds arbitrary: rs)
  case (Cons d ds)
  then show ?case
    by (cases d)
      (auto simp: res_simps check_tcp_predicate_def check_tcp_block_rules_Inr assms
        split: if_splits option.splits)
qed simp

lemma inline_rules_total:
  assumes "\<And>n rs. named n = Some rs \<longleftrightarrow> name_expands pd n rs"
  shows "defs_expand pd ds rs \<Longrightarrow> inline_rules ds named False = Inr rs"
proof (induction ds arbitrary: rs)
  case (Cons d ds)
  then show ?case
    by (cases d) (auto simp: check_tcp_predicate_def assms[symmetric])
qed simp

lemma inline_rules_no_auth:
  "inline_rules ds named True = Inr rs \<Longrightarrow>
     \<forall>r \<in> set rs. \<forall>p. rule_predicate r = Some p \<longrightarrow> \<not> pred_needs_auth p"
proof (induction ds arbitrary: rs)
  case (Cons d ds)
  then show ?case
    by (cases d)
      (auto simp: res_simps check_tcp_predicate_def check_tcp_block_rules_Inr
        split: if_splits option.splits)
qed simp

lemma resolve_named_policies_ok:
  assumes "set keys = dom pd" "resolve_named_policies pd keys = Some (Inr named)"
  shows "named n = Some rs \<longleftrightarrow> name_expands pd n rs"
proof -
  have ok: "resolved_sound pd named" "set keys \<subseteq> dom named"
    using resolve_keys_ok[OF _ assms(2)[unfolded resolve_named_policies_def]]
    by (auto simp: resolved_sound_def)
  show ?thesis
  proof
    assume ex: "name_expands pd n rs"
    then have "n \<in> dom pd" by (auto simp: name_expands_iff)
    then obtain rs' where "named n = Some rs'" using ok(2) assms(1) by auto
    moreover from this have "rs' = rs"
      using ok(1) ex expansion_unique(1)[of pd n rs' rs] by (simp add: resolved_sound_def)
    ultimately show "named n = Some rs" by simp
  qed (use ok(1) in \<open>auto simp: resolved_sound_def\<close>)
qed

section \<open>Properties\<close>

text \<open>
  C8. Named policies are resolved exactly, whatever order the map is iterated in: resolution always
  returns; it succeeds if and only if the references of every policy end (none is circular or
  undefined); and then each name is bound to its expansion, and to nothing else.
\<close>

theorem policy_resolution_exact:
  assumes "set keys = dom pd" "distinct keys"
  shows "(\<exists>r. resolve_named_policies pd keys = Some r) \<and>
    ((\<exists>named. resolve_named_policies pd keys = Some (Inr named)) \<longleftrightarrow>
       (\<forall>n \<in> dom pd. \<exists>rs. name_expands pd n rs)) \<and>
    (\<forall>named. resolve_named_policies pd keys = Some (Inr named) \<longrightarrow>
       (\<forall>n rs. named n = Some rs \<longleftrightarrow> name_expands pd n rs))"
proof -
  have fin: "finite (dom pd)" using assms(1) by (metis finite_set)
  have "card (dom pd) < Suc (length keys)" using assms by (metis distinct_card lessI)
  then obtain r where r: "resolve_named_policies pd keys = Some r"
    using resolve_keys_total[OF fin] unfolding resolve_named_policies_def by blast
  have err: "\<not> (\<forall>n \<in> dom pd. \<exists>rs. name_expands pd n rs)" if "r = Inl e" for e
    using resolve_keys_no_error[of keys pd "Suc (length keys)" Map.empty e] r that assms(1)
    unfolding resolve_named_policies_def by blast
  have ok: "\<exists>rs. name_expands pd n rs" if "r = Inr named" "n \<in> dom pd" for named n
  proof -
    have "resolved_sound pd named" "n \<in> dom named"
      using resolve_keys_ok[of pd Map.empty "Suc (length keys)" keys named] r that assms(1)
      unfolding resolve_named_policies_def by (auto simp: resolved_sound_def)
    then show ?thesis by (auto simp: resolved_sound_def)
  qed
  show ?thesis
    using r err ok resolve_named_policies_ok[OF assms(1)] by (cases r) auto
qed

definition sample_policies :: "string policy_defs" where
  "sample_policies =
     [''base'' \<mapsto> [RuleDef (Some (PAddress [''10.0.0.0/8''])) AAllow],
      ''site'' \<mapsto> [ApplyDef ''base'', RuleDef None (ADeny 403)]]"

theorem policy_resolution_exact_witness:
  "\<exists>named. resolve_named_policies sample_policies [''site'', ''base''] = Some (Inr named) \<and>
     name_expands sample_policies ''site''
       [\<lparr>rule_predicate = Some (PAddress [''10.0.0.0/8'']), rule_action = AAllow\<rparr>,
        \<lparr>rule_predicate = None, rule_action = ADeny 403\<rparr>]"
proof -
  let ?r = "resolve_named_policies sample_policies [''site'', ''base'']"
  have keys: "set [''site'', ''base''] = dom sample_policies" "distinct [''site'', ''base'']"
    by (auto simp: sample_policies_def)
  have "case ?r of Some (Inr named) \<Rightarrow> named ''site'' =
      Some [\<lparr>rule_predicate = Some (PAddress [''10.0.0.0/8'']), rule_action = AAllow\<rparr>,
            \<lparr>rule_predicate = None, rule_action = ADeny 403\<rparr>] | _ \<Rightarrow> False"
    by code_simp
  then show ?thesis
    using policy_resolution_exact[OF keys] by (auto split: option.splits sum.splits)
qed

text \<open>
  The rules of a location's block are the expansion of its definitions: with the resolved named
  policies, inlining succeeds exactly when the references of the block end, and yields its
  expansion in declaration order.
\<close>

theorem inline_rules_exact:
  assumes "set keys = dom pd" "resolve_named_policies pd keys = Some (Inr named)"
  shows "inline_rules ds named False = Inr rs \<longleftrightarrow> defs_expand pd ds rs"
  using inline_rules_expand[of named pd ds False rs] inline_rules_total[of named pd ds rs]
    resolve_named_policies_ok[OF assms] by blast

theorem inline_rules_exact_witness:
  "\<exists>named. resolve_named_policies sample_policies [''base'', ''site''] = Some (Inr named) \<and>
     (\<exists>rs. inline_rules [ApplyDef ''base''] named False = Inr rs \<and>
           defs_expand sample_policies [ApplyDef ''base''] rs)"
proof -
  have keys: "set [''base'', ''site''] = dom sample_policies" by (auto simp: sample_policies_def)
  have "case resolve_named_policies sample_policies [''base'', ''site''] of
      Some (Inr named) \<Rightarrow> (case inline_rules [ApplyDef ''base''] named False of Inr _ \<Rightarrow> True | _ \<Rightarrow> False)
    | _ \<Rightarrow> False"
    by code_simp
  then obtain named rs where "resolve_named_policies sample_policies [''base'', ''site''] = Some (Inr named)"
    "inline_rules [ApplyDef ''base''] named False = Inr rs"
    by (auto split: option.splits sum.splits)
  then show ?thesis using inline_rules_exact[OF keys, of named "[ApplyDef ''base'']" rs] by blast
qed

text \<open>
  A block accepted for a stream listener never asks for an identity: its evaluation makes no
  call to the authentication provider and has the same outcome for every client identity.
\<close>

theorem stream_block_no_auth:
  assumes "resolve_block H named ds True = Inr b"
  shows "ec_calls (snd (evaluate H nc auth b (new_context peer country))) = 0 \<and>
    fst (evaluate H nc auth b (new_context peer country)) =
    fst (evaluate H nc auth' b (new_context peer country))"
proof (rule evaluate_no_auth)
  obtain rs where "inline_rules ds named True = Inr rs" "b = new_block H rs"
    using assms by (auto simp: resolve_block_def res_simps)
  then show "\<forall>r \<in> set (rules b). \<forall>p. rule_predicate r = Some p \<longrightarrow> \<not> pred_needs_auth p"
    using inline_rules_no_auth[of ds named rs] by (simp add: new_block_def assemble_block_def)
qed

theorem stream_block_no_auth_witness:
  "\<exists>b. resolve_block list_headers (Map.empty :: string resolved)
         [RuleDef (Some (PAddress [''10.0.0.0/8''])) AAllow] True = Inr b \<and>
     ec_calls (snd (evaluate list_headers sample_nets (\<lambda>_. Anonymous) b (new_context (V4 1) None))) = 0"
proof -
  have "\<exists>b. resolve_block list_headers (Map.empty :: string resolved)
         [RuleDef (Some (PAddress [''10.0.0.0/8''])) AAllow] True = Inr b"
    by (simp add: resolve_block_def check_tcp_predicate_def)
  then show ?thesis using stream_block_no_auth by blast
qed

end
