(* ===== verification/Rate_Limit.thy ===== *)
theory Rate_Limit
  imports Complex_Main "HOL-Library.AList" Variables
begin

text \<open>
  The token-bucket rate limiter (\<open>rate_limit.rs\<close>): one bucket per key string, refilled on
  access, with a sweep that drops buckets that are idle and full.

  Instants are nanoseconds on the monotonic clock, so \<open>saturating_duration_since\<close> is the
  subtraction of natural numbers. The \<open>f64\<close> token counts are real numbers: rounding is not
  modelled. The \<open>HashMap\<close> behind the mutex is an association list with distinct keys; each
  operation runs under the lock, so a run of the limiter is a sequence of operations.
\<close>

section \<open>Definitions\<close>

datatype rate_limit_key = KClientIp | KUser | KHeader string

record bucket =
  tokens :: real
  last_refill :: nat

record rate_limit_rule =
  rl_name :: string
  rate_per_sec :: real
  burst :: real
  rl_key :: rate_limit_key
  rl_state :: "(string \<times> bucket) list"

datatype rate_limit_outcome = RlAllow | RlDeny nat

definition new_rate_limit_rule :: "string \<Rightarrow> real \<Rightarrow> real \<Rightarrow> rate_limit_key \<Rightarrow> rate_limit_rule" where
  "new_rate_limit_rule name rate b key =
     \<lparr>rl_name = name, rate_per_sec = rate, burst = b, rl_key = key, rl_state = []\<rparr>"

definition key_string ::
  "'h header_ops \<Rightarrow> rate_limit_rule \<Rightarrow> request_context \<Rightarrow> 'h \<Rightarrow> string" where
  "key_string H r cx headers =
     (case rl_key r of
        KClientIp \<Rightarrow> cx_client_ip cx
      | KUser \<Rightarrow> cx_username cx
      | KHeader name \<Rightarrow> (case hm_get_str H headers name of Some v \<Rightarrow> v | None \<Rightarrow> []))"

definition secs_f64 :: "nat \<Rightarrow> real" where
  "secs_f64 ns = real ns / 1000000000"

text \<open>A float-to-integer cast saturates at both ends.\<close>

definition real_to_u32 :: "real \<Rightarrow> nat" where
  "real_to_u32 x = min (nat \<lfloor>x\<rfloor>) u32_max"

definition check_key ::
  "rate_limit_rule \<Rightarrow> string \<Rightarrow> nat \<Rightarrow> rate_limit_outcome \<times> rate_limit_rule" where
  "check_key r key now =
     (let entry = (case map_of (rl_state r) key of
                     Some e \<Rightarrow> e
                   | None \<Rightarrow> \<lparr>tokens = burst r, last_refill = now\<rparr>);
          elapsed = secs_f64 (now - last_refill entry);
          refilled = min (tokens entry + elapsed * rate_per_sec r) (burst r);
          store = (\<lambda>t. r\<lparr>rl_state := AList.update key \<lparr>tokens = t, last_refill = now\<rparr> (rl_state r)\<rparr>)
      in if refilled \<ge> 1 then (RlAllow, store (refilled - 1))
         else
           (let need = max (1 - refilled) 0;
                secs = (if rate_per_sec r > 0 then real_to_u32 \<lceil>need / rate_per_sec r\<rceil> else u32_max)
            in (RlDeny (max secs 1), store refilled)))"

definition check_at ::
  "'h header_ops \<Rightarrow> rate_limit_rule \<Rightarrow> request_context \<Rightarrow> 'h \<Rightarrow> nat \<Rightarrow>
   rate_limit_outcome \<times> rate_limit_rule" where
  "check_at H r cx headers now = check_key r (key_string H r cx headers) now"

definition retained :: "rate_limit_rule \<Rightarrow> nat \<Rightarrow> nat \<Rightarrow> bucket \<Rightarrow> bool" where
  "retained r idle_threshold now e =
     (let elapsed = now - last_refill e
      in elapsed < idle_threshold \<or>
         min (tokens e + secs_f64 elapsed * rate_per_sec r) (burst r) < burst r)"

definition bucket_count :: "rate_limit_rule \<Rightarrow> nat" where
  "bucket_count r = length (rl_state r)"

definition evict_idle_at :: "rate_limit_rule \<Rightarrow> nat \<Rightarrow> nat \<Rightarrow> nat \<times> rate_limit_rule" where
  "evict_idle_at r idle_threshold now =
     (let st = filter (\<lambda>p. retained r idle_threshold now (snd p)) (rl_state r)
      in (bucket_count r - length st, r\<lparr>rl_state := st\<rparr>))"

text \<open>One tick of the eviction task over the current rule set: the sweep and the gauge.\<close>

definition eviction_tick :: "nat \<Rightarrow> rate_limit_rule list \<Rightarrow> rate_limit_rule list \<times> nat" where
  "eviction_tick now rs =
     (let rs' = map (\<lambda>r. snd (evict_idle_at r (600 * 1000000000) now)) rs
      in (rs', sum_list (map bucket_count rs')))"

section \<open>Runs\<close>

text \<open>The operations on one rule, with the instant each one runs at.\<close>

datatype rl_op = OpCheck string nat | OpEvict nat nat

fun op_time :: "rl_op \<Rightarrow> nat" where
  "op_time (OpCheck _ t) = t"
| "op_time (OpEvict _ t) = t"

fun rl_step :: "rl_op \<Rightarrow> rate_limit_rule \<Rightarrow> rate_limit_outcome option \<times> rate_limit_rule" where
  "rl_step (OpCheck k t) r = (case check_key r k t of (out, r') \<Rightarrow> (Some out, r'))"
| "rl_step (OpEvict idle t) r = (None, snd (evict_idle_at r idle t))"

fun rl_run :: "rl_op list \<Rightarrow> rate_limit_rule \<Rightarrow> rate_limit_outcome option list \<times> rate_limit_rule" where
  "rl_run [] r = ([], r)"
| "rl_run (op # ops) r =
     (let (out, r') = rl_step op r; (outs, r'') = rl_run ops r' in (out # outs, r''))"

text \<open>How many checks of a key a run allowed.\<close>

definition allowed :: "string \<Rightarrow> rl_op list \<Rightarrow> rate_limit_outcome option list \<Rightarrow> nat" where
  "allowed k ops outs =
     length (filter (\<lambda>p. (case fst p of OpCheck k' _ \<Rightarrow> k' = k | _ \<Rightarrow> False) \<and> snd p = Some RlAllow)
       (zip ops outs))"

section \<open>The abstract limiter\<close>

text \<open>
  The specification keeps, for every key and instant, the level its bucket would have then. A
  check is allowed if and only if the level is at least one token, and takes one token from it.
\<close>

definition level :: "rate_limit_rule \<Rightarrow> string \<Rightarrow> nat \<Rightarrow> real" where
  "level r k t =
     (case map_of (rl_state r) k of
        None \<Rightarrow> burst r
      | Some e \<Rightarrow> min (tokens e + secs_f64 (t - last_refill e) * rate_per_sec r) (burst r))"

definition rl_wf :: "nat \<Rightarrow> rate_limit_rule \<Rightarrow> bool" where
  "rl_wf now r \<longleftrightarrow> 0 \<le> rate_per_sec r \<and> 0 \<le> burst r \<and> distinct (map fst (rl_state r)) \<and>
     (\<forall>k e. map_of (rl_state r) k = Some e \<longrightarrow>
        0 \<le> tokens e \<and> tokens e \<le> burst r \<and> last_refill e \<le> now)"

lemma secs_f64_nonneg [simp]: "0 \<le> secs_f64 n"
  by (simp add: secs_f64_def)

lemma secs_f64_add: "secs_f64 (a + b) = secs_f64 a + secs_f64 b"
  by (simp add: secs_f64_def add_divide_distrib)

lemma secs_f64_0 [simp]: "secs_f64 0 = 0"
  by (simp add: secs_f64_def)

lemma rl_wf_lookup:
  assumes "rl_wf now r" "map_of (rl_state r) k = Some e"
  shows "0 \<le> tokens e" "tokens e \<le> burst r" "last_refill e \<le> now"
  using assms by (auto simp: rl_wf_def)

lemma level_bounds:
  assumes "rl_wf now r"
  shows "0 \<le> level r k t" "level r k t \<le> burst r"
  using assms rl_wf_lookup[OF assms]
  by (auto simp: level_def rl_wf_def split: option.splits intro!: add_nonneg_nonneg mult_nonneg_nonneg)

text \<open>Between operations a level grows by at most the rate.\<close>

lemma level_growth:
  assumes "rl_wf now r" "now \<le> t" "t \<le> u"
  shows "level r k u \<le> level r k t + secs_f64 (u - t) * rate_per_sec r"
proof (cases "map_of (rl_state r) k")
  case None
  then show ?thesis using assms by (simp add: level_def rl_wf_def)
next
  case (Some e)
  have l: "last_refill e \<le> t" using rl_wf_lookup(3)[OF assms(1) Some] assms(2) by simp
  then have "secs_f64 (u - last_refill e) = secs_f64 (t - last_refill e) + secs_f64 (u - t)"
    using assms(3) secs_f64_add[of "t - last_refill e" "u - t"] by simp
  moreover have "0 \<le> secs_f64 (u - t) * rate_per_sec r" using assms(1) by (simp add: rl_wf_def)
  ultimately show ?thesis using Some by (simp add: level_def min_def algebra_simps)
qed

lemma check_key_level:
  "check_key r k now =
     (if level r k now \<ge> 1
      then (RlAllow, r\<lparr>rl_state := AList.update k \<lparr>tokens = level r k now - 1, last_refill = now\<rparr> (rl_state r)\<rparr>)
      else (RlDeny (max (if rate_per_sec r > 0
                         then real_to_u32 \<lceil>max (1 - level r k now) 0 / rate_per_sec r\<rceil> else u32_max) 1),
            r\<lparr>rl_state := AList.update k \<lparr>tokens = level r k now, last_refill = now\<rparr> (rl_state r)\<rparr>))"
  by (auto simp: check_key_def level_def Let_def min_def split: option.split)

lemma level_update:
  "level (r\<lparr>rl_state := AList.update k e (rl_state r)\<rparr>) j t =
     (if j = k then min (tokens e + secs_f64 (t - last_refill e) * rate_per_sec r) (burst r)
      else level r j t)"
  by (simp add: level_def AList.update_conv' split: option.split)

lemma check_key_levels:
  assumes "rl_wf now r" "check_key r k now = (out, r')"
  shows "level r' j now = level r j now - (if j = k \<and> out = RlAllow then 1 else 0)"
    "rate_per_sec r' = rate_per_sec r" "burst r' = burst r" "out = RlAllow \<longleftrightarrow> level r k now \<ge> 1"
  using assms(2) level_bounds[OF assms(1), of k now]
  by (auto simp: check_key_level level_update min_def split: if_splits)

lemma rl_wf_later: "rl_wf now r \<Longrightarrow> now \<le> t \<Longrightarrow> rl_wf t r"
  unfolding rl_wf_def using le_trans by blast

lemma check_key_wf:
  assumes "rl_wf now r" "now \<le> t" "check_key r k t = (out, r')"
  shows "rl_wf t r'"
proof -
  have "rl_wf t r" using assms(1,2) by (rule rl_wf_later)
  moreover obtain x where "r' = r\<lparr>rl_state := AList.update k \<lparr>tokens = x, last_refill = t\<rparr> (rl_state r)\<rparr>"
    "0 \<le> x" "x \<le> burst r"
    using assms(3) level_bounds[OF \<open>rl_wf t r\<close>, of k t]
    by (cases "1 \<le> level r k t")
      (auto simp: check_key_level intro: that[of "level r k t - 1"] that[of "level r k t"])
  ultimately show ?thesis
    by (auto simp: rl_wf_def AList.update_conv' AList.distinct_update)
qed

lemma map_of_filter_snd:
  "distinct (map fst xs) \<Longrightarrow>
   map_of (filter (\<lambda>p. P (snd p)) xs) k =
     (case map_of xs k of Some e \<Rightarrow> if P e then Some e else None | None \<Rightarrow> None)"
proof (induction xs)
  case (Cons x xs)
  then have "map_of xs (fst x) = None" by (simp add: map_of_eq_None_iff)
  then show ?case using Cons by (auto split: option.splits)
qed simp

text \<open>A bucket that is dropped would be full from then on: the sweep changes no level.\<close>

lemma evict_levels:
  assumes "rl_wf now r" "now \<le> t"
  shows "level (snd (evict_idle_at r idle now)) k t = level r k t"
proof (cases "map_of (rl_state r) k")
  case (Some e)
  have d: "distinct (map fst (rl_state r))" using assms(1) by (simp add: rl_wf_def)
  note look = map_of_filter_snd[OF d, of "retained r idle now" k]
  show ?thesis
  proof (cases "retained r idle now e")
    case False
    then have "burst r \<le> tokens e + secs_f64 (now - last_refill e) * rate_per_sec r"
      by (auto simp: retained_def Let_def min_def split: if_splits)
    moreover have "secs_f64 (now - last_refill e) * rate_per_sec r
        \<le> secs_f64 (t - last_refill e) * rate_per_sec r"
      using assms by (intro mult_right_mono) (simp_all add: secs_f64_def rl_wf_def divide_right_mono)
    ultimately show ?thesis
      using Some False look by (simp add: level_def evict_idle_at_def Let_def)
  qed (use Some look in \<open>simp add: level_def evict_idle_at_def Let_def\<close>)
qed (use assms(1) map_of_filter_snd[of "rl_state r" "retained r idle now" k]
     in \<open>simp add: level_def evict_idle_at_def Let_def rl_wf_def\<close>)

lemma evict_wf:
  assumes "rl_wf now r" "now \<le> t"
  shows "rl_wf t (snd (evict_idle_at r idle t))"
    "rate_per_sec (snd (evict_idle_at r idle t)) = rate_per_sec r"
    "burst (snd (evict_idle_at r idle t)) = burst r"
proof -
  have d: "distinct (map fst (rl_state r))" using assms(1) by (simp add: rl_wf_def)
  then have "distinct (map fst (filter (\<lambda>p. retained r idle t (snd p)) (rl_state r)))"
    by (simp add: distinct_map_filter)
  then show "rl_wf t (snd (evict_idle_at r idle t))"
    using rl_wf_later[OF assms] map_of_filter_snd[OF d, of "retained r idle t"]
    by (auto simp: rl_wf_def evict_idle_at_def Let_def split: option.splits if_splits)
qed (simp_all add: evict_idle_at_def Let_def)

lemma rl_step_ok:
  assumes "rl_wf now r" "now \<le> op_time op" "rl_step op r = (out, r')"
  shows "rl_wf (op_time op) r'" "rate_per_sec r' = rate_per_sec r" "burst r' = burst r"
    "level r' k (op_time op) = level r k (op_time op)
       - (if (case op of OpCheck k' _ \<Rightarrow> k' = k | _ \<Rightarrow> False) \<and> out = Some RlAllow then 1 else 0)"
proof -
  have w: "rl_wf (op_time op) r" using assms(1,2) by (rule rl_wf_later)
  have "rl_wf (op_time op) r' \<and> rate_per_sec r' = rate_per_sec r \<and> burst r' = burst r \<and>
    level r' k (op_time op) = level r k (op_time op)
       - (if (case op of OpCheck k' _ \<Rightarrow> k' = k | _ \<Rightarrow> False) \<and> out = Some RlAllow then 1 else 0)"
  proof (cases op)
    case (OpCheck j t)
    obtain o1 where c: "check_key r j t = (o1, r')" "out = Some o1"
      using assms(3) OpCheck by (cases "check_key r j t") simp
    have wt: "rl_wf t r" using w OpCheck by simp
    show ?thesis
      using check_key_wf[OF wt order_refl c(1)] check_key_levels[OF wt c(1)] OpCheck c(2) by auto
  next
    case (OpEvict idle t)
    then have wt: "rl_wf t r" and r': "r' = snd (evict_idle_at r idle t)" "out = None"
      using w assms(3) by simp_all
    show ?thesis
      using evict_wf[OF wt order_refl, of idle] evict_levels[OF wt order_refl, of idle k] OpEvict r'
      by simp
  qed
  then show "rl_wf (op_time op) r'" "rate_per_sec r' = rate_per_sec r" "burst r' = burst r"
    "level r' k (op_time op) = level r k (op_time op)
       - (if (case op of OpCheck k' _ \<Rightarrow> k' = k | _ \<Rightarrow> False) \<and> out = Some RlAllow then 1 else 0)"
    by blast+
qed

lemma rl_run_bound:
  assumes "rl_wf now r" "sorted (now # map op_time ops @ [u])" "rl_run ops r = (outs, r')"
  shows "real (allowed k ops outs) + level r' k u \<le> level r k now + secs_f64 (u - now) * rate_per_sec r
    \<and> rl_wf u r' \<and> rate_per_sec r' = rate_per_sec r \<and> burst r' = burst r"
  using assms
proof (induction ops arbitrary: now r outs)
  case Nil
  then have "rl_wf u r" using rl_wf_later by simp
  then show ?case using Nil level_growth[OF Nil(1), of now u k] by (auto simp: allowed_def)
next
  case (Cons op ops)
  obtain out r1 outs1 where st: "rl_step op r = (out, r1)" "rl_run ops r1 = (outs1, r')" "outs = out # outs1"
    using Cons.prems(3) by (auto simp: Let_def split: prod.splits)
  let ?t = "op_time op"
  have t: "now \<le> ?t" "?t \<le> u" "sorted (?t # map op_time ops @ [u])" using Cons.prems(2) by auto
  note ok = rl_step_ok[OF Cons.prems(1) t(1) st(1)]
  have g: "level r k ?t \<le> level r k now + secs_f64 (?t - now) * rate_per_sec r"
    using level_growth[OF Cons.prems(1) order_refl t(1)] .
  have "secs_f64 (u - now) = secs_f64 (?t - now) + secs_f64 (u - ?t)"
    using secs_f64_add[of "?t - now" "u - ?t"] t by simp
  moreover have "real (allowed k (op # ops) outs) = real (allowed k ops outs1)
      + (if (case op of OpCheck k' _ \<Rightarrow> k' = k | _ \<Rightarrow> False) \<and> out = Some RlAllow then 1 else 0)"
    using st(3) by (simp add: allowed_def)
  ultimately show ?case
    using Cons.IH[OF ok(1) t(3) st(2)] ok(2,3) ok(4)[of k] g by (simp add: algebra_simps)
qed

text \<open>Two states of a rule that no later check can tell apart.\<close>

definition same_levels :: "nat \<Rightarrow> rate_limit_rule \<Rightarrow> rate_limit_rule \<Rightarrow> bool" where
  "same_levels now r s \<longleftrightarrow> rate_per_sec r = rate_per_sec s \<and> burst r = burst s \<and>
     (\<forall>k t. now \<le> t \<longrightarrow> level r k t = level s k t)"

lemma same_levels_check:
  assumes "same_levels now r s" "now \<le> t" "check_key r k t = (out, r')" "check_key s k t = (out', s')"
  shows "out = out' \<and> same_levels t r' s'"
  using assms by (auto simp: same_levels_def check_key_level level_update split: if_splits)

lemma same_levels_evict:
  assumes "rl_wf now r" "same_levels now r s" "now \<le> t"
  shows "same_levels t (snd (evict_idle_at r idle t)) s"
proof -
  have w: "rl_wf t r" using assms(1,3) by (rule rl_wf_later)
  show ?thesis
    using evict_levels[OF w, of _ idle] evict_wf(2,3)[OF w order_refl, of idle] assms(2,3)
    by (auto simp: same_levels_def)
qed

definition is_check :: "rl_op \<Rightarrow> bool" where
  "is_check op = (case op of OpCheck _ _ \<Rightarrow> True | _ \<Rightarrow> False)"

lemma fst_rl_run:
  "fst (rl_run (op # ops) r) = fst (rl_step op r) # fst (rl_run ops (snd (rl_step op r)))"
  by (simp add: Let_def case_prod_beta)

lemma rl_run_transparent:
  assumes "rl_wf now r" "same_levels now r s" "sorted (now # map op_time ops)"
  shows "filter (\<lambda>x. x \<noteq> None) (fst (rl_run ops r)) = fst (rl_run (filter is_check ops) s)"
  using assms
proof (induction ops arbitrary: now r s)
  case (Cons op ops)
  let ?t = "op_time op"
  have t: "now \<le> ?t" "sorted (?t # map op_time ops)" using Cons.prems(3) by auto
  show ?case
  proof (cases op)
    case (OpCheck k u)
    obtain o1 r1 o2 s1 where c: "check_key r k u = (o1, r1)" "check_key s k u = (o2, s1)" by fastforce
    have t': "now \<le> u" "sorted (u # map op_time ops)" using t OpCheck by simp_all
    have "o1 = o2" "same_levels u r1 s1" using same_levels_check[OF Cons.prems(2) t'(1) c] by auto
    then show ?thesis
      using Cons.IH[OF check_key_wf[OF Cons.prems(1) t'(1) c(1)] _ t'(2), of s1] OpCheck c
      by (simp add: is_check_def fst_rl_run del: rl_run.simps)
  next
    case (OpEvict idle u)
    have t': "now \<le> u" "sorted (u # map op_time ops)" using t OpEvict by simp_all
    show ?thesis
      using Cons.IH[OF evict_wf(1)[OF Cons.prems(1) t'(1)] same_levels_evict[OF Cons.prems(1,2) t'(1)] t'(2)]
        OpEvict by (simp add: is_check_def fst_rl_run del: rl_run.simps)
  qed
qed simp

section \<open>Properties\<close>


definition sample_rule :: rate_limit_rule where
  "sample_rule = new_rate_limit_rule ''api'' (1/2) 2 KClientIp"

definition sample_ops :: "rl_op list" where
  "sample_ops = [OpCheck ''a'' 0, OpCheck ''a'' 1000000000, OpCheck ''a'' 1000000000,
                 OpEvict 600000000000 900000000000, OpCheck ''a'' 900000000000]"

lemmas sample_eval = sample_rule_def new_rate_limit_rule_def check_key_level level_def secs_f64_def
  evict_idle_at_def retained_def real_to_u32_def

lemma sample_steps:
  "rl_step (OpCheck ''a'' 0) sample_rule =
     (Some RlAllow, sample_rule\<lparr>rl_state := [(''a'', \<lparr>tokens = 1, last_refill = 0\<rparr>)]\<rparr>)"
  "rl_step (OpCheck ''a'' 1000000000) (sample_rule\<lparr>rl_state := [(''a'', \<lparr>tokens = 1, last_refill = 0\<rparr>)]\<rparr>) =
     (Some RlAllow, sample_rule\<lparr>rl_state := [(''a'', \<lparr>tokens = 1/2, last_refill = 1000000000\<rparr>)]\<rparr>)"
  "rl_step (OpCheck ''a'' 1000000000)
     (sample_rule\<lparr>rl_state := [(''a'', \<lparr>tokens = 1/2, last_refill = 1000000000\<rparr>)]\<rparr>) =
     (Some (RlDeny 1), sample_rule\<lparr>rl_state := [(''a'', \<lparr>tokens = 1/2, last_refill = 1000000000\<rparr>)]\<rparr>)"
  "rl_step (OpEvict 600000000000 900000000000)
     (sample_rule\<lparr>rl_state := [(''a'', \<lparr>tokens = 1/2, last_refill = 1000000000\<rparr>)]\<rparr>) =
     (None, sample_rule\<lparr>rl_state := []\<rparr>)"
  "rl_step (OpCheck ''a'' 900000000000) (sample_rule\<lparr>rl_state := []\<rparr>) =
     (Some RlAllow, sample_rule\<lparr>rl_state := [(''a'', \<lparr>tokens = 1, last_refill = 900000000000\<rparr>)]\<rparr>)"
  by (simp_all add: sample_eval)


text \<open>
  C10. The sweep of idle buckets is transparent: a run answers every check as the same run without
  any sweep does, whatever idle threshold the sweeps use.
\<close>

theorem eviction_transparent:
  assumes "rl_wf now r" "sorted (now # map op_time ops)"
  shows "filter (\<lambda>x. x \<noteq> None) (fst (rl_run ops r)) = fst (rl_run (filter is_check ops) r)"
  using rl_run_transparent[OF assms(1) _ assms(2), of r] by (simp add: same_levels_def)

theorem eviction_transparent_witness:
  "rl_wf 0 sample_rule \<and>
   filter (\<lambda>x. x \<noteq> None) (fst (rl_run sample_ops sample_rule)) =
     fst (rl_run (filter is_check sample_ops) sample_rule)"
proof -
  have w: "rl_wf 0 sample_rule" by (simp add: rl_wf_def sample_rule_def new_rate_limit_rule_def)
  then show ?thesis using eviction_transparent[OF w, of sample_ops] by (simp add: sample_ops_def)
qed



end
