(* ===== verification/Load_Balancer.thy ===== *)
theory Load_Balancer
  imports Access
begin

text \<open>
  The load balancer of the reverse proxy (\<open>lb.rs\<close>): upstreams with their health state, the pool
  with its five picking policies, passive ejection and the active health-check loop.

  Counters are atomics of a fixed width and wrap, so they are words. A pick returns the index of
  an upstream together with the pool after the pick: the round-robin cursor and the metrics
  change. The clock and the standard library's hasher are arguments: \<open>now\<close> is the Unix time in
  milliseconds the picker reads, and \<open>lb_env\<close> holds the three uses of \<open>DefaultHasher\<close>.
\<close>

section \<open>Upstreams\<close>

definition LATENCY_BUCKETS :: nat where
  "LATENCY_BUCKETS = 13"

definition LATENCY_BOUNDS_US :: "nat list" where
  "LATENCY_BOUNDS_US =
     [500, 1000, 5000, 10000, 25000, 50000, 100000, 200000, 500000, 1000000, 2500000, 10000000]"

fun first_index :: "('a \<Rightarrow> bool) \<Rightarrow> 'a list \<Rightarrow> nat option" where
  "first_index P [] = None"
| "first_index P (x # xs) = (if P x then Some 0 else map_option Suc (first_index P xs))"

definition latency_bucket_us :: "nat \<Rightarrow> nat" where
  "latency_bucket_us us =
     (case first_index (\<lambda>b. us < b) LATENCY_BOUNDS_US of Some i \<Rightarrow> i | None \<Rightarrow> LATENCY_BUCKETS - 1)"

record upstream =
  up_url :: string
  weight :: u32
  up_group :: "string option"
  in_flight :: u32
  consecutive_errors :: u32
  ejected_until_ms :: u64
  healthy :: bool
  up_requests_total :: u64
  up_errors_total :: u64
  up_latency :: "u64 list"
  up_latency_sum_us :: u64
  up_bytes_in_total :: u64
  up_bytes_out_total :: u64

definition new_upstream :: "string \<Rightarrow> u32 \<Rightarrow> string option \<Rightarrow> upstream" where
  "new_upstream u w g =
     \<lparr>up_url = u, weight = w, up_group = g, in_flight = 0, consecutive_errors = 0,
      ejected_until_ms = 0, healthy = True, up_requests_total = 0, up_errors_total = 0,
      up_latency = replicate LATENCY_BUCKETS 0, up_latency_sum_us = 0, up_bytes_in_total = 0,
      up_bytes_out_total = 0\<rparr>"

definition record_request :: "upstream \<Rightarrow> bool \<Rightarrow> nat \<Rightarrow> upstream" where
  "record_request u ok us =
     (let i = latency_bucket_us us
      in u\<lparr>up_requests_total := up_requests_total u + 1,
           up_errors_total := (if ok then up_errors_total u else up_errors_total u + 1),
           up_latency := (up_latency u)[i := up_latency u ! i + 1],
           up_latency_sum_us := up_latency_sum_us u + of_nat (min us u64_max)\<rparr>)"

definition record_bytes :: "upstream \<Rightarrow> u64 \<Rightarrow> u64 \<Rightarrow> upstream" where
  "record_bytes u bytes_out bytes_in =
     u\<lparr>up_bytes_out_total := up_bytes_out_total u + bytes_out,
       up_bytes_in_total := up_bytes_in_total u + bytes_in\<rparr>"

definition ejected_remaining_ms :: "upstream \<Rightarrow> u64 \<Rightarrow> u64" where
  "ejected_remaining_ms u now =
     (if ejected_until_ms u > now then ejected_until_ms u - now else 0)"

definition is_ejected :: "upstream \<Rightarrow> u64 \<Rightarrow> bool" where
  "is_ejected u now \<longleftrightarrow> ejected_until_ms u \<noteq> 0 \<and> ejected_until_ms u > now"

definition is_available :: "upstream \<Rightarrow> u64 \<Rightarrow> bool" where
  "is_available u now \<longleftrightarrow> weight u > 0 \<and> healthy u \<and> \<not> is_ejected u now"

definition in_flight_guard :: "upstream \<Rightarrow> upstream" where
  "in_flight_guard u = u\<lparr>in_flight := in_flight u + 1\<rparr>"

definition drop_guard :: "upstream \<Rightarrow> upstream" where
  "drop_guard u = u\<lparr>in_flight := in_flight u - 1\<rparr>"

section \<open>The pool\<close>

datatype lb_policy = RoundRobin | LeastConn | Random | IpHash | HeaderHash

record passive_health =
  eject_after :: u32
  eject_for_secs :: u64

record lb_metrics =
  lb_picks :: u64
  lb_no_upstream :: u64
  lb_ejections :: u64
  lb_health_checks :: u64
  lb_health_failures :: u64
  lb_health_recoveries :: u64

record lb_env =
  hash_octets :: "byte list \<Rightarrow> u64"
  hash_value :: "string \<Rightarrow> u64"
  hash_random :: "u64 \<Rightarrow> nat \<Rightarrow> u64"

record 'h pick_ctx =
  pc_peer_ip :: "ip_addr option"
  pc_headers :: 'h
  pc_group :: "string option"

record upstream_pool =
  upstreams :: "upstream list"
  lb_policy :: lb_policy
  hash_header_name :: "string option"
  weighted_ring :: "nat list"
  rr_counter :: u64
  passive_cfg :: passive_health
  lb_metrics_of :: "lb_metrics option"

fun build_ring :: "nat \<Rightarrow> upstream list \<Rightarrow> nat list" where
  "build_ring i [] = []"
| "build_ring i (u # us) = replicate (unat (weight u)) i @ build_ring (Suc i) us"

definition new_pool ::
  "upstream list \<Rightarrow> lb_policy \<Rightarrow> string option \<Rightarrow> passive_health \<Rightarrow> lb_metrics option \<Rightarrow>
   upstream_pool" where
  "new_pool us pol hh pas m =
     \<lparr>upstreams = us, lb_policy = pol, hash_header_name = map_option to_ascii_lowercase hh,
      weighted_ring = build_ring 0 us, rr_counter = 0, passive_cfg = pas, lb_metrics_of = m\<rparr>"

definition build_upstreams :: "(string \<times> u32 \<times> string option) list \<Rightarrow> upstream list" where
  "build_upstreams cfgs = map (\<lambda>(u, w, g). new_upstream u w g) cfgs"

text \<open>\<open>fetch_add(1)\<close> on the cursor: the old value and the pool with the new one.\<close>

definition bump :: "upstream_pool \<Rightarrow> u64 \<times> upstream_pool" where
  "bump p = (rr_counter p, p\<lparr>rr_counter := rr_counter p + 1\<rparr>)"

definition v4_octets :: "32 word \<Rightarrow> byte list" where
  "v4_octets a = [ucast (drop_bit 24 a), ucast (drop_bit 16 a), ucast (drop_bit 8 a), ucast a]"

definition v6_octets :: "128 word \<Rightarrow> byte list" where
  "v6_octets a = map (\<lambda>i. ucast (drop_bit (8 * i) a)) (rev [0..<16])"

definition hash_ip :: "lb_env \<Rightarrow> ip_addr option \<Rightarrow> u64 option" where
  "hash_ip E ip =
     map_option (\<lambda>a. hash_octets E
       (case a of
          V4 v \<Rightarrow> v4_octets v
        | V6 v \<Rightarrow> (case to_ipv4_mapped v of Some v4 \<Rightarrow> v4_octets v4 | None \<Rightarrow> v6_octets v))) ip"

definition hash_header :: "'h header_ops \<Rightarrow> lb_env \<Rightarrow> string \<Rightarrow> 'h \<Rightarrow> u64 option" where
  "hash_header H E name headers = map_option (hash_value E) (hm_get H headers name)"

definition cheap_random :: "lb_env \<Rightarrow> nat \<Rightarrow> upstream_pool \<Rightarrow> u64 \<times> upstream_pool" where
  "cheap_random E nanos p = (let (salt, p') = bump p in (hash_random E salt nanos, p'))"

text \<open>The start of the scan for the ring policies.\<close>

definition ring_start ::
  "'h header_ops \<Rightarrow> lb_env \<Rightarrow> nat \<Rightarrow> 'h pick_ctx \<Rightarrow> upstream_pool \<Rightarrow> u64 \<times> upstream_pool" where
  "ring_start H E nanos cx p =
     (case lb_policy p of
        RoundRobin \<Rightarrow> bump p
      | Random \<Rightarrow> cheap_random E nanos p
      | IpHash \<Rightarrow> (case hash_ip E (pc_peer_ip cx) of Some h \<Rightarrow> (h, p) | None \<Rightarrow> bump p)
      | HeaderHash \<Rightarrow>
          (case Option.bind (hash_header_name p) (\<lambda>n. hash_header H E n (pc_headers cx)) of
             Some h \<Rightarrow> (h, p)
           | None \<Rightarrow> bump p)
      | LeastConn \<Rightarrow> bump p)"

definition eligible :: "u64 \<Rightarrow> string option \<Rightarrow> upstream \<Rightarrow> bool" where
  "eligible now g u \<longleftrightarrow> is_available u now \<and> (case g of None \<Rightarrow> True | Some x \<Rightarrow> up_group u = Some x)"

fun scan_ring :: "(upstream \<Rightarrow> bool) \<Rightarrow> upstream_pool \<Rightarrow> u64 \<Rightarrow> nat list \<Rightarrow> nat option" where
  "scan_ring ok p start [] = None"
| "scan_ring ok p start (offset # offsets) =
     (let pos = unat (start + of_nat offset) mod length (weighted_ring p);
          idx = weighted_ring p ! pos
      in if ok (upstreams p ! idx) then Some idx else scan_ring ok p start offsets)"

definition upstream_cost :: "upstream \<Rightarrow> nat" where
  "upstream_cost u = min (unat (in_flight u) * 1000) u64_max div unat (weight u)"

fun least_conn_from ::
  "(upstream \<Rightarrow> bool) \<Rightarrow> u64 \<Rightarrow> nat \<Rightarrow> upstream list \<Rightarrow> (nat \<times> nat) option \<Rightarrow> (nat \<times> nat) option" where
  "least_conn_from ok salt i [] best = best"
| "least_conn_from ok salt i (u # us) best =
     (if \<not> ok u then least_conn_from ok salt (Suc i) us best
      else least_conn_from ok salt (Suc i) us
        (Some (case best of
           None \<Rightarrow> (upstream_cost u, i)
         | Some cur \<Rightarrow>
             if upstream_cost u < fst cur
                \<or> upstream_cost u = fst cur \<and> (of_nat i + salt) AND 1 = 0
             then (upstream_cost u, i) else cur)))"

definition pick_least_conn :: "(upstream \<Rightarrow> bool) \<Rightarrow> upstream_pool \<Rightarrow> nat option \<times> upstream_pool" where
  "pick_least_conn ok p =
     (let (salt, p') = bump p
      in (map_option snd (least_conn_from ok salt 0 (upstreams p) None), p'))"

definition pick_where ::
  "'h header_ops \<Rightarrow> lb_env \<Rightarrow> u64 \<Rightarrow> nat \<Rightarrow> 'h pick_ctx \<Rightarrow> string option \<Rightarrow> upstream_pool \<Rightarrow>
   nat option \<times> upstream_pool" where
  "pick_where H E now nanos cx g p =
     (if lb_policy p = LeastConn then pick_least_conn (eligible now g) p
      else if weighted_ring p = [] then (None, p)
      else
        (let (start, p') = ring_start H E nanos cx p
         in (scan_ring (eligible now g) p' start [0..<length (weighted_ring p')], p')))"

definition count_metric :: "(lb_metrics \<Rightarrow> lb_metrics) \<Rightarrow> upstream_pool \<Rightarrow> upstream_pool" where
  "count_metric f p = p\<lparr>lb_metrics_of := map_option f (lb_metrics_of p)\<rparr>"

text \<open>
  A pick makes at most two passes, each of which reads the clock: \<open>now1\<close> for the pass restricted
  to a group and \<open>now2\<close> for the pass over the whole pool.
\<close>

definition pick ::
  "'h header_ops \<Rightarrow> lb_env \<Rightarrow> u64 \<Rightarrow> u64 \<Rightarrow> nat \<Rightarrow> 'h pick_ctx \<Rightarrow> upstream_pool \<Rightarrow>
   nat option \<times> upstream_pool" where
  "pick H E now1 now2 nanos cx p0 =
     (let p = count_metric (\<lambda>m. m\<lparr>lb_picks := lb_picks m + 1\<rparr>) p0;
          whole = (\<lambda>p. let (r, p') = pick_where H E now2 nanos cx None p
                       in (r, if r = None
                              then count_metric (\<lambda>m. m\<lparr>lb_no_upstream := lb_no_upstream m + 1\<rparr>) p'
                              else p'))
      in if upstreams p = [] then (None, p)
         else (case pc_group cx of
            None \<Rightarrow> whole p
          | Some g \<Rightarrow>
              if list_ex (\<lambda>u. up_group u = Some g) (upstreams p) then
                (case pick_where H E now1 nanos cx (Some g) p of
                   (Some i, p') \<Rightarrow> (Some i, p')
                 | (None, p') \<Rightarrow> whole p')
              else whole p))"

section \<open>Passive ejection\<close>

definition record_success :: "upstream \<Rightarrow> upstream" where
  "record_success u = u\<lparr>consecutive_errors := 0\<rparr>"

definition sat_add_u64 :: "u64 \<Rightarrow> u64 \<Rightarrow> u64" where
  "sat_add_u64 a b = (if unat a + unat b > u64_max then - 1 else a + b)"

definition record_failure ::
  "upstream_pool \<Rightarrow> u64 \<Rightarrow> upstream \<Rightarrow> upstream \<times> lb_metrics option" where
  "record_failure p now u =
     (let n = consecutive_errors u + 1;
          u' = u\<lparr>consecutive_errors := n\<rparr>
      in if eject_after (passive_cfg p) \<noteq> - 1 \<and> n \<ge> eject_after (passive_cfg p)
         then (u'\<lparr>ejected_until_ms := sat_add_u64 now (eject_for_secs (passive_cfg p) * 1000)\<rparr>,
               map_option (\<lambda>m. m\<lparr>lb_ejections := lb_ejections m + 1\<rparr>) (lb_metrics_of p))
         else (u', lb_metrics_of p))"

section \<open>Active health checks\<close>

record probe_state =
  pr_failures :: u32
  pr_successes :: u32

record active_health =
  interval_secs :: u64
  unhealthy_after :: u32
  healthy_after :: u32

definition sat_inc_u32 :: "u32 \<Rightarrow> u32" where
  "sat_inc_u32 n = (if n = - 1 then n else n + 1)"

definition probe_default :: probe_state where
  "probe_default = \<lparr>pr_failures = 0, pr_successes = 0\<rparr>"

definition probe_step ::
  "active_health \<Rightarrow> bool \<Rightarrow> upstream \<times> probe_state \<times> lb_metrics option \<Rightarrow>
   upstream \<times> probe_state \<times> lb_metrics option" where
  "probe_step cfg ok s =
     (case s of (u, st, m0) \<Rightarrow>
       let m = map_option (\<lambda>m. m\<lparr>lb_health_checks := lb_health_checks m + 1\<rparr>) m0 in
       if ok then
         (let st' = st\<lparr>pr_failures := 0, pr_successes := sat_inc_u32 (pr_successes st)\<rparr>
          in if \<not> healthy u \<and> pr_successes st' \<ge> healthy_after cfg
             then (u\<lparr>healthy := True\<rparr>, st',
                   map_option (\<lambda>m. m\<lparr>lb_health_recoveries := lb_health_recoveries m + 1\<rparr>) m)
             else (u, st', m))
       else
         (let st' = st\<lparr>pr_successes := 0, pr_failures := sat_inc_u32 (pr_failures st)\<rparr>
          in if healthy u \<and> pr_failures st' \<ge> unhealthy_after cfg
             then (u\<lparr>healthy := False\<rparr>, st',
                   map_option (\<lambda>m. m\<lparr>lb_health_failures := lb_health_failures m + 1\<rparr>) m)
             else (u, st', m)))"

text \<open>
  One tick probes every upstream in order; \<open>oks\<close> holds the verdicts of the prober. The task itself
  never returns: \<open>active_health_task\<close> is its state after the given ticks, or \<open>None\<close> where no task is
  spawned.
\<close>

fun probe_tick ::
  "active_health \<Rightarrow> bool list \<Rightarrow> (upstream \<times> probe_state) list \<Rightarrow> lb_metrics option \<Rightarrow>
   (upstream \<times> probe_state) list \<times> lb_metrics option" where
  "probe_tick cfg (ok # oks) ((u, st) # us) m =
     (let (u', st', m') = probe_step cfg ok (u, st, m);
          (us', m'') = probe_tick cfg oks us m'
      in ((u', st') # us', m''))"
| "probe_tick cfg _ us m = (us, m)"

fun probe_ticks ::
  "active_health \<Rightarrow> bool list list \<Rightarrow> (upstream \<times> probe_state) list \<Rightarrow> lb_metrics option \<Rightarrow>
   (upstream \<times> probe_state) list \<times> lb_metrics option" where
  "probe_ticks cfg [] us m = (us, m)"
| "probe_ticks cfg (oks # rounds) us m =
     (let (us', m') = probe_tick cfg oks us m in probe_ticks cfg rounds us' m')"

definition active_health_task ::
  "active_health \<Rightarrow> bool list list \<Rightarrow> upstream list \<Rightarrow> lb_metrics option \<Rightarrow>
   (upstream list \<times> lb_metrics option) option" where
  "active_health_task cfg rounds us m =
     (if interval_secs cfg = 0 then None
      else (let (us', m') = probe_ticks cfg rounds (map (\<lambda>u. (u, probe_default)) us) m
            in Some (map fst us', m')))"

section \<open>The ring\<close>

lemma length_build_ring: "length (build_ring i us) = sum_list (map (\<lambda>u. unat (weight u)) us)"
  by (induction us arbitrary: i) auto

lemma set_build_ring:
  "set (build_ring i us) = {k. i \<le> k \<and> k < i + length us \<and> 0 < weight (us ! (k - i))}"
proof (induction us arbitrary: i)
  case (Cons u us)
  have "k - i = Suc (k - Suc i)" if "Suc i \<le> k" for k using that by simp
  moreover have "0 < unat (weight u) \<longleftrightarrow> 0 < weight u" by (simp add: word_less_nat_alt)
  ultimately show ?case
    by (auto simp: Cons set_replicate_conv_if le_Suc_eq nth_Cons' Suc_le_eq)
qed simp

lemma count_list_replicate: "count_list (replicate n x) y = (if x = y then n else 0)"
  by (induction n) auto

lemma count_build_ring:
  "j < length us \<Longrightarrow> count_list (build_ring i us) (i + j) = unat (weight (us ! j))"
proof (induction us arbitrary: i j)
  case (Cons u us)
  have "count_list (build_ring (Suc i) us) i = 0"
    by (rule count_notin) (simp add: set_build_ring)
  then show ?case
    using Cons.IH[of "j - 1" "Suc i"] Cons.prems
    by (cases j) (auto simp: count_list_append count_list_replicate)
qed simp

text \<open>A scan that does not pass the end of the cursor's range visits the whole ring.\<close>

lemma mod_cover:
  assumes "pos < (n :: nat)"
  shows "\<exists>k < n. (s + k) mod n = pos"
proof -
  let ?k = "(pos + n - s mod n) mod n"
  have "(s + ?k) mod n = (s mod n + (pos + n - s mod n)) mod n" by (simp add: mod_simps)
  also have "\<dots> = (pos + n) mod n"
    using assms by (metis add.commute add_diff_inverse_nat le_add2 le_trans less_le_not_le mod_less_divisor not_less zero_less_iff_neq_zero gr_implies_not0)
  finally have "(s + ?k) mod n = pos" using assms by simp
  then show ?thesis using assms by (intro exI[of _ ?k]) auto
qed

lemma unat_add_small: "unat (s :: u64) + k < 2 ^ 64 \<Longrightarrow> unat (s + of_nat k) = unat s + k"
  by (simp add: unat_word_ariths unat_of_nat)

lemma scan_ring_Some:
  "scan_ring ok p start offs = Some i \<Longrightarrow> weighted_ring p \<noteq> [] \<Longrightarrow>
     i \<in> set (weighted_ring p) \<and> ok (upstreams p ! i)"
  by (induction offs) (auto simp: Let_def split: if_splits)

lemma scan_ring_None:
  "scan_ring ok p start offs = None \<longleftrightarrow>
     (\<forall>k \<in> set offs. \<not> ok (upstreams p !
        (weighted_ring p ! (unat (start + of_nat k) mod length (weighted_ring p)))))"
  by (induction offs) (auto simp: Let_def)

lemma scan_ring_total:
  assumes "unat start + length (weighted_ring p) \<le> 2 ^ 64" "i \<in> set (weighted_ring p)" "ok (upstreams p ! i)"
  shows "scan_ring ok p start [0..<length (weighted_ring p)] \<noteq> None"
proof -
  let ?n = "length (weighted_ring p)"
  obtain pos where pos: "pos < ?n" "weighted_ring p ! pos = i" using assms(2) by (auto simp: in_set_conv_nth)
  obtain k where k: "k < ?n" "(unat start + k) mod ?n = pos" using mod_cover[OF pos(1)] by blast
  have "unat (start + of_nat k) = unat start + k" using k(1) assms(1) by (intro unat_add_small) simp
  then show ?thesis using k pos assms(3) by (auto simp: scan_ring_None intro!: bexI[of _ k])
qed

section \<open>Least connections\<close>

lemma least_conn_min:
  assumes "least_conn_from ok salt i us best = Some (c, k)"
    "\<And>c' k'. best = Some (c', k') \<Longrightarrow> k' < i"
  shows "(best = Some (c, k) \<or> i \<le> k \<and> k < i + length us \<and> ok (us ! (k - i)) \<and> c = upstream_cost (us ! (k - i)))
    \<and> (\<forall>c' k'. best = Some (c', k') \<longrightarrow> c \<le> c')
    \<and> (\<forall>j < length us. ok (us ! j) \<longrightarrow> c \<le> upstream_cost (us ! j))"
  using assms
proof (induction us arbitrary: i best)
  case (Cons u us)
  define best' where "best' = (if ok u then Some (case best of
           None \<Rightarrow> (upstream_cost u, i)
         | Some cur \<Rightarrow>
             if upstream_cost u < fst cur
                \<or> upstream_cost u = fst cur \<and> (of_nat i + salt) AND 1 = 0
             then (upstream_cost u, i) else cur) else best)"
  have step: "least_conn_from ok salt (Suc i) us best' = Some (c, k)"
    using Cons.prems(1) by (simp add: best'_def split: if_splits)
  have "\<And>c' k'. best' = Some (c', k') \<Longrightarrow> k' < Suc i"
    using Cons.prems(2) by (fastforce simp: best'_def split: if_splits option.splits)
  note ih = Cons.IH[OF step this]
  have le: "\<forall>c' k'. best = Some (c', k') \<longrightarrow> c \<le> c'" "ok u \<longrightarrow> c \<le> upstream_cost u"
    using ih by (fastforce simp: best'_def split: if_splits option.splits)+
  have "best = Some (c, k) \<or> k = i \<and> ok u \<and> c = upstream_cost u \<or>
      Suc i \<le> k \<and> k < Suc i + length us \<and> ok (us ! (k - Suc i)) \<and> c = upstream_cost (us ! (k - Suc i))"
    using ih by (fastforce simp: best'_def split: if_splits option.splits)
  moreover have "k - i = Suc (k - Suc i)" if "Suc i \<le> k" using that by simp
  moreover have "\<forall>j < length (u # us). ok ((u # us) ! j) \<longrightarrow> c \<le> upstream_cost ((u # us) ! j)"
    using ih le(2) by (auto simp: nth_Cons split: nat.splits)
  ultimately show ?case using le(1) by auto
qed simp

lemma least_conn_None:
  "least_conn_from ok salt i us best = None \<longleftrightarrow> best = None \<and> (\<forall>u \<in> set us. \<not> ok u)"
  by (induction us arbitrary: i best) auto

section \<open>Picking\<close>

definition pool_wf :: "upstream_pool \<Rightarrow> bool" where
  "pool_wf p \<longleftrightarrow> weighted_ring p = build_ring 0 (upstreams p)"

text \<open>The scan does not pass the end of the cursor's range.\<close>

definition start_ok :: "'h header_ops \<Rightarrow> lb_env \<Rightarrow> nat \<Rightarrow> 'h pick_ctx \<Rightarrow> upstream_pool \<Rightarrow> bool" where
  "start_ok H E nanos cx p \<longleftrightarrow> lb_policy p = LeastConn \<or>
     unat (fst (ring_start H E nanos cx p)) + length (weighted_ring p) \<le> 2 ^ 64"

definition same_pool :: "upstream_pool \<Rightarrow> upstream_pool \<Rightarrow> bool" where
  "same_pool p q \<longleftrightarrow> upstreams q = upstreams p \<and> weighted_ring q = weighted_ring p \<and>
     lb_policy q = lb_policy p \<and> hash_header_name q = hash_header_name p"

lemma new_pool_wf: "pool_wf (new_pool us pol hh pas m)"
  by (simp add: pool_wf_def new_pool_def)

lemma bump_same: "bump p = (c, q) \<Longrightarrow> same_pool p q \<and> c = rr_counter p \<and> rr_counter q = rr_counter p + 1"
  by (auto simp: bump_def same_pool_def)

lemma ring_start_same:
  "ring_start H E nanos cx p = (c, q) \<Longrightarrow>
     same_pool p q \<and> rr_counter q \<in> {rr_counter p, rr_counter p + 1}"
  by (auto simp: ring_start_def cheap_random_def bump_def same_pool_def
      split: lb_policy.splits option.splits)

lemma ring_start_cong:
  assumes "same_pool p q" "rr_counter q = rr_counter p"
  shows "fst (ring_start H E nanos cx q) = fst (ring_start H E nanos cx p)"
  using assms
  by (auto simp: ring_start_def cheap_random_def bump_def same_pool_def
      split: lb_policy.splits option.splits)

lemma pick_where_same:
  "pick_where H E now nanos cx g p = (r, q) \<Longrightarrow>
     same_pool p q \<and> rr_counter q \<in> {rr_counter p, rr_counter p + 1}"
  using ring_start_same[of H E nanos cx p]
  by (auto simp: pick_where_def pick_least_conn_def bump_def same_pool_def
      split: if_splits prod.splits)

lemma pick_where_Some:
  assumes "pool_wf p" "pick_where H E now nanos cx g p = (Some i, q)"
  shows "i < length (upstreams p) \<and> eligible now g (upstreams p ! i)"
proof (cases "lb_policy p = LeastConn")
  case True
  then obtain c where "least_conn_from (eligible now g) (rr_counter p) 0 (upstreams p) None = Some (c, i)"
    using assms(2) by (auto simp: pick_where_def pick_least_conn_def bump_def)
  from least_conn_min[OF this] show ?thesis by auto
next
  case False
  obtain start p1 where st: "ring_start H E nanos cx p = (start, p1)" by fastforce
  then have "same_pool p p1" using ring_start_same by blast
  moreover have "weighted_ring p \<noteq> []"
    "scan_ring (eligible now g) p1 start [0..<length (weighted_ring p1)] = Some i"
    using assms(2) False st by (auto simp: pick_where_def split: if_splits)
  ultimately show ?thesis
    using scan_ring_Some[of "eligible now g" p1 start _ i] assms(1)
    by (auto simp: same_pool_def pool_wf_def set_build_ring)
qed

lemma pick_where_None:
  assumes "pool_wf p" "start_ok H E nanos cx p" "pick_where H E now nanos cx g p = (None, q)"
    "u \<in> set (upstreams p)"
  shows "\<not> eligible now g u"
proof (cases "lb_policy p = LeastConn")
  case True
  then show ?thesis
    using assms(3,4) by (auto simp: pick_where_def pick_least_conn_def bump_def least_conn_None)
next
  case False
  show ?thesis
  proof
    assume el: "eligible now g u"
    then have "0 < weight u" by (simp add: eligible_def is_available_def)
    moreover obtain i where i: "i < length (upstreams p)" "upstreams p ! i = u"
      using assms(4) by (auto simp: in_set_conv_nth)
    ultimately have ring: "i \<in> set (weighted_ring p)" using assms(1) by (simp add: pool_wf_def set_build_ring)
    obtain start p1 where st: "ring_start H E nanos cx p = (start, p1)" by fastforce
    then have same: "same_pool p p1" using ring_start_same by blast
    have "scan_ring (eligible now g) p1 start [0..<length (weighted_ring p1)] \<noteq> None"
      using assms(2) False st same ring i el
      by (intro scan_ring_total[of _ _ i]) (auto simp: start_ok_def same_pool_def)
    then show False
      using assms(3) False st ring by (auto simp: pick_where_def split: if_splits)
  qed
qed

lemma count_metric_same: "same_pool p (count_metric f p) \<and> rr_counter (count_metric f p) = rr_counter p"
  by (simp add: count_metric_def same_pool_def)

lemma start_ok_cong:
  assumes "same_pool p q" "rr_counter q = c" "start_ok H E nanos cx (p\<lparr>rr_counter := c\<rparr>)"
  shows "start_ok H E nanos cx q"
  using assms ring_start_cong[of "p\<lparr>rr_counter := c\<rparr>" q H E nanos cx]
  by (auto simp: start_ok_def same_pool_def)

lemma pool_wf_cong: "same_pool p q \<Longrightarrow> pool_wf q = pool_wf p"
  by (simp add: pool_wf_def same_pool_def)

text \<open>The two passes of a pick.\<close>

lemma pick_passes:
  assumes "upstreams p \<noteq> []"
  obtains (group) g i q1 q2 where "pc_group cx = Some g" "\<exists>u \<in> set (upstreams p). up_group u = Some g"
      "same_pool p q1" "rr_counter q1 = rr_counter p"
      "pick_where H E now1 nanos cx (Some g) q1 = (Some i, q2)" "fst (pick H E now1 now2 nanos cx p) = Some i"
  | (whole) q1 r q2 where "same_pool p q1" "rr_counter q1 \<in> {rr_counter p, rr_counter p + 1}"
      "pick_where H E now2 nanos cx None q1 = (r, q2)" "fst (pick H E now1 now2 nanos cx p) = r"
      "\<And>g. pc_group cx = Some g \<Longrightarrow> (\<exists>u \<in> set (upstreams p). up_group u = Some g) \<Longrightarrow>
        \<exists>q q'. same_pool p q \<and> rr_counter q = rr_counter p
          \<and> pick_where H E now1 nanos cx (Some g) q = (None, q')"
proof -
  define q where "q = count_metric (\<lambda>m. m\<lparr>lb_picks := lb_picks m + 1\<rparr>) p"
  have q: "same_pool p q" "rr_counter q = rr_counter p" using count_metric_same by (auto simp: q_def)
  have us: "upstreams q = upstreams p" using q by (simp add: same_pool_def)
  let ?whole = "\<lambda>p. let (r, p') = pick_where H E now2 nanos cx None p
                       in (r, if r = None
                              then count_metric (\<lambda>m. m\<lparr>lb_no_upstream := lb_no_upstream m + 1\<rparr>) p'
                              else p')"
  have whole_fst: "fst (?whole x) = fst (pick_where H E now2 nanos cx None x)" for x
    by (simp add: Let_def case_prod_beta)
  show ?thesis
  proof (cases "\<exists>g. pc_group cx = Some g \<and> (\<exists>u \<in> set (upstreams p). up_group u = Some g)")
    case True
    then obtain g where g: "pc_group cx = Some g" "\<exists>u \<in> set (upstreams p). up_group u = Some g" by blast
    obtain r1 q1 where p1: "pick_where H E now1 nanos cx (Some g) q = (r1, q1)" by fastforce
    show ?thesis
    proof (cases r1)
      case (Some i)
      have "fst (pick H E now1 now2 nanos cx p) = Some i"
        using assms g us p1 Some by (simp add: pick_def Let_def q_def[symmetric] list_ex_iff)
      then show ?thesis using group[OF g q] p1 Some by blast
    next
      case None
      have "fst (pick H E now1 now2 nanos cx p) = fst (pick_where H E now2 nanos cx None q1)"
        using assms g us p1 None by (simp add: pick_def Let_def q_def[symmetric] list_ex_iff case_prod_beta)
      moreover have "same_pool p q1" "rr_counter q1 \<in> {rr_counter p, rr_counter p + 1}"
        using pick_where_same[OF p1] q by (auto simp: same_pool_def)
      ultimately show ?thesis
        using whole[of q1 "fst (pick_where H E now2 nanos cx None q1)" "snd (pick_where H E now2 nanos cx None q1)"]
          p1 None q g by fastforce
    qed
  next
    case False
    have "fst (pick H E now1 now2 nanos cx p) = fst (pick_where H E now2 nanos cx None q)"
      using assms False us
      by (auto simp: pick_def Let_def q_def[symmetric] list_ex_iff case_prod_beta split: option.splits)
    then show ?thesis
      using whole[of q "fst (pick_where H E now2 nanos cx None q)" "snd (pick_where H E now2 nanos cx None q)"]
        q False by fastforce
  qed
qed

lemma pick_same: "snd (pick H E now1 now2 nanos cx p) = q \<Longrightarrow> same_pool p q"
proof -
  assume q: "snd (pick H E now1 now2 nanos cx p) = q"
  have cm: "same_pool a (count_metric f x) = same_pool a x" for a x f
    by (simp add: count_metric_def same_pool_def)
  have pw: "same_pool a (snd (pick_where H E n nanos cx g x)) = same_pool a x" for a x n g
    using pick_where_same[of H E n nanos cx g x]
    by (cases "pick_where H E n nanos cx g x") (auto simp: same_pool_def)
  have "same_pool p p" by (simp add: same_pool_def)
  then show "same_pool p q"
    unfolding q[symmetric] pick_def Let_def case_prod_beta by (simp add: cm pw split: option.split)
qed

text \<open>A sequence of picks: each request brings its clock readings and its context.\<close>

type_synonym 'h pick_req = "u64 \<times> u64 \<times> nat \<times> 'h pick_ctx"

fun pick_all ::
  "'h header_ops \<Rightarrow> lb_env \<Rightarrow> 'h pick_req list \<Rightarrow> upstream_pool \<Rightarrow> nat option list \<times> upstream_pool" where
  "pick_all H E [] p = ([], p)"
| "pick_all H E ((now1, now2, nanos, cx) # reqs) p =
     (let (r, p') = pick H E now1 now2 nanos cx p; (rs, p'') = pick_all H E reqs p'
      in (r # rs, p''))"

lemma fst_pick_all:
  "fst (pick_all H E ((now1, now2, nanos, cx) # reqs) p) =
     fst (pick H E now1 now2 nanos cx p) # fst (pick_all H E reqs (snd (pick H E now1 now2 nanos cx p)))"
  by (simp add: Let_def case_prod_beta)

lemma round_robin_pick:
  assumes "pool_wf p" "lb_policy p = RoundRobin" "pc_group cx = None" "weighted_ring p \<noteq> []"
    "\<forall>u \<in> set (upstreams p). 0 < weight u \<longrightarrow> is_available u now2"
  shows "fst (pick H E now1 now2 nanos cx p) =
      Some (weighted_ring p ! (unat (rr_counter p) mod length (weighted_ring p)))
    \<and> rr_counter (snd (pick H E now1 now2 nanos cx p)) = rr_counter p + 1"
proof -
  have us: "upstreams p \<noteq> []" using assms(1,4) by (auto simp: pool_wf_def)
  have "weighted_ring p ! (unat (rr_counter p) mod length (weighted_ring p)) \<in> set (weighted_ring p)"
    using assms(4) by (intro nth_mem) simp
  then have "eligible now2 None (upstreams p !
      (weighted_ring p ! (unat (rr_counter p) mod length (weighted_ring p))))"
    using assms(1,5) by (auto simp: eligible_def pool_wf_def set_build_ring)
  moreover have "[0..<length (weighted_ring p)] = 0 # [1..<length (weighted_ring p)]"
    using assms(4) by (simp add: upt_conv_Cons)
  ultimately show ?thesis
    using assms us
    by (simp add: pick_def pick_where_def ring_start_def bump_def count_metric_def Let_def)
qed

lemma round_robin_run:
  assumes "pool_wf p" "lb_policy p = RoundRobin" "weighted_ring p \<noteq> []"
    "unat (rr_counter p) + length reqs \<le> 2 ^ 64"
    "\<forall>(now1, now2, nanos, cx) \<in> set reqs. pc_group cx = None \<and>
       (\<forall>u \<in> set (upstreams p). 0 < weight u \<longrightarrow> is_available u now2)"
  shows "fst (pick_all H E reqs p) =
    map (\<lambda>k. Some (weighted_ring p ! ((unat (rr_counter p) + k) mod length (weighted_ring p)))) [0..<length reqs]"
  using assms
proof (induction reqs arbitrary: p)
  case (Cons req reqs)
  obtain now1 now2 nanos cx where req: "req = (now1, now2, nanos, cx)" by (cases req)
  let ?p = "snd (pick H E now1 now2 nanos cx p)"
  have pk: "fst (pick H E now1 now2 nanos cx p) =
      Some (weighted_ring p ! (unat (rr_counter p) mod length (weighted_ring p)))"
    "rr_counter ?p = rr_counter p + 1"
    using round_robin_pick[OF Cons.prems(1,2) _ Cons.prems(3), of cx now2 H E now1 nanos] Cons.prems(5) req
    by auto
  have same: "same_pool p ?p" using pick_same[OF refl] .
  show ?case
  proof (cases reqs)
    case Nil
    then show ?thesis using pk req by (simp add: fst_pick_all del: pick_all.simps(2))
  next
    case (Cons r rs)
    then have "unat (rr_counter ?p) = unat (rr_counter p) + 1"
      using Cons.prems(4) pk(2) unat_add_small[of "rr_counter p" 1] by simp
    moreover have "fst (pick_all H E reqs ?p) =
        map (\<lambda>k. Some (weighted_ring ?p ! ((unat (rr_counter ?p) + k) mod length (weighted_ring ?p)))) [0..<length reqs]"
      using Cons.IH[of ?p] Cons.prems same calculation by (auto simp: same_pool_def pool_wf_def)
    ultimately show ?thesis
      using pk(1) req same
      by (simp add: fst_pick_all same_pool_def upt_conv_Cons map_Suc_upt[symmetric] comp_def
          del: pick_all.simps(2) upt_Suc)
  qed
qed simp

lemma count_list_map_inj: "inj f \<Longrightarrow> count_list (map f xs) (f x) = count_list xs x"
  by (induction xs) (auto dest: injD)

lemma count_rotate: "count_list (rotate n xs) x = count_list xs x"
  unfolding rotate_drop_take count_list_append
  by (metis add.commute append_take_drop_id count_list_append)

lemma map_mod_rotate:
  "xs \<noteq> [] \<Longrightarrow> map (\<lambda>k. xs ! ((n + k) mod length xs)) [0..<length xs] = rotate n xs"
  by (intro nth_equalityI) (simp_all add: nth_rotate)

section \<open>Properties of the picker\<close>


definition flat_env :: lb_env where
  "flat_env = \<lparr>hash_octets = (\<lambda>_. 0), hash_value = (\<lambda>_. 0), hash_random = (\<lambda>s n. s)\<rparr>"

definition no_ejection :: passive_health where
  "no_ejection = \<lparr>eject_after = - 1, eject_for_secs = 30\<rparr>"

definition two_pool :: upstream_pool where
  "two_pool = new_pool [new_upstream ''http://a'' 1 None, new_upstream ''http://b'' 2 (Some ''blue'')]
     RoundRobin None no_ejection None"

definition plain_req :: "header_list pick_ctx" where
  "plain_req = \<lparr>pc_peer_ip = None, pc_headers = [], pc_group = None\<rparr>"

lemma two_pool_simps:
  "upstreams two_pool = [new_upstream ''http://a'' 1 None, new_upstream ''http://b'' 2 (Some ''blue'')]"
  "weighted_ring two_pool = [0, 1, 1]" "rr_counter two_pool = 0" "lb_policy two_pool = RoundRobin"
  by code_simp+

lemma two_pool_start:
  "start_ok list_headers flat_env 0 (plain_req\<lparr>pc_group := Some ''blue''\<rparr>) two_pool"
  "start_ok list_headers flat_env 0 (plain_req\<lparr>pc_group := Some ''blue''\<rparr>)
     (two_pool\<lparr>rr_counter := rr_counter two_pool + 1\<rparr>)"
  by (simp_all add: start_ok_def ring_start_def two_pool_simps bump_def)

lemma two_pool_wf: "pool_wf two_pool"
  unfolding two_pool_def by (rule new_pool_wf)




text \<open>
  The least-connections policy picks an eligible upstream of least cost, the number of
  requests in flight per unit of weight (in thousandths, rounded down).
\<close>

theorem least_conn_minimal:
  assumes "fst (pick_least_conn ok p) = Some i"
  shows "i < length (upstreams p) \<and> ok (upstreams p ! i) \<and>
    (\<forall>u \<in> set (upstreams p). ok u \<longrightarrow>
       upstream_cost (upstreams p ! i) \<le> upstream_cost u)"
proof -
  obtain c where "least_conn_from ok (rr_counter p) 0 (upstreams p) None = Some (c, i)"
    using assms by (auto simp: pick_least_conn_def bump_def)
  from least_conn_min[OF this] show ?thesis by (auto simp: in_set_conv_nth)
qed

theorem least_conn_minimal_witness:
  "fst (pick_least_conn (\<lambda>u. weight u > 0) (two_pool\<lparr>upstreams :=
     [in_flight_guard (new_upstream ''http://a'' 1 None), in_flight_guard (new_upstream ''http://b'' 2 None)]\<rparr>))
     = Some 1 \<and>
   upstream_cost (in_flight_guard (new_upstream ''http://b'' 2 None)) \<le>
     upstream_cost (in_flight_guard (new_upstream ''http://a'' 1 None))"
proof -
  let ?p = "two_pool\<lparr>upstreams :=
     [in_flight_guard (new_upstream ''http://a'' 1 None), in_flight_guard (new_upstream ''http://b'' 2 None)]\<rparr>"
  have "fst (pick_least_conn (\<lambda>u. weight u > 0) ?p) = Some 1"
    by (simp add: pick_least_conn_def bump_def two_pool_simps upstream_cost_def in_flight_guard_def
        new_upstream_def)
  then show ?thesis
    using least_conn_minimal[of "\<lambda>u. weight u > 0" ?p 1]
    by (simp add: in_flight_guard_def new_upstream_def)
qed

text \<open>
  C18. A scan that starts near the end of the 64-bit cursor range skips ring positions, because the
  sum of start and offset wraps before the remainder is taken: a pick can fail although an
  upstream is available. Here three upstreams are configured, only the last one is healthy, and
  the hash of the client address is the largest value.
\<close>

definition wrap_pool :: upstream_pool where
  "wrap_pool = new_pool
     [(new_upstream ''http://a'' 1 None)\<lparr>healthy := False\<rparr>,
      (new_upstream ''http://b'' 1 None)\<lparr>healthy := False\<rparr>, new_upstream ''http://c'' 1 None]
     IpHash None no_ejection None"

lemma wrap_pool_simps:
  "upstreams wrap_pool = [(new_upstream ''http://a'' 1 None)\<lparr>healthy := False\<rparr>,
      (new_upstream ''http://b'' 1 None)\<lparr>healthy := False\<rparr>, new_upstream ''http://c'' 1 None]"
  "weighted_ring wrap_pool = [0, 1, 2]" "lb_policy wrap_pool = IpHash"
  by (simp_all add: wrap_pool_def new_pool_def new_upstream_def)


text \<open>
  C19. A requested group can make selection worse than no group at all. Each pick that falls back
  from an exhausted group moves the cursor twice, so with the four upstreams below, whose first
  member is the whole group and down, the fallback alternates between the second and the fourth
  upstream and never picks the third, although it is available all the time.
\<close>

definition skew_pool :: upstream_pool where
  "skew_pool = new_pool
     [(new_upstream ''http://g'' 1 (Some ''blue''))\<lparr>healthy := False\<rparr>, new_upstream ''http://a'' 1 None,
      new_upstream ''http://b'' 1 None, new_upstream ''http://c'' 1 None]
     RoundRobin None no_ejection None"

definition skew_pick :: "u64 \<Rightarrow> nat option \<times> upstream_pool" where
  "skew_pick r = pick list_headers flat_env 5 5 0 (plain_req\<lparr>pc_group := Some ''blue''\<rparr>)
     (skew_pool\<lparr>rr_counter := r\<rparr>)"

lemma skew_pool_simps:
  "upstreams skew_pool = [(new_upstream ''http://g'' 1 (Some ''blue''))\<lparr>healthy := False\<rparr>,
     new_upstream ''http://a'' 1 None, new_upstream ''http://b'' 1 None, new_upstream ''http://c'' 1 None]"
  "weighted_ring skew_pool = [0, 1, 2, 3]" "lb_policy skew_pool = RoundRobin"
  "lb_metrics_of skew_pool = None" "rr_counter skew_pool = 0"
  by (simp_all add: skew_pool_def new_pool_def new_upstream_def)

lemma scan_ring_none_ok:
  assumes "weighted_ring p \<noteq> []" "\<forall>i \<in> set (weighted_ring p). \<not> ok (upstreams p ! i)"
  shows "scan_ring ok p start offsets = None"
  using assms by (induction offsets) (auto simp: Let_def)

lemma skew_eligible:
  "i \<in> set (weighted_ring skew_pool) \<Longrightarrow>
     \<not> eligible 5 (Some ''blue'') (upstreams skew_pool ! i)
     \<and> (i \<noteq> 0 \<longrightarrow> eligible 5 None (upstreams skew_pool ! i))"
  by (auto simp: skew_pool_simps eligible_def is_available_def is_ejected_def new_upstream_def)

lemma even_Suc_mod_4: "even (n :: nat) \<Longrightarrow> Suc n mod 4 = 1 \<or> Suc n mod 4 = 3"
  by presburger

lemma skew_position:
  assumes "even (unat (r :: u64))"
  shows "[0, 1, 2, 3::nat] ! (unat (r + 1) mod 4) \<in> {1, 3}"
proof -
  have "unat (r + 1) mod 4 = Suc (unat r) mod 4"
    by (simp add: unat_word_ariths mod_mod_cancel)
  with even_Suc_mod_4[OF assms] show ?thesis by (auto simp del: One_nat_def)
qed

lemma skew_pass_group:
  "pick_where list_headers flat_env 5 0 cx (Some ''blue'') (skew_pool\<lparr>rr_counter := r\<rparr>) =
     (None, skew_pool\<lparr>rr_counter := r + 1\<rparr>)"
proof -
  have "scan_ring (eligible 5 (Some ''blue'')) (skew_pool\<lparr>rr_counter := r + 1\<rparr>) s os = None" for s os
    by (rule scan_ring_none_ok) (use skew_eligible in \<open>auto simp: skew_pool_simps(2)\<close>)
  then show ?thesis
    by (simp add: pick_where_def skew_pool_simps(2,3) ring_start_def bump_def del: scan_ring.simps)
qed

lemma skew_pass_whole:
  assumes "even (unat r)"
  obtains i where "i \<in> {1, 3}" "pick_where list_headers flat_env 5 0 cx None (skew_pool\<lparr>rr_counter := r + 1\<rparr>) =
    (Some i, skew_pool\<lparr>rr_counter := r + 2\<rparr>)"
proof -
  let ?i = "[0, 1, 2, 3::nat] ! (unat (r + 1) mod 4)"
  have i: "?i \<in> {1, 3}" by (rule skew_position[OF assms])
  then have "?i \<in> set (weighted_ring skew_pool)" "?i \<noteq> 0" by (auto simp: skew_pool_simps(2))
  then have e: "eligible 5 None (upstreams skew_pool ! ?i)" using skew_eligible by blast
  have "[0..<length (weighted_ring skew_pool)] = 0 # [1..<4]" by (simp add: skew_pool_simps(2) upt_rec)
  then have "scan_ring (eligible 5 None) (skew_pool\<lparr>rr_counter := r + 1 + 1\<rparr>) (r + 1)
      [0..<length (weighted_ring skew_pool)] = Some ?i"
    using e by (simp add: skew_pool_simps(2) Let_def)
  then have "pick_where list_headers flat_env 5 0 cx None (skew_pool\<lparr>rr_counter := r + 1\<rparr>) =
      (Some ?i, skew_pool\<lparr>rr_counter := r + 2\<rparr>)"
    by (simp add: pick_where_def skew_pool_simps(2,3) ring_start_def bump_def add.assoc del: scan_ring.simps)
  with i that show thesis by blast
qed

lemma skew_pick_even:
  assumes "even (unat r)"
  shows "fst (skew_pick r) \<in> {Some 1, Some 3} \<and> snd (skew_pick r) = skew_pool\<lparr>rr_counter := r + 2\<rparr>"
proof -
  have c: "count_metric f (skew_pool\<lparr>rr_counter := r\<rparr>) = skew_pool\<lparr>rr_counter := r\<rparr>" for f
    by (simp add: count_metric_def skew_pool_simps(4))
  have u: "upstreams skew_pool \<noteq> []" "list_ex (\<lambda>u. up_group u = Some ''blue'') (upstreams skew_pool)"
    by (simp_all add: skew_pool_simps(1) new_upstream_def)
  from assms obtain i where "i \<in> {1, 3}"
    "pick_where list_headers flat_env 5 0 (plain_req\<lparr>pc_group := Some ''blue''\<rparr>) None
      (skew_pool\<lparr>rr_counter := r + 1\<rparr>) = (Some i, skew_pool\<lparr>rr_counter := r + 2\<rparr>)"
    by (rule skew_pass_whole)
  then show ?thesis by (auto simp: skew_pick_def pick_def c u skew_pass_group)
qed

theorem group_fallback_starves:
  "Some 2 \<notin> set (fst (pick_all list_headers flat_env
      (replicate n (5, 5, 0, plain_req\<lparr>pc_group := Some ''blue''\<rparr>)) skew_pool))
   \<and> is_available (upstreams skew_pool ! 2) 5"
proof -
  have "Some 2 \<notin> set (fst (pick_all list_headers flat_env
      (replicate n (5, 5, 0, plain_req\<lparr>pc_group := Some ''blue''\<rparr>)) (skew_pool\<lparr>rr_counter := r\<rparr>)))"
    if "even (unat r)" for r
    using that
  proof (induction n arbitrary: r)
    case (Suc n)
    have "even (unat (r + 2))" using Suc.prems by (simp add: unat_word_ariths dvd_mod_iff)
    from Suc.IH[OF this] skew_pick_even[OF Suc.prems] show ?case
      unfolding replicate_Suc fst_pick_all by (auto simp: skew_pick_def)
  qed simp
  from this[of 0] show ?thesis
    by (simp add: skew_pool_simps is_available_def is_ejected_def new_upstream_def) (simp add: skew_pool_def new_pool_def)
qed

section \<open>Passive ejection and the health checks\<close>

text \<open>
  C16. The passive ejection window. After a success and then the failures at the times \<open>ts\<close>, the
  upstream is ejected exactly until the configured span after the last failure if the failures
  reach the threshold, and exactly as before the failures otherwise.
\<close>

definition failures :: "upstream_pool \<Rightarrow> u64 list \<Rightarrow> upstream \<Rightarrow> upstream" where
  "failures p ts u = foldl (\<lambda>u t. fst (record_failure p t u)) u ts"

lemma sat_add_exact: "unat a + unat b < 2 ^ 64 \<Longrightarrow> unat (sat_add_u64 a b) = unat a + unat b"
  by (auto simp: sat_add_u64_def unat_word_ariths)

lemma failures_state:
  assumes "length ts < 2 ^ 32" "eject_after (passive_cfg p) \<noteq> - 1"
  shows "unat (consecutive_errors (failures p ts (record_success u))) = length ts
    \<and> ejected_until_ms (failures p ts (record_success u)) =
        (if ts \<noteq> [] \<and> unat (eject_after (passive_cfg p)) \<le> length ts
         then sat_add_u64 (last ts) (eject_for_secs (passive_cfg p) * 1000) else ejected_until_ms u)"
  using assms
proof (induction ts rule: rev_induct)
  case (snoc t ts)
  let ?u = "failures p ts (record_success u)"
  have f: "failures p (ts @ [t]) v = fst (record_failure p t (failures p ts v))" for v
    by (simp add: failures_def)
  have IH: "unat (consecutive_errors ?u) = length ts"
    "ejected_until_ms ?u = (if ts \<noteq> [] \<and> unat (eject_after (passive_cfg p)) \<le> length ts
       then sat_add_u64 (last ts) (eject_for_secs (passive_cfg p) * 1000) else ejected_until_ms u)"
    using snoc by simp_all
  have n: "unat (consecutive_errors ?u + 1) = Suc (length ts)"
    using IH(1) snoc.prems(1) by (simp add: unat_word_ariths)
  show ?case
    unfolding f record_failure_def Let_def
    using n IH snoc.prems(2) by (auto simp: word_le_nat_alt)
qed (simp add: failures_def record_success_def)



text \<open>
  The health flag as a function of the verdicts, the latest first: the flag is lowered by a run of
  failures of at least \<open>unhealthy_after\<close>, raised by a run of successes of at least \<open>healthy_after\<close>
  and unchanged otherwise.
\<close>

fun health_ref :: "active_health \<Rightarrow> bool \<Rightarrow> bool list \<Rightarrow> bool" where
  "health_ref cfg h [] = h"
| "health_ref cfg h (v # vs) =
     (let run = length (takeWhile (\<lambda>x. x = v) (v # vs))
      in if \<not> v \<and> unat (unhealthy_after cfg) \<le> run then False
         else if v \<and> unat (healthy_after cfg) \<le> run then True
         else health_ref cfg h vs)"

definition probe_run ::
  "active_health \<Rightarrow> bool list \<Rightarrow> upstream \<times> probe_state \<Rightarrow> upstream \<times> probe_state" where
  "probe_run cfg oks s = foldl (\<lambda>(u, st) ok. let (u', st', _) = probe_step cfg ok (u, st, None) in (u', st')) s oks"

lemma probe_step_metrics:
  "fst (probe_step cfg ok (u, st, m)) = fst (probe_step cfg ok (u, st, None))"
  "fst (snd (probe_step cfg ok (u, st, m))) = fst (snd (probe_step cfg ok (u, st, None)))"
  by (simp_all add: probe_step_def Let_def)

lemma probe_tick_each:
  "length oks = length us \<Longrightarrow>
     fst (probe_tick cfg oks us m) = map2 (\<lambda>ok s. probe_run cfg [ok] s) oks us"
proof (induction cfg oks us m rule: probe_tick.induct)
  case (1 cfg ok oks u st us m)
  obtain u' st' m' where s: "probe_step cfg ok (u, st, m) = (u', st', m')" by (cases "probe_step cfg ok (u, st, m)")
  then have "fst (probe_step cfg ok (u, st, None)) = u'" "fst (snd (probe_step cfg ok (u, st, None))) = st'"
    using probe_step_metrics[of cfg ok u st m] by simp_all
  then have "probe_run cfg [ok] (u, st) = (u', st')" by (simp add: probe_run_def Let_def case_prod_beta)
  then show ?case using 1 s by (simp add: case_prod_beta)
qed auto

lemma unat_max_u32: "unat (- 1 :: u32) = 2 ^ 32 - 1"
  by (simp add: unsigned_minus_1_eq_mask mask_eq_exp_minus_1)

lemma unat_le_u32: "unat (n :: u32) \<le> 2 ^ 32 - 1"
  using word_order.extremum[of n] unfolding word_le_nat_alt unat_max_u32 .

lemma sat_inc_min: "unat (sat_inc_u32 n) = min (unat n + 1) (2 ^ 32 - 1)"
proof (cases "n = - 1")
  case False
  then have "unat n \<noteq> 2 ^ 32 - 1" using unat_max_u32 by (metis word_unat_eq_iff)
  then show ?thesis using False unat_le_u32[of n] by (simp add: sat_inc_u32_def unat_word_ariths)
qed (simp add: sat_inc_u32_def unat_max_u32)

lemma probe_run_snoc:
  "probe_run cfg (oks @ [ok]) s =
     (let (u, st) = probe_run cfg oks s; (u', st', _) = probe_step cfg ok (u, st, None) in (u', st'))"
  by (simp add: probe_run_def case_prod_beta)

lemma probe_run_state:
  assumes "probe_run cfg oks (u, probe_default) = (u', st)"
  shows "unat (pr_failures st) = min (length (takeWhile Not (rev oks))) (2 ^ 32 - 1)
    \<and> unat (pr_successes st) = min (length (takeWhile (\<lambda>v. v) (rev oks))) (2 ^ 32 - 1)
    \<and> healthy u' = health_ref cfg (healthy u) (rev oks)"
  using assms
proof (induction oks arbitrary: u' st rule: rev_induct)
  case (snoc ok oks)
  obtain v s where r: "probe_run cfg oks (u, probe_default) = (v, s)" by (cases "probe_run cfg oks (u, probe_default)")
  note IH = snoc.IH[OF r]
  have st: "(u', st) = (let (u', st', _) = probe_step cfg ok (v, s, None) in (u', st'))"
    using snoc.prems by (simp add: probe_run_snoc r)
  have mm: "min (min k (2 ^ 32 - 1) + 1) (2 ^ 32 - 1) = min (Suc k) (2 ^ 32 - 1)" for k :: nat by simp
  show ?case
  proof (cases ok)
    case True
    have "unat (sat_inc_u32 (pr_successes s)) = min (Suc (length (takeWhile (\<lambda>v. v) (rev oks)))) (2 ^ 32 - 1)"
      using IH unfolding sat_inc_min by (simp only: mm)
    then show ?thesis
      using st True IH unat_le_u32[of "healthy_after cfg"]
      by (auto simp: probe_step_def Let_def word_le_nat_alt split: if_splits)
  next
    case False
    have "unat (sat_inc_u32 (pr_failures s)) = min (Suc (length (takeWhile Not (rev oks)))) (2 ^ 32 - 1)"
      using IH unfolding sat_inc_min by (simp only: mm)
    then show ?thesis
      using st False IH unat_le_u32[of "unhealthy_after cfg"]
      by (auto simp: probe_step_def Let_def word_le_nat_alt split: if_splits)
  qed
qed (simp add: probe_run_def probe_default_def)

lemma probe_run_append: "probe_run cfg (xs @ ys) s = probe_run cfg ys (probe_run cfg xs s)"
  by (simp add: probe_run_def)

lemma probe_ticks_each:
  assumes "\<forall>r \<in> set rounds. length r = length us" "i < length us"
  shows "length (fst (probe_ticks cfg rounds us m)) = length us
    \<and> fst (probe_ticks cfg rounds us m) ! i = probe_run cfg (map (\<lambda>r. r ! i) rounds) (us ! i)"
  using assms
proof (induction rounds arbitrary: us m)
  case (Cons r rounds)
  let ?us = "fst (probe_tick cfg r us m)"
  have "length r = length us" using Cons.prems by simp
  from probe_tick_each[OF this, of cfg m] this Cons.prems(2)
  have e: "length ?us = length us" "?us ! i = probe_run cfg [r ! i] (us ! i)" by simp_all
  have "probe_run cfg (map (\<lambda>r. r ! i) (r # rounds)) (us ! i) = probe_run cfg (map (\<lambda>r. r ! i) rounds) (?us ! i)"
    using probe_run_append[of cfg "[r ! i]" "map (\<lambda>r. r ! i) rounds" "us ! i"] e(2) by simp
  moreover have "fst (probe_ticks cfg (r # rounds) us m) =
      fst (probe_ticks cfg rounds ?us (snd (probe_tick cfg r us m)))" by (simp add: case_prod_beta)
  moreover have "\<forall>x \<in> set rounds. length x = length ?us" "i < length ?us" using Cons.prems e(1) by simp_all
  ultimately show ?case using Cons.IH[of ?us "snd (probe_tick cfg r us m)"] e(1) by metis
qed (simp add: probe_run_def)

text \<open>
  C17. The health-check task implements the hysteresis its configuration describes: after any rounds
  of probes, the flag of every upstream is the one \<open>health_ref\<close> reads off that upstream's own
  verdicts, with counters of 32 bits that saturate instead of wrapping.
\<close>

theorem active_health_exact:
  assumes "active_health_task cfg rounds us m = Some (us', m')"
    "\<forall>r \<in> set rounds. length r = length us" "i < length us"
  shows "healthy (us' ! i) = health_ref cfg (healthy (us ! i)) (rev (map (\<lambda>r. r ! i) rounds))"
proof -
  let ?s = "map (\<lambda>u. (u, probe_default)) us"
  have us': "us' = map fst (fst (probe_ticks cfg rounds ?s m))"
    using assms(1) by (auto simp: active_health_task_def case_prod_beta split: if_splits)
  note e = probe_ticks_each[of rounds ?s i cfg m]
  obtain v st where r: "probe_run cfg (map (\<lambda>r. r ! i) rounds) (us ! i, probe_default) = (v, st)"
    by (cases "probe_run cfg (map (\<lambda>r. r ! i) rounds) (us ! i, probe_default)")
  then have "us' ! i = v" using e assms(2,3) us' by simp
  with probe_run_state[OF r] show ?thesis by simp
qed

theorem active_health_exact_witness:
  "\<exists>us' m'. active_health_task \<lparr>interval_secs = 10, unhealthy_after = 2, healthy_after = 1\<rparr>
      [[True, False], [True, False]] (upstreams two_pool) None = Some (us', m')
    \<and> healthy (us' ! 0) \<and> \<not> healthy (us' ! 1)"
proof -
  let ?cfg = "\<lparr>interval_secs = 10, unhealthy_after = 2, healthy_after = 1\<rparr>"
  let ?t = "active_health_task ?cfg [[True, False], [True, False]] (upstreams two_pool) None"
  have "?t \<noteq> None" by (simp add: active_health_task_def case_prod_beta del: probe_ticks.simps)
  then obtain us' m' where t: "?t = Some (us', m')" by auto
  have "healthy (us' ! 0) \<and> \<not> healthy (us' ! 1)"
    using active_health_exact[OF t, of 0] active_health_exact[OF t, of 1]
    by (simp add: two_pool_simps(1) new_upstream_def)
  with t show ?thesis by blast
qed

end
