(* ===== verification/Http.thy ===== *)
theory Http
  imports Crates
begin

text \<open>
  What several components share of HTTP and of time: requests and responses, the dates of the
  \<open>httpdate\<close> crate, and the durations of the standard library.

  A body is \<open>None\<close> when reading it fails, so that buffering a body is a case distinction; a body
  that is only forwarded is never inspected. An \<open>Instant\<close> and a \<open>Duration\<close> are nanoseconds, and a
  \<open>SystemTime\<close> that comes from an HTTP date is whole seconds since the epoch.
\<close>

section \<open>Time\<close>

datatype panic = Duration_overflow

definition NANOS :: nat where
  "NANOS = 1000000000"

definition from_secs :: "nat \<Rightarrow> nat" where
  "from_secs s = s * NANOS"

definition as_secs :: "nat \<Rightarrow> nat" where
  "as_secs d = d div NANOS"

text \<open>\<open>Duration::MAX\<close> is \<open>u64::MAX\<close> seconds and 999999999 nanoseconds; \<open>+\<close> panics beyond it.\<close>

definition duration_max :: nat where
  "duration_max = u64_max * NANOS + (NANOS - 1)"

definition duration_add :: "nat \<Rightarrow> nat \<Rightarrow> panic + nat" where
  "duration_add a b = (if a + b \<le> duration_max then Inr (a + b) else Inl Duration_overflow)"

lemma NANOS_pos [simp]: "0 < NANOS"
  by (simp add: NANOS_def)

lemma as_secs_from_secs [simp]: "as_secs (from_secs s) = s"
  by (simp add: as_secs_def from_secs_def)

lemma from_secs_eq_0 [simp]: "from_secs s = 0 \<longleftrightarrow> s = 0"
  by (simp add: from_secs_def NANOS_def)

lemma duration_add_Inr [res_simps]:
  "duration_add a b = Inr c \<longleftrightarrow> c = a + b \<and> a + b \<le> duration_max"
  by (auto simp: duration_add_def)

lemma map_sum_Inr [res_simps]: "map_sum f g r = Inr y \<longleftrightarrow> (\<exists>x. r = Inr x \<and> y = g x)"
  by (cases r) auto

record date_ops =
  parse_http_date :: "string \<Rightarrow> nat option"
  fmt_http_date :: "nat \<Rightarrow> string"

text \<open>A date format to evaluate with: the seconds in decimal.\<close>

definition epoch_dates :: date_ops where
  "epoch_dates = \<lparr>parse_http_date = parse_uint u64_max, fmt_http_date = show_nat\<rparr>"

section \<open>Messages\<close>

record 'h http_request =
  rq_method :: string
  rq_headers :: 'h

record 'h http_response =
  rs_status :: nat
  rs_headers :: 'h
  rs_body :: "string option"

end
