(* ===== verification/Cache_Entry.thy ===== *)
theory Cache_Entry
  imports Http Variables
begin

text \<open>
  A stored response and its reuse (\<open>cache/entry.rs\<close>), and the cache key (\<open>cache/key.rs\<close>):
  freshness and age, the variants selected by \<open>Vary\<close>, conditional requests, the validators sent
  for a revalidation and the copy refreshed by it.
\<close>

section \<open>The cache key\<close>

record cache_key =
  key_template :: "template option"

definition compile_key ::
  "'h header_ops \<Rightarrow> string option \<Rightarrow> var_names \<Rightarrow> template_error + cache_key" where
  "compile_key H key names =
     (case key of
        None \<Rightarrow> Inr \<lparr>key_template = None\<rparr>
      | Some k \<Rightarrow> bind_result (compile_template H k names) (\<lambda>t. Inr \<lparr>key_template = Some t\<rparr>))"

definition build_cache_key ::
  "'re regex_ops \<Rightarrow> 're var_table option \<Rightarrow> cache_key \<Rightarrow> request_context \<Rightarrow> slots \<Rightarrow>
   (string \<times> slots) option" where
  "build_cache_key R scope k cx sl =
     (case key_template k of
        Some t \<Rightarrow> map_option (\<lambda>(s, sl'). (cx_method cx @ '' '' @ s, sl')) (render R scope cx t sl)
      | None \<Rightarrow>
          Some (cx_method cx @ '' '' @ cx_scheme cx @ ''://'' @ cx_host cx @ cx_path_and_query cx, sl))"

section \<open>Stored responses\<close>

definition SKIP_ON_STORE :: "string list" where
  "SKIP_ON_STORE =
     [''connection'', ''keep-alive'', ''proxy-authenticate'', ''proxy-authorization'', ''te'',
      ''trailers'', ''transfer-encoding'', ''upgrade'', ''age'']"

record 'h stored_response =
  st_status :: nat
  st_headers :: 'h
  st_body :: string
  stored_at :: nat
  freshness_lifetime :: nat
  initial_age :: nat
  st_etag :: "string option"
  st_last_modified :: "nat option"
  st_vary :: "(string \<times> string option) list"
  st_swr :: nat
  st_sie :: nat
  st_size :: nat

fun copy_stored :: "'h header_ops \<Rightarrow> (string \<times> string) list \<Rightarrow> 'h \<Rightarrow> 'h" where
  "copy_stored H [] h = h"
| "copy_stored H ((name, v) # rest) h =
     (if name \<in> set SKIP_ON_STORE then copy_stored H rest h
      else copy_stored H rest (hm_append H h name v))"

definition entry_etag :: "'h header_ops \<Rightarrow> 'h \<Rightarrow> string option" where
  "entry_etag H h = hm_get_str H h ''etag''"

definition header_date :: "'h header_ops \<Rightarrow> date_ops \<Rightarrow> 'h \<Rightarrow> string \<Rightarrow> nat option" where
  "header_date H D h name = Option.bind (hm_get_str H h name) (parse_http_date D)"

definition new_stored ::
  "'h header_ops \<Rightarrow> date_ops \<Rightarrow> nat \<Rightarrow> 'h \<Rightarrow> string \<Rightarrow> nat \<Rightarrow> nat \<Rightarrow>
   (string \<times> string option) list \<Rightarrow> nat \<Rightarrow> 'h stored_response" where
  "new_stored H D status src body lifetime age vary at =
     (let headers = copy_stored H (hm_iter H src) (hm_empty H)
      in \<lparr>st_status = status, st_headers = headers, st_body = body, stored_at = at,
          freshness_lifetime = lifetime, initial_age = age, st_etag = entry_etag H headers,
          st_last_modified = header_date H D headers ''last-modified'', st_vary = vary,
          st_swr = 0, st_sie = 0, st_size = length body\<rparr>)"

definition with_stale_windows :: "'h stored_response \<Rightarrow> nat \<Rightarrow> nat \<Rightarrow> 'h stored_response" where
  "with_stale_windows e swr sie = e\<lparr>st_swr := swr, st_sie := sie\<rparr>"

definition is_fresh :: "'h stored_response \<Rightarrow> nat \<Rightarrow> bool" where
  "is_fresh e now \<longleftrightarrow> now - stored_at e < freshness_lifetime e"

definition current_age :: "'h stored_response \<Rightarrow> nat \<Rightarrow> panic + nat" where
  "current_age e now = duration_add (initial_age e) (now - stored_at e)"

definition remaining_freshness :: "'h stored_response \<Rightarrow> nat \<Rightarrow> nat" where
  "remaining_freshness e now = freshness_lifetime e - (now - stored_at e)"

definition staleness :: "'h stored_response \<Rightarrow> nat \<Rightarrow> nat" where
  "staleness e now = (now - stored_at e) - freshness_lifetime e"

definition vary_matches :: "'h header_ops \<Rightarrow> 'h stored_response \<Rightarrow> 'h \<Rightarrow> bool" where
  "vary_matches H e req = list_all (\<lambda>(name, stored). hm_get_str H req name = stored) (st_vary e)"

definition strip_weak :: "string \<Rightarrow> string" where
  "strip_weak tag = (case strip_prefix ''W/'' tag of Some r \<Rightarrow> r | None \<Rightarrow> tag)"

definition if_none_match_hits :: "string \<Rightarrow> string option \<Rightarrow> bool" where
  "if_none_match_hits inm0 etag =
     (let inm = trim inm0
      in if inm = ''*'' then etag \<noteq> None
         else (case etag of
            None \<Rightarrow> False
          | Some e \<Rightarrow>
              list_ex (\<lambda>t. strip_weak (trim t) = strip_weak e) (split_on CHR '','' inm)))"

definition client_not_modified ::
  "'h header_ops \<Rightarrow> date_ops \<Rightarrow> 'h stored_response \<Rightarrow> 'h \<Rightarrow> bool" where
  "client_not_modified H D e req =
     (case hm_get_str H req ''if-none-match'' of
        Some inm \<Rightarrow> if_none_match_hits inm (st_etag e)
      | None \<Rightarrow>
          (case (st_last_modified e, header_date H D req ''if-modified-since'') of
             (Some stored, Some ims) \<Rightarrow> stored \<le> ims
           | _ \<Rightarrow> False))"

definition set_age :: "'h header_ops \<Rightarrow> 'h \<Rightarrow> nat \<Rightarrow> 'h" where
  "set_age H h age =
     (case hv_from_str H (show_nat (as_secs age)) of
        Some v \<Rightarrow> hm_insert H h ''age'' v
      | None \<Rightarrow> h)"

definition to_response ::
  "'h header_ops \<Rightarrow> 'h stored_response \<Rightarrow> nat \<Rightarrow> panic + 'h http_response" where
  "to_response H e now =
     bind_result (current_age e now) (\<lambda>age.
       Inr \<lparr>rs_status = st_status e, rs_headers = set_age H (st_headers e) age,
            rs_body = Some (st_body e)\<rparr>)"

fun copy_named :: "'h header_ops \<Rightarrow> ('h \<Rightarrow> string \<Rightarrow> string \<Rightarrow> 'h) \<Rightarrow> 'h \<Rightarrow> string list \<Rightarrow> 'h \<Rightarrow> 'h" where
  "copy_named H put src [] h = h"
| "copy_named H put src (name # names) h =
     copy_named H put src names (case hm_get H src name of Some v \<Rightarrow> put h name v | None \<Rightarrow> h)"

definition not_modified_response ::
  "'h header_ops \<Rightarrow> 'h stored_response \<Rightarrow> nat \<Rightarrow> panic + 'h http_response" where
  "not_modified_response H e now =
     (let h = copy_named H (hm_append H) (st_headers e) [''etag'', ''last-modified'', ''cache-control'']
                (hm_empty H)
      in bind_result (current_age e now) (\<lambda>age.
           Inr \<lparr>rs_status = 304, rs_headers = hm_remove H (set_age H h age) ''content-length'',
                rs_body = Some []\<rparr>))"

definition has_validators :: "'h stored_response \<Rightarrow> bool" where
  "has_validators e \<longleftrightarrow> st_etag e \<noteq> None \<or> st_last_modified e \<noteq> None"

definition revalidation_headers ::
  "'h header_ops \<Rightarrow> date_ops \<Rightarrow> 'h stored_response \<Rightarrow> (string \<times> string) list" where
  "revalidation_headers H D e =
     (case Option.bind (st_etag e) (hv_from_str H) of
        Some v \<Rightarrow> [(''if-none-match'', v)] | None \<Rightarrow> []) @
     (case Option.bind (st_last_modified e) (\<lambda>t. hv_from_str H (fmt_http_date D t)) of
        Some v \<Rightarrow> [(''if-modified-since'', v)] | None \<Rightarrow> [])"

definition refreshed ::
  "'h header_ops \<Rightarrow> date_ops \<Rightarrow> 'h stored_response \<Rightarrow> 'h \<Rightarrow> nat \<Rightarrow> nat \<Rightarrow> nat \<Rightarrow> 'h stored_response" where
  "refreshed H D e update lifetime age now =
     (let headers = copy_named H (hm_insert H) update
            [''cache-control'', ''date'', ''expires'', ''etag'', ''last-modified'', ''vary''] (st_headers e)
      in e\<lparr>st_headers := headers, stored_at := now, freshness_lifetime := lifetime, initial_age := age,
           st_etag := entry_etag H headers,
           st_last_modified := header_date H D headers ''last-modified''\<rparr>)"

end
