(* ===== verification/Cache_Store.thy ===== *)
theory Cache_Store
  imports Cache_Entry
begin

text \<open>
  The process-wide response store (\<open>cache/store.rs\<close>): an LRU map bounded by a byte budget, the
  registry of fetches in flight, and the sweep of stale entries.

  Each operation runs under a mutex, so it is a function on the state. The LRU map is the
  \<open>lru\<close> crate, a parameter with the laws of the locale \<open>lru_cache\<close>. Byte counts are natural
  numbers and the code's \<open>saturating_sub\<close> is subtraction on them: the invariant below shows that
  no subtraction saturates and that the sum never exceeds the budget by more than one body.
\<close>

section \<open>State and operations\<close>

record cache_metrics =
  cache_hits :: u64
  cache_misses :: u64
  cache_revalidations :: u64
  cache_bypass :: u64
  cache_stores :: u64
  cache_evictions :: u64
  cache_entries_gauge :: u64
  cache_bytes_gauge :: u64

record 'm cache_store =
  cs_map :: 'm
  cs_bytes :: nat
  cs_max_bytes :: nat
  cs_inflight :: "(string \<times> nat) list"
  cs_open :: "nat list"
  cs_next :: nat
  cs_metrics :: cache_metrics

type_synonym ('m, 'h) response_lru = "('m, string, 'h stored_response) lru_ops"

definition new_store :: "('m, 'h) response_lru \<Rightarrow> nat \<Rightarrow> cache_metrics \<Rightarrow> 'm cache_store" where
  "new_store L mx m =
     \<lparr>cs_map = lru_new L, cs_bytes = 0, cs_max_bytes = mx, cs_inflight = [], cs_open = [],
      cs_next = 0, cs_metrics = m\<rparr>"

text \<open>
  A fetch in flight is a \<open>watch\<close> channel: the registry maps its key to the channel, and the channel
  is open while the leader holds the sender. Channels are numbered in the order they are created.
  Dropping the leader's guard removes the key and closes the channel.
\<close>

datatype fetch_role = Leader nat | Follower nat

definition begin_fetch :: "string \<Rightarrow> 'm cache_store \<Rightarrow> fetch_role \<times> 'm cache_store" where
  "begin_fetch key s =
     (case map_of (cs_inflight s) key of
        Some ch \<Rightarrow> (Follower ch, s)
      | None \<Rightarrow>
          (Leader (cs_next s),
           s\<lparr>cs_inflight := (key, cs_next s) # cs_inflight s, cs_open := cs_next s # cs_open s,
             cs_next := cs_next s + 1\<rparr>))"

definition drop_leader :: "string \<Rightarrow> nat \<Rightarrow> 'm cache_store \<Rightarrow> 'm cache_store" where
  "drop_leader key ch s =
     s\<lparr>cs_inflight := drop_key key (cs_inflight s), cs_open := removeAll ch (cs_open s)\<rparr>"

definition store_get ::
  "('m, 'h) response_lru \<Rightarrow> string \<Rightarrow> 'm cache_store \<Rightarrow> 'h stored_response option \<times> 'm cache_store" where
  "store_get L key s = (let (r, m) = lru_get L (cs_map s) key in (r, s\<lparr>cs_map := m\<rparr>))"

definition count_cache :: "(cache_metrics \<Rightarrow> cache_metrics) \<Rightarrow> 'm cache_store \<Rightarrow> 'm cache_store" where
  "count_cache f s = s\<lparr>cs_metrics := f (cs_metrics s)\<rparr>"

definition evicted_one :: "cache_metrics \<Rightarrow> cache_metrics" where
  "evicted_one m = m\<lparr>cache_evictions := cache_evictions m + 1\<rparr>"

text \<open>
  The eviction loop of \<open>insert\<close>. Every round takes an entry out of the map, so as many rounds as
  the map has entries are enough: the loop has then ended by its own condition
  (lemma \<open>shrink_exit\<close>).
\<close>

fun shrink :: "nat \<Rightarrow> ('m, 'h) response_lru \<Rightarrow> 'm cache_store \<Rightarrow> 'm cache_store" where
  "shrink 0 L s = s"
| "shrink (Suc n) L s =
     (if cs_max_bytes s < cs_bytes s \<and> 1 < lru_len L (cs_map s) then
        (case lru_pop_lru L (cs_map s) of
           (Some (k, e), m) \<Rightarrow>
             shrink n L (count_cache evicted_one (s\<lparr>cs_map := m, cs_bytes := cs_bytes s - st_size e\<rparr>))
         | (None, m) \<Rightarrow> s\<lparr>cs_map := m\<rparr>)
      else s)"

definition store_insert ::
  "('m, 'h) response_lru \<Rightarrow> string \<Rightarrow> 'h stored_response \<Rightarrow> 'm cache_store \<Rightarrow> 'm cache_store" where
  "store_insert L key e s =
     (if cs_max_bytes s < st_size e then s
      else
        (let (old, m) = lru_put L (cs_map s) key e;
             bytes = (case old of Some o' \<Rightarrow> cs_bytes s - st_size o' | None \<Rightarrow> cs_bytes s);
             s1 = s\<lparr>cs_map := m, cs_bytes := bytes + st_size e\<rparr>
         in count_cache (\<lambda>m. m\<lparr>cache_stores := cache_stores m + 1\<rparr>) (shrink (lru_len L m) L s1)))"

definition pop_key ::
  "('m, 'h) response_lru \<Rightarrow> (cache_metrics \<Rightarrow> cache_metrics) \<Rightarrow> string \<Rightarrow> 'm cache_store \<Rightarrow> 'm cache_store" where
  "pop_key L f key s =
     (case lru_pop L (cs_map s) key of
        (Some old, m) \<Rightarrow> count_cache f (s\<lparr>cs_map := m, cs_bytes := cs_bytes s - st_size old\<rparr>)
      | (None, m) \<Rightarrow> s\<lparr>cs_map := m\<rparr>)"

definition store_remove :: "('m, 'h) response_lru \<Rightarrow> string \<Rightarrow> 'm cache_store \<Rightarrow> 'm cache_store" where
  "store_remove L key s = pop_key L (\<lambda>m. m) key s"

definition evict_expired :: "('m, 'h) response_lru \<Rightarrow> nat \<Rightarrow> 'm cache_store \<Rightarrow> 'm cache_store" where
  "evict_expired L now s =
     (let stale = map fst (filter (\<lambda>(k, e). \<not> is_fresh e now) (lru_iter L (cs_map s)))
      in foldl (\<lambda>s k. pop_key L evicted_one k s) s stale)"

definition store_stats :: "('m, 'h) response_lru \<Rightarrow> 'm cache_store \<Rightarrow> u64 \<times> u64" where
  "store_stats L s = (of_nat (lru_len L (cs_map s)), of_nat (cs_bytes s))"

definition cache_eviction_tick :: "('m, 'h) response_lru \<Rightarrow> nat \<Rightarrow> 'm cache_store \<Rightarrow> 'm cache_store" where
  "cache_eviction_tick L now s =
     (let s' = evict_expired L now s; (n, b) = store_stats L s'
      in count_cache (\<lambda>m. m\<lparr>cache_entries_gauge := n, cache_bytes_gauge := b\<rparr>) s')"

section \<open>Runs of the store\<close>

datatype 'h store_op =
    SGet string
  | SInsert string "'h stored_response"
  | SRemove string
  | STick nat
  | SBegin string
  | SDrop string nat

fun store_step :: "('m, 'h) response_lru \<Rightarrow> 'h store_op \<Rightarrow> 'm cache_store \<Rightarrow> 'm cache_store" where
  "store_step L (SGet k) s = snd (store_get L k s)"
| "store_step L (SInsert k e) s = store_insert L k e s"
| "store_step L (SRemove k) s = store_remove L k s"
| "store_step L (STick now) s = cache_eviction_tick L now s"
| "store_step L (SBegin k) s = snd (begin_fetch k s)"
| "store_step L (SDrop k ch) s = drop_leader k ch s"

definition store_run :: "('m, 'h) response_lru \<Rightarrow> 'h store_op list \<Rightarrow> 'm cache_store \<Rightarrow> 'm cache_store" where
  "store_run L ops s = foldl (\<lambda>s a. store_step L a s) s ops"

section \<open>Contents and budget\<close>

definition entries :: "('m, 'h) response_lru \<Rightarrow> 'm cache_store \<Rightarrow> (string \<times> 'h stored_response) list" where
  "entries L s = lru_iter L (cs_map s)"

definition total_size :: "(string \<times> 'h stored_response) list \<Rightarrow> nat" where
  "total_size es = sum_list (map (\<lambda>(k, e). st_size e) es)"

definition store_ok :: "('m, 'h) response_lru \<Rightarrow> 'm cache_store \<Rightarrow> bool" where
  "store_ok L s \<longleftrightarrow> cs_bytes s = total_size (entries L s) \<and> cs_bytes s \<le> cs_max_bytes s"

lemma total_size_simps [simp]:
  "total_size [] = 0" "total_size ((k, e) # es) = st_size e + total_size es"
  "total_size (xs @ ys) = total_size xs + total_size ys"
  by (simp_all add: total_size_def)

lemma total_size_drop:
  "distinct (map fst es) \<Longrightarrow>
     total_size es = (case map_of es k of None \<Rightarrow> 0 | Some e \<Rightarrow> st_size e) + total_size (drop_key k es)"
proof (induction es)
  case (Cons p es)
  obtain j e where p: "p = (j, e)" by (cases p)
  show ?case
  proof (cases "j = k")
    case True
    then have "k \<notin> fst ` set es" using Cons.prems p by simp
    then have "drop_key k es = es" by (auto simp: filter_id_conv image_iff)
    then show ?thesis using True p by simp
  next
    case False
    then show ?thesis using Cons p by simp
  qed
qed simp

lemma insert_too_big: "cs_max_bytes s < st_size e \<Longrightarrow> store_insert L k e s = s"
  by (simp add: store_insert_def)

lemma entries_update [simp]:
  "entries L (s\<lparr>cs_inflight := i\<rparr>) = entries L s" "entries L (count_cache f s) = entries L s"
  "entries L (s\<lparr>cs_open := os\<rparr>) = entries L s" "entries L (s\<lparr>cs_next := n\<rparr>) = entries L s"
  by (simp_all add: entries_def count_cache_def)

lemma store_ok_update [simp]:
  "store_ok L (s\<lparr>cs_inflight := i\<rparr>) = store_ok L s" "store_ok L (count_cache f s) = store_ok L s"
  "store_ok L (s\<lparr>cs_open := os\<rparr>) = store_ok L s" "store_ok L (s\<lparr>cs_next := n\<rparr>) = store_ok L s"
  by (simp_all add: store_ok_def) (simp add: count_cache_def)

text \<open>The part of the state that only \<open>begin_fetch\<close> and the leaders' guards change.\<close>

abbreviation registry :: "'m cache_store \<Rightarrow> (string \<times> nat) list \<times> nat list \<times> nat \<times> nat" where
  "registry s \<equiv> (cs_inflight s, cs_open s, cs_next s, cs_max_bytes s)"

text \<open>
  Keeping the most recent entries within the budget, and at least one: what is left is the
  longest prefix of the recency list that fits.
\<close>

fun fit :: "nat \<Rightarrow> (string \<times> 'h stored_response) list \<Rightarrow> (string \<times> 'h stored_response) list" where
  "fit mx es = (if mx < total_size es \<and> 1 < length es then fit mx (butlast es) else es)"

declare fit.simps [simp del]

lemma fit_step: "mx < total_size es \<and> 1 < length es \<Longrightarrow> fit mx es = fit mx (butlast es)"
  by (simp add: fit.simps[of mx es])

lemma fit_stop: "\<not> (mx < total_size es \<and> 1 < length es) \<Longrightarrow> fit mx es = es"
  unfolding fit.simps[of mx es] by (rule if_not_P)

lemma fit_exit: "\<not> (mx < total_size (fit mx es) \<and> 1 < length (fit mx es))"
proof (induction mx es rule: fit.induct)
  case (1 mx es)
  then show ?case
    by (cases "mx < total_size es \<and> 1 < length es") (simp_all add: fit_step fit_stop)
qed

lemma fit_prefix:
  "\<exists>n \<le> length es. fit mx es = take n es \<and> (es \<noteq> [] \<longrightarrow> 0 < n)
     \<and> (n < length es \<longrightarrow> mx < total_size (take (Suc n) es))"
proof (induction mx es rule: fit.induct)
  case (1 mx es)
  show ?case
  proof (cases "mx < total_size es \<and> 1 < length es")
    case True
    then obtain n where n: "n \<le> length (butlast es)" "fit mx (butlast es) = take n (butlast es)"
      "butlast es \<noteq> [] \<longrightarrow> 0 < n" "n < length (butlast es) \<longrightarrow> mx < total_size (take (Suc n) (butlast es))"
      using "1.IH" by blast
    have t: "take k (butlast es) = take k es" if "k < length es" for k
      using that by (auto simp: butlast_conv_take min_def)
    have "mx < total_size (take (Suc n) es)" if "n < length es"
    proof (cases "Suc n < length es")
      case True
      then show ?thesis using n(4) t by simp
    next
      case False
      then show ?thesis using \<open>mx < total_size es \<and> 1 < length es\<close> that by simp
    qed
    moreover have "n < length es" using True n(1) unfolding length_butlast by linarith
    then have "fit mx es = take n es" using True n(2) t[of n] fit_step[of mx es] by simp
    moreover have "0 < length (butlast es)" using True by simp
    then have "0 < n" using n(3) by (metis length_greater_0_conv)
    moreover have "n \<le> length es" using n(1) by simp
    ultimately show ?thesis by blast
  next
    case False
    then show ?thesis by (intro exI[of _ "length es"]) (simp add: fit_stop)
  qed
qed

lemma fit_small:
  assumes "st_size (snd p) \<le> mx"
  shows "total_size (fit mx (p # es)) \<le> mx"
proof -
  obtain n where n: "fit mx (p # es) = take n (p # es)" "0 < n"
    using fit_prefix[of "p # es" mx] by auto
  show ?thesis
  proof (cases "1 < length (fit mx (p # es))")
    case True
    then show ?thesis using fit_exit[of mx "p # es"] by simp
  next
    case False
    with n have "fit mx (p # es) = [p]" by (cases n) auto
    then show ?thesis using assms by (cases p) simp
  qed
qed

locale cache_lru = lru_cache L for L :: "('m, string, 'h stored_response) lru_ops"
begin

lemma entries_distinct: "distinct (map fst (entries L s))"
  by (simp add: entries_def iter_distinct)

lemma pop_key_entries:
  "entries L (pop_key L f key s) = drop_key key (entries L s)
   \<and> registry (pop_key L f key s) = registry s"
proof (cases "lru_pop L (cs_map s) key")
  case (Pair r m)
  then have "r = map_of (entries L s) key" "lru_iter L m = drop_key key (entries L s)"
    using pop_result[of "cs_map s" key] iter_pop[of "cs_map s" key] by (simp_all add: entries_def)
  with Pair show ?thesis
    by (auto simp: pop_key_def entries_def count_cache_def split: option.split)
qed

lemma pop_key_ok:
  assumes "store_ok L s"
  shows "store_ok L (pop_key L f key s)"
proof (cases "lru_pop L (cs_map s) key")
  case (Pair r m)
  have r: "r = map_of (entries L s) key" using Pair pop_result[of "cs_map s" key] by (simp add: entries_def)
  have "cs_bytes (pop_key L f key s) = cs_bytes s - (case r of None \<Rightarrow> 0 | Some e \<Rightarrow> st_size e)"
    by (cases r) (simp_all add: pop_key_def Pair count_cache_def)
  with assms r pop_key_entries[of f key s] total_size_drop[OF entries_distinct[of s], of key]
  show ?thesis by (simp add: store_ok_def)
qed

lemma get_entries:
  "store_get L key s = (r, s') \<Longrightarrow>
     r = map_of (entries L s) key \<and> cs_bytes s' = cs_bytes s \<and> registry s' = registry s
     \<and> cs_metrics s' = cs_metrics s
     \<and> entries L s' = (case r of None \<Rightarrow> entries L s | Some v \<Rightarrow> (key, v) # drop_key key (entries L s))"
  using get_result[of "cs_map s" key] iter_get[of "cs_map s" key]
  by (auto simp: store_get_def entries_def split: prod.splits option.split)

lemma get_ok:
  assumes "store_get L key s = (r, s')" "store_ok L s"
  shows "store_ok L s'"
  using get_entries[OF assms(1)] assms(2) total_size_drop[OF entries_distinct[of s], of key]
  by (auto simp: store_ok_def split: option.splits)

text \<open>
  The eviction loop is \<open>fit\<close> on the recency list, and it has ended by its own condition when its
  rounds are used up.
\<close>

lemma shrink_fit:
  assumes "cs_bytes s = total_size (entries L s)" "length (entries L s) \<le> k"
  shows "entries L (shrink k L s) = fit (cs_max_bytes s) (entries L s)
    \<and> cs_bytes (shrink k L s) = total_size (fit (cs_max_bytes s) (entries L s))
    \<and> registry (shrink k L s) = registry s"
  using assms
proof (induction k arbitrary: s)
  case (Suc k)
  let ?es = "entries L s"
  have len: "lru_len L (cs_map s) = length ?es" by (simp add: len_iter entries_def)
  show ?case
  proof (cases "cs_max_bytes s < cs_bytes s \<and> 1 < length ?es")
    case True
    then have ne: "?es \<noteq> []" by auto
    obtain j e where le: "last ?es = (j, e)" by (cases "last ?es")
    obtain m where pop: "lru_pop_lru L (cs_map s) = (Some (j, e), m)" "lru_iter L m = butlast ?es"
      using pop_lru_result[of "cs_map s"] iter_pop_lru[of "cs_map s"] ne le
      by (cases "lru_pop_lru L (cs_map s)") (simp add: entries_def)
    let ?s = "count_cache evicted_one (s\<lparr>cs_map := m, cs_bytes := cs_bytes s - st_size e\<rparr>)"
    have e: "entries L ?s = butlast ?es" using pop by (simp add: entries_def count_cache_def)
    have "total_size ?es = total_size (butlast ?es) + st_size e"
      using arg_cong[OF append_butlast_last_id[OF ne], of total_size] le by simp
    then have "cs_bytes ?s = total_size (entries L ?s)" using Suc.prems(1) e by (simp add: count_cache_def)
    moreover have "length (entries L ?s) \<le> k" using Suc.prems(2) e by simp
    ultimately show ?thesis
      using Suc.IH[of ?s] e pop(1) True Suc.prems(1) len fit_step[of "cs_max_bytes s" ?es]
      by (simp add: count_cache_def)
  next
    case False
    then show ?thesis using Suc.prems(1) len fit_stop[OF False[unfolded Suc.prems(1)]] by auto
  qed
qed (simp add: fit_stop)

lemma shrink_exit:
  assumes "cs_bytes s = total_size (entries L s)"
  shows "let s' = shrink (lru_len L (cs_map s)) L s
    in \<not> (cs_max_bytes s' < cs_bytes s' \<and> 1 < lru_len L (cs_map s'))"
  using shrink_fit[OF assms, of "lru_len L (cs_map s)"] fit_exit[of "cs_max_bytes s" "entries L s"]
  by (simp add: len_iter entries_def)

lemma insert_entries:
  assumes "store_ok L s" "st_size e \<le> cs_max_bytes s"
  shows "entries L (store_insert L key e s) = fit (cs_max_bytes s) ((key, e) # drop_key key (entries L s))
    \<and> store_ok L (store_insert L key e s)
    \<and> registry (store_insert L key e s) = registry s"
proof -
  obtain old m where put: "lru_put L (cs_map s) key e = (old, m)" by (cases "lru_put L (cs_map s) key e")
  then have old: "old = map_of (entries L s) key" and m: "lru_iter L m = (key, e) # drop_key key (entries L s)"
    using put_result[of "cs_map s" key e] iter_put[of "cs_map s" key e] by (simp_all add: entries_def)
  define b where "b = (case old of Some x \<Rightarrow> cs_bytes s - st_size x | None \<Rightarrow> cs_bytes s) + st_size e"
  let ?s = "s\<lparr>cs_map := m, cs_bytes := b\<rparr>"
  have es: "entries L ?s = (key, e) # drop_key key (entries L s)" using m by (simp add: entries_def)
  have "b = total_size (entries L ?s)"
    using assms(1) old es total_size_drop[OF entries_distinct[of s], of key]
    by (auto simp: store_ok_def b_def split: option.splits)
  then have "cs_bytes ?s = total_size (entries L ?s)" "length (entries L ?s) \<le> lru_len L m"
    by (simp_all add: len_iter entries_def)
  note sf = shrink_fit[OF this]
  have ins: "store_insert L key e s =
      count_cache (\<lambda>m. m\<lparr>cache_stores := cache_stores m + 1\<rparr>) (shrink (lru_len L m) L ?s)"
    using assms(2) put by (simp add: store_insert_def b_def)
  have "total_size (fit (cs_max_bytes s) (entries L ?s)) \<le> cs_max_bytes s"
    using fit_small[of "(key, e)"] assms(2) es by simp
  then show ?thesis using sf es unfolding ins by (simp add: store_ok_def count_cache_def entries_def)
qed

lemma pop_keys_entries:
  assumes "store_ok L s"
  shows "entries L (foldl (\<lambda>s k. pop_key L f k s) s ks) = filter (\<lambda>p. fst p \<notin> set ks) (entries L s)
    \<and> store_ok L (foldl (\<lambda>s k. pop_key L f k s) s ks)
    \<and> registry (foldl (\<lambda>s k. pop_key L f k s) s ks) = registry s"
  using assms
proof (induction ks arbitrary: s)
  case (Cons k ks)
  have "filter (\<lambda>p. fst p \<notin> set ks) (drop_key k (entries L s)) = filter (\<lambda>p. fst p \<notin> set (k # ks)) (entries L s)"
    by (simp add: conj_commute)
  with Cons.IH[OF pop_key_ok[OF Cons.prems, of f k]] show ?case
    using pop_key_entries[of f k s] by simp
qed simp

lemma evict_entries:
  assumes "store_ok L s"
  shows "entries L (evict_expired L now s) = filter (\<lambda>(k, e). is_fresh e now) (entries L s)
    \<and> store_ok L (evict_expired L now s) \<and> registry (evict_expired L now s) = registry s"
proof -
  let ?ks = "map fst (filter (\<lambda>(k, e). \<not> is_fresh e now) (entries L s))"
  have "fst p \<in> set ?ks \<longleftrightarrow> \<not> is_fresh (snd p) now" if p: "p \<in> set (entries L s)" for p
  proof
    assume "fst p \<in> set ?ks"
    then obtain e where "(fst p, e) \<in> set (entries L s)" "\<not> is_fresh e now" by auto
    moreover have "(fst p, snd p) \<in> set (entries L s)" using p by simp
    ultimately show "\<not> is_fresh (snd p) now" using eq_key_imp_eq_value[OF entries_distinct] by blast
  qed (use p in \<open>auto intro!: image_eqI[of _ _ p]\<close>)
  then have "filter (\<lambda>p. fst p \<notin> set ?ks) (entries L s) = filter (\<lambda>(k, e). is_fresh e now) (entries L s)"
    by (intro filter_cong) auto
  moreover have "evict_expired L now s = foldl (\<lambda>s k. pop_key L evicted_one k s) s ?ks"
    by (simp add: evict_expired_def entries_def)
  ultimately show ?thesis using pop_keys_entries[OF assms, of evicted_one ?ks] by simp
qed

lemma step_ok:
  assumes "store_ok L s"
  shows "store_ok L (store_step L a s) \<and> cs_max_bytes (store_step L a s) = cs_max_bytes s"
proof (cases a)
  case (SGet k)
  then show ?thesis
    using get_ok[OF _ assms, of k] get_entries[of k s] by (cases "store_get L k s") simp
next
  case (SInsert k e)
  then show ?thesis
    using insert_entries[OF assms, of e k] insert_too_big[of s e L k] assms
    by (cases "cs_max_bytes s < st_size e") simp_all
next
  case (SRemove k)
  then show ?thesis using pop_key_ok[OF assms] pop_key_entries by (simp add: store_remove_def)
next
  case (STick now)
  then show ?thesis
    using evict_entries[OF assms, of now]
    by (simp add: cache_eviction_tick_def store_stats_def Let_def) (simp add: count_cache_def)
next
  case (SBegin k)
  then show ?thesis using assms by (simp add: begin_fetch_def split: option.split)
next
  case (SDrop k ch)
  then show ?thesis using assms by (simp add: drop_leader_def)
qed

lemma run_ok:
  "store_ok L s \<Longrightarrow> store_ok L (store_run L ops s) \<and> cs_max_bytes (store_run L ops s) = cs_max_bytes s"
  by (induction ops arbitrary: s) (auto simp: store_run_def step_ok)

lemma new_ok: "store_ok L (new_store L mx m)"
  by (simp add: store_ok_def new_store_def entries_def iter_new)

end

interpretation list_cl: cache_lru list_lru ..

text \<open>
  C5. The byte budget is an invariant: after any sequence of lookups, insertions, removals, sweeps
  and fetches, the store's byte count is the exact sum of the sizes of the entries it holds, it is
  within the budget, and no key is held twice.
\<close>

theorem store_budget:
  assumes "lru_cache L"
  shows "let s = store_run L ops (new_store L mx m)
    in cs_bytes s = sum_list (map (\<lambda>(k, e). st_size e) (entries L s)) \<and> cs_bytes s \<le> mx
       \<and> distinct (map fst (entries L s))"
proof -
  from assms have c: "cache_lru L" by (rule cache_lru.intro)
  from cache_lru.run_ok[OF c cache_lru.new_ok[OF c], of ops mx m] cache_lru.entries_distinct[OF c]
  show ?thesis by (simp add: store_ok_def total_size_def Let_def new_store_def)
qed

definition sample_entry :: "nat \<Rightarrow> string \<Rightarrow> header_list stored_response" where
  "sample_entry at body = new_stored list_headers epoch_dates 200 [] body (from_secs 60) 0 [] at"

definition no_cache_metrics :: cache_metrics where
  "no_cache_metrics =
     \<lparr>cache_hits = 0, cache_misses = 0, cache_revalidations = 0, cache_bypass = 0, cache_stores = 0,
      cache_evictions = 0, cache_entries_gauge = 0, cache_bytes_gauge = 0\<rparr>"

theorem store_budget_witness:
  "let s = store_run list_lru [SInsert ''a'' (sample_entry 0 ''xyz''), SInsert ''b'' (sample_entry 0 ''uvw'')]
       (new_store list_lru 5 no_cache_metrics)
   in cs_bytes s \<le> 5"
  using store_budget[OF list_lc.lru_cache_axioms,
      of "[SInsert ''a'' (sample_entry 0 ''xyz''), SInsert ''b'' (sample_entry 0 ''uvw'')]" 5 no_cache_metrics]
  by (simp add: Let_def)

text \<open>
  Insertion keeps the most recently used entries: the new entry is the first of the recency
  order and the rest of the order is the old one without the key, cut to the longest prefix that
  fits the budget. So a lookup that follows finds the new entry, and an entry is dropped only
  when the more recent ones and it exceed the budget.
\<close>

theorem insert_keeps_recent:
  assumes "lru_cache L" "store_ok L s" "st_size e \<le> cs_max_bytes s"
  shows "\<exists>n > 0. entries L (store_insert L key e s) = take n ((key, e) # drop_key key (entries L s))
      \<and> (n < Suc (length (drop_key key (entries L s))) \<longrightarrow>
           cs_max_bytes s < total_size (take (Suc n) ((key, e) # drop_key key (entries L s))))
      \<and> fst (store_get L key (store_insert L key e s)) = Some e"
proof -
  from assms(1) have c: "cache_lru L" by (rule cache_lru.intro)
  let ?es = "(key, e) # drop_key key (entries L s)"
  obtain n where n: "fit (cs_max_bytes s) ?es = take n ?es" "0 < n"
    "n < length ?es \<longrightarrow> cs_max_bytes s < total_size (take (Suc n) ?es)"
    using fit_prefix[of ?es "cs_max_bytes s"] by auto
  have ins: "entries L (store_insert L key e s) = take n ?es"
    using cache_lru.insert_entries[OF c assms(2,3), of key] n(1) by simp
  obtain r s' where g: "store_get L key (store_insert L key e s) = (r, s')"
    by (cases "store_get L key (store_insert L key e s)")
  have "r = map_of (entries L (store_insert L key e s)) key"
    using cache_lru.get_entries[OF c g] by simp
  then have "r = Some e" using ins n(2) by (cases n) simp_all
  with ins n(2,3) g show ?thesis by (intro exI[of _ n]) simp
qed

theorem insert_keeps_recent_witness:
  "fst (store_get list_lru ''a'' (store_insert list_lru ''a'' (sample_entry 0 ''xyz'')
     (new_store list_lru 5 no_cache_metrics))) = Some (sample_entry 0 ''xyz'')"
proof -
  have "store_ok list_lru (new_store list_lru 5 no_cache_metrics)"
    "st_size (sample_entry 0 ''xyz'') \<le> cs_max_bytes (new_store list_lru 5 no_cache_metrics)"
    by (simp_all add: list_cl.new_ok) (simp add: sample_entry_def new_stored_def new_store_def Let_def)
  from insert_keeps_recent[OF list_lc.lru_cache_axioms this] show ?thesis by blast
qed

end
