(* ===== verification/Cache_Policy.thy ===== *)
theory Cache_Policy
  imports Cache_Store
begin

text \<open>
  The per-location cache policy (\<open>cache/policy.rs\<close>): the \<open>Cache-Control\<close> directives of responses
  and requests, the decision whether a response may be stored and for how long, the read-through
  lookup, the write-through of a fetched response and the refresh after a revalidation.

  Serving an entry computes its age, which panics when the origin reported an age near the end of
  the range of durations; such a step has the left summand as its result.
\<close>

section \<open>Cache-Control\<close>

record response_cc =
  rc_no_store :: bool
  rc_private :: bool
  rc_no_cache :: bool
  rc_public :: bool
  rc_max_age :: "nat option"
  rc_s_maxage :: "nat option"
  rc_swr :: "nat option"
  rc_sie :: "nat option"

definition response_cc_default :: response_cc where
  "response_cc_default =
     \<lparr>rc_no_store = False, rc_private = False, rc_no_cache = False, rc_public = False,
      rc_max_age = None, rc_s_maxage = None, rc_swr = None, rc_sie = None\<rparr>"

record request_cc =
  rq_no_store :: bool
  rq_no_cache :: bool
  rq_only_if_cached :: bool
  rq_max_age :: "nat option"
  rq_min_fresh :: "nat option"
  rq_max_stale :: "nat option option"

definition request_cc_default :: request_cc where
  "request_cc_default =
     \<lparr>rq_no_store = False, rq_no_cache = False, rq_only_if_cached = False, rq_max_age = None,
      rq_min_fresh = None, rq_max_stale = None\<rparr>"

definition parse_secs :: "string \<Rightarrow> nat option" where
  "parse_secs arg = parse_uint u64_max (trim_char CHR 0x22 arg)"

text \<open>The loop over the header's values and their comma-separated directives, which both parsers share.\<close>

definition directive :: "string \<Rightarrow> string \<times> string option" where
  "directive s =
     (let d = trim s;
          (name, arg) = (case split_once CHR ''='' d of
                           Some (n, a) \<Rightarrow> (trim n, Some (trim a))
                         | None \<Rightarrow> (d, None))
      in (to_ascii_lowercase name, arg))"

definition directives :: "'h header_ops \<Rightarrow> 'h \<Rightarrow> (string \<times> string option) list" where
  "directives H h =
     concat (map (\<lambda>v. case hv_to_str H v of
                        None \<Rightarrow> []
                      | Some s \<Rightarrow> map directive (split_on CHR '','' s))
               (hm_get_all H h ''cache-control''))"

definition response_directive :: "response_cc \<Rightarrow> string \<times> string option \<Rightarrow> response_cc" where
  "response_directive cc d =
     (let secs = Option.bind (snd d) parse_secs in
      if fst d = ''no-store'' then cc\<lparr>rc_no_store := True\<rparr>
      else if fst d = ''private'' then cc\<lparr>rc_private := True\<rparr>
      else if fst d = ''no-cache'' then cc\<lparr>rc_no_cache := True\<rparr>
      else if fst d = ''public'' then cc\<lparr>rc_public := True\<rparr>
      else if fst d = ''max-age'' then cc\<lparr>rc_max_age := secs\<rparr>
      else if fst d = ''s-maxage'' then cc\<lparr>rc_s_maxage := secs\<rparr>
      else if fst d = ''stale-while-revalidate'' then cc\<lparr>rc_swr := secs\<rparr>
      else if fst d = ''stale-if-error'' then cc\<lparr>rc_sie := secs\<rparr>
      else cc)"

definition parse_response_cc :: "'h header_ops \<Rightarrow> 'h \<Rightarrow> response_cc" where
  "parse_response_cc H h = foldl response_directive response_cc_default (directives H h)"

definition request_directive :: "request_cc \<Rightarrow> string \<times> string option \<Rightarrow> request_cc" where
  "request_directive cc d =
     (let secs = Option.bind (snd d) parse_secs in
      if fst d = ''no-store'' then cc\<lparr>rq_no_store := True\<rparr>
      else if fst d = ''no-cache'' then cc\<lparr>rq_no_cache := True\<rparr>
      else if fst d = ''only-if-cached'' then cc\<lparr>rq_only_if_cached := True\<rparr>
      else if fst d = ''max-age'' then cc\<lparr>rq_max_age := secs\<rparr>
      else if fst d = ''min-fresh'' then cc\<lparr>rq_min_fresh := secs\<rparr>
      else if fst d = ''max-stale'' then cc\<lparr>rq_max_stale := Some secs\<rparr>
      else cc)"

definition parse_request_cc :: "'h header_ops \<Rightarrow> 'h \<Rightarrow> request_cc" where
  "parse_request_cc H h = foldl request_directive request_cc_default (directives H h)"

section \<open>The policy\<close>

record cache_config =
  cc_ttl_secs :: nat
  cc_max_object_size :: nat
  cc_key :: "string option"
  cc_methods :: "string list"
  cc_honor :: bool

record cache_policy =
  cp_key :: cache_key
  cp_ttl :: nat
  cp_max_object_size :: nat
  cp_methods :: "string list"
  cp_honor :: bool

record decision =
  d_lifetime :: nat
  d_initial_age :: nat
  d_vary :: "(string \<times> string option) list"
  d_swr :: nat
  d_sie :: nat

definition compile_policy ::
  "'h header_ops \<Rightarrow> cache_config \<Rightarrow> var_names \<Rightarrow> template_error + cache_policy" where
  "compile_policy H cfg names =
     bind_result (compile_key H (cc_key cfg) names) (\<lambda>k.
       Inr \<lparr>cp_key = k, cp_ttl = from_secs (cc_ttl_secs cfg),
            cp_max_object_size = cc_max_object_size cfg, cp_methods = cc_methods cfg,
            cp_honor = cc_honor cfg\<rparr>)"

definition request_cacheable :: "cache_policy \<Rightarrow> string \<Rightarrow> bool" where
  "request_cacheable p m = ((m = ''GET'' \<or> m = ''HEAD'') \<and> m \<in> set (cp_methods p))"

definition age_of :: "'h header_ops \<Rightarrow> 'h \<Rightarrow> nat" where
  "age_of H h =
     (case Option.bind (hm_get_str H h ''age'') (parse_uint u64_max) of
        Some s \<Rightarrow> from_secs s | None \<Rightarrow> 0)"

definition cacheable_status :: "nat \<Rightarrow> bool" where
  "cacheable_status st = (st \<in> {200, 203, 204, 300, 301, 404, 410})"

definition expires_minus_date :: "'h header_ops \<Rightarrow> date_ops \<Rightarrow> 'h \<Rightarrow> nat option" where
  "expires_minus_date H D h =
     Option.bind (header_date H D h ''date'') (\<lambda>date.
       map_option (\<lambda>expires. from_secs (expires - date)) (header_date H D h ''expires''))"

definition lifetime_from ::
  "'h header_ops \<Rightarrow> date_ops \<Rightarrow> cache_policy \<Rightarrow> response_cc \<Rightarrow> 'h \<Rightarrow> nat" where
  "lifetime_from H D p cc h =
     (let origin = (case (rc_s_maxage cc, rc_max_age cc) of
                      (Some s, _) \<Rightarrow> Some (from_secs s)
                    | (None, Some s) \<Rightarrow> Some (from_secs s)
                    | (None, None) \<Rightarrow> expires_minus_date H D h)
      in (case origin of Some d \<Rightarrow> min d (cp_ttl p) | None \<Rightarrow> cp_ttl p))"

text \<open>The names listed in \<open>Vary\<close>; \<open>None\<close> is a value that makes the response uncacheable.\<close>

fun vary_tokens :: "'h header_ops \<Rightarrow> string list \<Rightarrow> string list option" where
  "vary_tokens H [] = Some []"
| "vary_tokens H (tok # toks) =
     (let t = trim tok in
      if t = ''*'' then None
      else if t = [] then vary_tokens H toks
      else (case hn_from_bytes H (to_ascii_lowercase t) of
              Some name \<Rightarrow> map_option (\<lambda>ns. name # ns) (vary_tokens H toks)
            | None \<Rightarrow> vary_tokens H toks))"

fun vary_names :: "'h header_ops \<Rightarrow> string list \<Rightarrow> string list option" where
  "vary_names H [] = Some []"
| "vary_names H (v # vs) =
     (case hv_to_str H v of
        None \<Rightarrow> None
      | Some s \<Rightarrow>
          (case vary_tokens H (split_on CHR '','' s) of
             None \<Rightarrow> None
           | Some ns \<Rightarrow> map_option (\<lambda>ms. ns @ ms) (vary_names H vs)))"

definition evaluate_storable ::
  "'h header_ops \<Rightarrow> date_ops \<Rightarrow> cache_policy \<Rightarrow> nat \<Rightarrow> 'h \<Rightarrow> 'h \<Rightarrow> decision option" where
  "evaluate_storable H D p status resp req =
     (let cc = parse_response_cc H resp in
      if rc_no_store cc \<or> rc_private cc \<or> rc_no_cache cc then None
      else if hm_contains_key H resp ''set-cookie'' then None
      else if hm_contains_key H resp ''content-encoding'' then None
      else (case vary_names H (hm_get_all H resp ''vary'') of
         None \<Rightarrow> None
       | Some names \<Rightarrow>
           if hm_contains_key H req ''authorization'' \<and> \<not> (rc_public cc \<or> rc_s_maxage cc \<noteq> None) then None
           else if \<not> cacheable_status status then None
           else
             (let lifetime = lifetime_from H D p cc resp
              in if lifetime = 0 then None
                 else Some \<lparr>d_lifetime = lifetime, d_initial_age = age_of H resp,
                            d_vary = map (\<lambda>n. (n, hm_get_str H req n)) names,
                            d_swr = (case rc_swr cc of Some s \<Rightarrow> from_secs s | None \<Rightarrow> 0),
                            d_sie = (case rc_sie cc of Some s \<Rightarrow> from_secs s | None \<Rightarrow> 0)\<rparr>)))"

section \<open>Reading and writing through\<close>

datatype 'h lookup =
    Hit "'h http_response"
  | StaleWhileRevalidate "'h stored_response"
  | Revalidate "'h stored_response" bool
  | Miss

definition lookup_entry ::
  "'h header_ops \<Rightarrow> date_ops \<Rightarrow> 'h stored_response \<Rightarrow> 'h \<Rightarrow> nat \<Rightarrow> request_cc \<Rightarrow>
   (panic + 'h lookup) \<times> bool" where
  "lookup_entry H D e req now rcc =
     (case (case rq_max_age rcc of
              None \<Rightarrow> Inr False
            | Some m \<Rightarrow> bind_result (current_age e now) (\<lambda>a. Inr (m < as_secs a))) of
        Inl p \<Rightarrow> (Inl p, False)
      | Inr too_old \<Rightarrow>
          let fresh = is_fresh e now;
              min_fresh_unmet = (case rq_min_fresh rcc of
                                   None \<Rightarrow> False
                                 | Some mf \<Rightarrow> as_secs (remaining_freshness e now) < mf);
              stale = staleness e now;
              within = (case rq_max_stale rcc of
                          None \<Rightarrow> False
                        | Some None \<Rightarrow> True
                        | Some (Some n) \<Rightarrow> as_secs stale \<le> n);
              sie_ok = (st_sie e \<noteq> 0 \<and> stale \<le> st_sie e)
          in if fresh \<and> \<not> rq_no_cache rcc \<and> \<not> too_old \<and> \<not> min_fresh_unmet then
               (bind_result
                  (if client_not_modified H D e req then not_modified_response H e now
                   else to_response H e now) (\<lambda>r. Inr (Hit r)), False)
             else if fresh then
               (Inr (if has_validators e then Revalidate e False else Miss), False)
             else if \<not> rq_no_cache rcc \<and> within then
               (bind_result (to_response H e now) (\<lambda>r. Inr (Hit r)), False)
             else if \<not> rq_no_cache rcc \<and> st_swr e \<noteq> 0 \<and> stale \<le> st_swr e then
               (Inr (StaleWhileRevalidate e), False)
             else if has_validators e \<or> sie_ok then (Inr (Revalidate e sie_ok), False)
             else (Inr Miss, True))"

text \<open>The flag of \<open>lookup_entry\<close> says that the entry is dropped.\<close>

definition lookup ::
  "'h header_ops \<Rightarrow> date_ops \<Rightarrow> ('m, 'h) response_lru \<Rightarrow> string \<Rightarrow> 'h \<Rightarrow> nat \<Rightarrow> request_cc \<Rightarrow>
   'm cache_store \<Rightarrow> (panic + 'h lookup) \<times> 'm cache_store" where
  "lookup H D L key req now rcc s =
     (case store_get L key s of
        (None, s1) \<Rightarrow> (Inr Miss, s1)
      | (Some e, s1) \<Rightarrow>
          if \<not> vary_matches H e req then (Inr Miss, s1)
          else (case lookup_entry H D e req now rcc of
                  (r, dropped) \<Rightarrow> (r, if dropped then store_remove L key s1 else s1)))"

definition serve_revalidated ::
  "'h header_ops \<Rightarrow> date_ops \<Rightarrow> ('m, 'h) response_lru \<Rightarrow> cache_policy \<Rightarrow> string \<Rightarrow> 'h stored_response \<Rightarrow>
   'h http_response \<Rightarrow> 'h \<Rightarrow> nat \<Rightarrow> 'm cache_store \<Rightarrow> (panic + 'h http_response) \<times> 'm cache_store" where
  "serve_revalidated H D L p key e resp304 req now s =
     (let cc = parse_response_cc H (rs_headers resp304);
          r = refreshed H D e (rs_headers resp304) (lifetime_from H D p cc (rs_headers resp304))
                (age_of H (rs_headers resp304)) now
      in (if client_not_modified H D r req then not_modified_response H r now else to_response H r now,
          store_insert L key r s))"

definition fits_object_size :: "'h header_ops \<Rightarrow> cache_policy \<Rightarrow> 'h \<Rightarrow> bool" where
  "fits_object_size H p h =
     (case Option.bind (hm_get_str H h ''content-length'') (parse_uint u64_max) of
        Some n \<Rightarrow> n \<le> cp_max_object_size p
      | None \<Rightarrow> False)"

definition bypassed :: "'m cache_store \<Rightarrow> 'm cache_store" where
  "bypassed s = count_cache (\<lambda>m. m\<lparr>cache_bypass := cache_bypass m + 1\<rparr>) s"

definition maybe_store ::
  "'h header_ops \<Rightarrow> date_ops \<Rightarrow> ('m, 'h) response_lru \<Rightarrow> cache_policy \<Rightarrow> string \<Rightarrow> 'h \<Rightarrow>
   'h http_response \<Rightarrow> nat \<Rightarrow> 'm cache_store \<Rightarrow> (panic + 'h http_response) \<times> 'm cache_store" where
  "maybe_store H D L p key req resp now s =
     (case evaluate_storable H D p (rs_status resp) (rs_headers resp) req of
        None \<Rightarrow> (Inr resp, bypassed s)
      | Some d \<Rightarrow>
          if \<not> fits_object_size H p (rs_headers resp) then (Inr resp, bypassed s)
          else (case rs_body resp of
             None \<Rightarrow>
               (Inr \<lparr>rs_status = 502, rs_headers = hm_empty H,
                     rs_body = Some ''<h1>502 Bad Gateway</h1>''\<rparr>, s)
           | Some b \<Rightarrow>
               (let e = with_stale_windows
                          (new_stored H D (rs_status resp) (rs_headers resp) b (d_lifetime d)
                             (d_initial_age d) (d_vary d) now) (d_swr d) (d_sie d)
                in (to_response H e now, store_insert L key e s))))"

end
