(* ===== verification/Cache_Serve.thy ===== *)
theory Cache_Serve
  imports Cache_Policy "HOL-Library.Multiset"
begin

text \<open>
  Serving requests through the cache (\<open>serve_with_cache\<close> and \<open>spawn_swr_refresh\<close> of
  \<open>listener/service.rs\<close>) when many requests run at the same time.

  A request is a task that runs from one \<open>await\<close> to the next: it starts with a lookup, may wait for
  the origin's response or for the leader of a fetch in flight, and ends with a response. What runs
  between two awaits is a function on the task and the store; the system is the store, the tasks
  and the history of the origin's responses, and its steps interleave the tasks in any order. The
  origin may answer anything, tasks may be cancelled at an await (the client went away), and the
  sweeper may run at any time.
\<close>

section \<open>One task\<close>

record 'h cache_job =
  job_policy :: cache_policy
  job_key :: string
  job_method :: string
  job_headers :: 'h
  job_rcc :: request_cc
  job_now :: nat

definition new_job ::
  "'h header_ops \<Rightarrow> 're regex_ops \<Rightarrow> 're var_table option \<Rightarrow> cache_policy \<Rightarrow> request_context \<Rightarrow> slots \<Rightarrow>
   'h http_request \<Rightarrow> nat \<Rightarrow> 'h cache_job option" where
  "new_job H R scope p cx sl req now =
     map_option (\<lambda>(key, sl').
         \<lparr>job_policy = p, job_key = key, job_method = rq_method req, job_headers = rq_headers req,
          job_rcc = (if cp_honor p then parse_request_cc H (rq_headers req) else request_cc_default),
          job_now = now\<rparr>)
       (build_cache_key R scope (cp_key p) cx sl)"

datatype 'h task =
    Plain "'h cache_job"
  | Reval "'h cache_job" "'h stored_response" bool
  | Leading "'h cache_job" nat
  | Waiting "'h cache_job" nat
  | Refetch "'h cache_job"
  | Swr "'h cache_job" "'h stored_response"
  | SwrLeading "'h cache_job" "'h stored_response" nat
  | Finished "panic + 'h http_response"

definition count_hit :: "'m cache_store \<Rightarrow> 'm cache_store" where
  "count_hit s = count_cache (\<lambda>m. m\<lparr>cache_hits := cache_hits m + 1\<rparr>) s"

definition count_miss :: "'m cache_store \<Rightarrow> 'm cache_store" where
  "count_miss s = count_cache (\<lambda>m. m\<lparr>cache_misses := cache_misses m + 1\<rparr>) s"

definition count_reval :: "'m cache_store \<Rightarrow> 'm cache_store" where
  "count_reval s = count_cache (\<lambda>m. m\<lparr>cache_revalidations := cache_revalidations m + 1\<rparr>) s"

definition gateway_timeout :: "'h header_ops \<Rightarrow> 'h http_response" where
  "gateway_timeout H =
     \<lparr>rs_status = 504, rs_headers = hm_empty H, rs_body = Some ''<h1>504 Gateway Timeout</h1>''\<rparr>"

text \<open>
  From the arrival to the first await. The result is the tasks that are left: the request's own
  and, for a stale entry served while it is revalidated, the background refresh.
\<close>

definition start_task ::
  "'h header_ops \<Rightarrow> date_ops \<Rightarrow> ('m, 'h) response_lru \<Rightarrow> 'h cache_job \<Rightarrow> 'm cache_store \<Rightarrow>
   'h task list \<times> 'm cache_store" where
  "start_task H D L j s =
     (if rq_no_store (job_rcc j) then ([Plain j], s)
      else (case lookup H D L (job_key j) (job_headers j) (job_now j) (job_rcc j) s of
         (Inl p, s1) \<Rightarrow> ([Finished (Inl p)], s1)
       | (Inr (Hit r), s1) \<Rightarrow> ([Finished (Inr r)], count_hit s1)
       | (Inr (StaleWhileRevalidate e), s1) \<Rightarrow>
           (case to_response H e (job_now j) of
              Inl p \<Rightarrow> ([Finished (Inl p)], count_hit s1)
            | Inr r \<Rightarrow> ([Finished (Inr r), Swr j e], count_hit s1))
       | (Inr (Revalidate e sie), s1) \<Rightarrow> ([Reval j e sie], count_reval s1)
       | (Inr Miss, s1) \<Rightarrow>
           if rq_only_if_cached (job_rcc j) then ([Finished (Inr (gateway_timeout H))], count_miss s1)
           else (case begin_fetch (job_key j) s1 of
                   (Leader ch, s2) \<Rightarrow> ([Leading j ch], count_miss s2)
                 | (Follower ch, s2) \<Rightarrow> ([Waiting j ch], s2))))"

text \<open>The request that is sent to the origin: a revalidation replaces the client's conditions.\<close>

fun put_headers :: "'h header_ops \<Rightarrow> (string \<times> string) list \<Rightarrow> 'h \<Rightarrow> 'h" where
  "put_headers H [] h = h"
| "put_headers H ((n, v) # nvs) h = put_headers H nvs (hm_insert H h n v)"

definition conditional_headers ::
  "'h header_ops \<Rightarrow> date_ops \<Rightarrow> 'h stored_response \<Rightarrow> 'h \<Rightarrow> 'h" where
  "conditional_headers H D e h =
     put_headers H (revalidation_headers H D e)
       (hm_remove H (hm_remove H h ''if-none-match'') ''if-modified-since'')"

fun origin_request :: "'h header_ops \<Rightarrow> date_ops \<Rightarrow> 'h task \<Rightarrow> 'h http_request option" where
  "origin_request H D (Plain j) = Some \<lparr>rq_method = job_method j, rq_headers = job_headers j\<rparr>"
| "origin_request H D (Reval j e sie) =
     Some \<lparr>rq_method = job_method j, rq_headers = conditional_headers H D e (job_headers j)\<rparr>"
| "origin_request H D (Leading j ch) = Some \<lparr>rq_method = job_method j, rq_headers = job_headers j\<rparr>"
| "origin_request H D (Refetch j) = Some \<lparr>rq_method = job_method j, rq_headers = job_headers j\<rparr>"
| "origin_request H D (SwrLeading j e ch) =
     Some \<lparr>rq_method = ''GET'', rq_headers = conditional_headers H D e (job_headers j)\<rparr>"
| "origin_request H D _ = None"

text \<open>From the origin's response to the end. The leader's guard is dropped last.\<close>

definition respond_reval ::
  "'h header_ops \<Rightarrow> date_ops \<Rightarrow> ('m, 'h) response_lru \<Rightarrow> 'h cache_job \<Rightarrow> 'h stored_response \<Rightarrow> bool \<Rightarrow>
   'h http_response \<Rightarrow> 'm cache_store \<Rightarrow> (panic + 'h http_response) \<times> 'm cache_store" where
  "respond_reval H D L j e sie raw s =
     (if rs_status raw = 304 then
        serve_revalidated H D L (job_policy j) (job_key j) e raw (job_headers j) (job_now j) s
      else if sie \<and> 500 \<le> rs_status raw \<and> rs_status raw < 600 then
        (to_response H e (job_now j), count_hit s)
      else maybe_store H D L (job_policy j) (job_key j) (job_headers j) raw (job_now j) s)"

fun respond_task ::
  "'h header_ops \<Rightarrow> date_ops \<Rightarrow> ('m, 'h) response_lru \<Rightarrow> 'h http_response \<Rightarrow> 'h task \<Rightarrow> 'm cache_store \<Rightarrow>
   'h task \<times> 'm cache_store" where
  "respond_task H D L raw (Plain j) s = (Finished (Inr raw), s)"
| "respond_task H D L raw (Reval j e sie) s =
     (let (r, s') = respond_reval H D L j e sie raw s in (Finished r, s'))"
| "respond_task H D L raw (Leading j ch) s =
     (let (r, s') = maybe_store H D L (job_policy j) (job_key j) (job_headers j) raw (job_now j) s
      in (Finished r, drop_leader (job_key j) ch s'))"
| "respond_task H D L raw (Refetch j) s =
     (let (r, s') = maybe_store H D L (job_policy j) (job_key j) (job_headers j) raw (job_now j) s
      in (Finished r, s'))"
| "respond_task H D L raw (SwrLeading j e ch) s =
     (let (r, s') = respond_reval H D L j e False raw (count_reval s)
      in (Finished r, drop_leader (job_key j) ch s'))"
| "respond_task H D L raw t s = (t, s)"

text \<open>A follower whose leader is done looks the key up again, at a later time.\<close>

definition wake_task ::
  "'h header_ops \<Rightarrow> date_ops \<Rightarrow> ('m, 'h) response_lru \<Rightarrow> nat \<Rightarrow> 'h cache_job \<Rightarrow> 'm cache_store \<Rightarrow>
   'h task \<times> 'm cache_store" where
  "wake_task H D L now2 j s =
     (case lookup H D L (job_key j) (job_headers j) now2 (job_rcc j) s of
        (Inl p, s1) \<Rightarrow> (Finished (Inl p), s1)
      | (Inr (Hit r), s1) \<Rightarrow> (Finished (Inr r), count_hit s1)
      | (Inr _, s1) \<Rightarrow> (Refetch (j\<lparr>job_now := now2\<rparr>), count_miss s1))"

text \<open>The background refresh begins; it ends at once when a fetch for the key is in flight.\<close>

definition begin_swr ::
  "nat \<Rightarrow> 'h cache_job \<Rightarrow> 'h stored_response \<Rightarrow> 'm cache_store \<Rightarrow> 'h task option \<times> 'm cache_store" where
  "begin_swr now j e s =
     (case begin_fetch (job_key j) s of
        (Leader ch, s') \<Rightarrow> (Some (SwrLeading (j\<lparr>job_now := now\<rparr>) e ch), s')
      | (Follower ch, s') \<Rightarrow> (None, s'))"

text \<open>A task that is dropped at an await releases its guard.\<close>

fun cancel_task :: "'h task \<Rightarrow> 'm cache_store \<Rightarrow> 'm cache_store" where
  "cancel_task (Leading j ch) s = drop_leader (job_key j) ch s"
| "cancel_task (SwrLeading j e ch) s = drop_leader (job_key j) ch s"
| "cancel_task t s = s"

section \<open>The system\<close>

record 'h fetch_event =
  ev_key :: string
  ev_method :: string
  ev_request :: 'h
  ev_policy :: cache_policy
  ev_response :: "'h http_response"

record ('m, 'h) cache_system =
  sys_store :: "'m cache_store"
  sys_tasks :: "'h task list"
  sys_history :: "'h fetch_event list"

fun task_job :: "'h task \<Rightarrow> 'h cache_job option" where
  "task_job (Plain j) = Some j"
| "task_job (Reval j e sie) = Some j"
| "task_job (Leading j ch) = Some j"
| "task_job (Waiting j ch) = Some j"
| "task_job (Refetch j) = Some j"
| "task_job (Swr j e) = Some j"
| "task_job (SwrLeading j e ch) = Some j"
| "task_job (Finished r) = None"

inductive sys_step ::
  "'h header_ops \<Rightarrow> date_ops \<Rightarrow> ('m, 'h) response_lru \<Rightarrow> ('m, 'h) cache_system \<Rightarrow> ('m, 'h) cache_system \<Rightarrow> bool"
  for H D L where
  arrive: "start_task H D L j (sys_store S) = (ts, s') \<Longrightarrow>
     sys_step H D L S (S\<lparr>sys_store := s', sys_tasks := sys_tasks S @ ts\<rparr>)"
| respond: "\<lbrakk>sys_tasks S = xs @ t # ys; origin_request H D t = Some q; task_job t = Some j;
      respond_task H D L raw t (sys_store S) = (t', s')\<rbrakk> \<Longrightarrow>
     sys_step H D L S (S\<lparr>sys_store := s', sys_tasks := xs @ t' # ys,
       sys_history := \<lparr>ev_key = job_key j, ev_method = rq_method q, ev_request = job_headers j,
         ev_policy = job_policy j, ev_response = raw\<rparr> # sys_history S\<rparr>)"
| wake: "\<lbrakk>sys_tasks S = xs @ Waiting j ch # ys; ch \<notin> set (cs_open (sys_store S));
      wake_task H D L now2 j (sys_store S) = (t', s')\<rbrakk> \<Longrightarrow>
     sys_step H D L S (S\<lparr>sys_store := s', sys_tasks := xs @ t' # ys\<rparr>)"
| swr_start: "\<lbrakk>sys_tasks S = xs @ Swr j e # ys; begin_swr now j e (sys_store S) = (Some t', s')\<rbrakk> \<Longrightarrow>
     sys_step H D L S (S\<lparr>sys_store := s', sys_tasks := xs @ t' # ys\<rparr>)"
| swr_skip: "\<lbrakk>sys_tasks S = xs @ Swr j e # ys; begin_swr now j e (sys_store S) = (None, s')\<rbrakk> \<Longrightarrow>
     sys_step H D L S (S\<lparr>sys_store := s', sys_tasks := xs @ ys\<rparr>)"
| cancel: "sys_tasks S = xs @ t # ys \<Longrightarrow>
     sys_step H D L S (S\<lparr>sys_store := cancel_task t (sys_store S), sys_tasks := xs @ ys\<rparr>)"
| sweep: "sys_step H D L S (S\<lparr>sys_store := cache_eviction_tick L now (sys_store S)\<rparr>)"

inductive_cases sys_stepE: "sys_step H D L S S'"

definition init_system :: "('m, 'h) response_lru \<Rightarrow> nat \<Rightarrow> cache_metrics \<Rightarrow> ('m, 'h) cache_system" where
  "init_system L mx m = \<lparr>sys_store = new_store L mx m, sys_tasks = [], sys_history = []\<rparr>"

inductive reachable ::
  "'h header_ops \<Rightarrow> date_ops \<Rightarrow> ('m, 'h) response_lru \<Rightarrow> ('m, 'h) cache_system \<Rightarrow> bool"
  for H D L where
  initial: "reachable H D L (init_system L mx m)"
| next_step: "\<lbrakk>reachable H D L S; sys_step H D L S S'\<rbrakk> \<Longrightarrow> reachable H D L S'"

section \<open>What the steps do to the store\<close>

text \<open>A change of the store that keeps its invariant and its registry and adds at most the entries \<open>P\<close>.\<close>

definition adds_at_most ::
  "('m, 'h) response_lru \<Rightarrow> 'm cache_store \<Rightarrow> 'm cache_store \<Rightarrow> (string \<times> 'h stored_response) set \<Rightarrow> bool" where
  "adds_at_most L s s' P \<longleftrightarrow>
     store_ok L s' \<and> registry s' = registry s \<and> set (entries L s') \<subseteq> set (entries L s) \<union> P"

lemma adds_count [simp]:
  "adds_at_most L s (count_hit s') P = adds_at_most L s s' P"
  "adds_at_most L s (count_miss s') P = adds_at_most L s s' P"
  "adds_at_most L s (count_reval s') P = adds_at_most L s s' P"
  "adds_at_most L s (bypassed s') P = adds_at_most L s s' P"
  "adds_at_most L (count_reval s) s' P = adds_at_most L s s' P"
  by (simp_all add: adds_at_most_def count_hit_def count_miss_def count_reval_def bypassed_def)
    (simp_all add: count_cache_def)

lemma adds_refl: "store_ok L s \<Longrightarrow> adds_at_most L s s P"
  by (simp add: adds_at_most_def)

text \<open>
  Where an entry comes from: a response of the origin to a request for the same key, which the
  policy of that request allowed to be stored, with the same status and body and the variant of
  that request.
\<close>

definition stored_from :: "'h header_ops \<Rightarrow> date_ops \<Rightarrow> 'h fetch_event \<Rightarrow> string \<Rightarrow> 'h stored_response \<Rightarrow> bool" where
  "stored_from H D ev key e \<longleftrightarrow>
     ev_key ev = key \<and> rs_body (ev_response ev) = Some (st_body e)
     \<and> rs_status (ev_response ev) = st_status e
     \<and> (\<exists>d. evaluate_storable H D (ev_policy ev) (rs_status (ev_response ev)) (rs_headers (ev_response ev))
              (ev_request ev) = Some d \<and> st_vary e = d_vary d)"

definition known_entry :: "'h header_ops \<Rightarrow> date_ops \<Rightarrow> 'h fetch_event list \<Rightarrow> string \<times> 'h stored_response \<Rightarrow> bool" where
  "known_entry H D hist p \<longleftrightarrow> (\<exists>ev \<in> set hist. stored_from H D ev (fst p) (snd p))"

fun carried :: "'h task \<Rightarrow> (string \<times> 'h stored_response) set" where
  "carried (Reval j e sie) = {(job_key j, e)}"
| "carried (Swr j e) = {(job_key j, e)}"
| "carried (SwrLeading j e ch) = {(job_key j, e)}"
| "carried _ = {}"

lemma known_mono: "known_entry H D hist p \<Longrightarrow> known_entry H D (ev # hist) p"
  by (auto simp: known_entry_def)

lemma refreshed_known:
  "known_entry H D hist (k, e) \<Longrightarrow> known_entry H D hist (k, refreshed H D e h l a now)"
  by (auto simp: known_entry_def stored_from_def refreshed_def Let_def)

text \<open>
  The guards the tasks hold, and how the registry reflects them: one key and one open channel per
  guard, no key twice.
\<close>

fun guard :: "'h task \<Rightarrow> (string \<times> nat) list" where
  "guard (Leading j ch) = [(job_key j, ch)]"
| "guard (SwrLeading j e ch) = [(job_key j, ch)]"
| "guard _ = []"

definition registry_ok :: "'m cache_store \<Rightarrow> (string \<times> nat) multiset \<Rightarrow> bool" where
  "registry_ok s G \<longleftrightarrow>
     mset (cs_inflight s) = G \<and> distinct (map fst (cs_inflight s)) \<and> distinct (map snd (cs_inflight s))
     \<and> set (cs_open s) = snd ` set (cs_inflight s) \<and> (\<forall>p \<in> set (cs_inflight s). snd p < cs_next s)"

lemma registry_ok_begin:
  assumes "registry_ok s G" "begin_fetch key s = (Leader ch, s')"
  shows "registry_ok s' (add_mset (key, ch) G)"
proof -
  have n: "map_of (cs_inflight s) key = None" and s': "ch = cs_next s"
    "s' = s\<lparr>cs_inflight := (key, ch) # cs_inflight s, cs_open := ch # cs_open s, cs_next := ch + 1\<rparr>"
    using assms(2) by (auto simp: begin_fetch_def split: option.splits)
  have "key \<notin> fst ` set (cs_inflight s)" using n by (simp add: map_of_eq_None_iff)
  moreover have "ch \<notin> snd ` set (cs_inflight s)" using assms(1) s'(1) by (auto simp: registry_ok_def)
  ultimately show ?thesis using assms(1) s' by (auto simp: registry_ok_def less_SucI)
qed

lemma registry_ok_drop:
  assumes "registry_ok s (add_mset (key, ch) G)"
  shows "registry_ok (drop_leader key ch s) G"
proof -
  let ?i = "cs_inflight s"
  have m: "mset ?i = add_mset (key, ch) G" and df: "distinct (map fst ?i)" and ds: "distinct (map snd ?i)"
    and op: "set (cs_open s) = snd ` set ?i" and lt: "\<forall>p \<in> set ?i. snd p < cs_next s"
    using assms by (simp_all add: registry_ok_def)
  have "(key, ch) \<in># mset ?i" unfolding m by simp
  then have i: "(key, ch) \<in> set ?i" by simp
  have del: "set (drop_key key ?i) = set ?i - {(key, ch)}"
    using i eq_key_imp_eq_value[OF df, of key] by auto
  have "mset (map fst ?i) = add_mset key (image_mset fst G)" using m by simp
  moreover have "count (mset (map fst ?i)) key = (if key \<in> set (map fst ?i) then 1 else 0)"
    using df unfolding distinct_count_atmost_1 by blast
  then have "count (mset (map fst ?i)) key \<le> 1" by (metis le_numeral_extra(4) zero_le_one)
  ultimately have "count (image_mset fst G) key = 0" by simp
  then have "key \<notin># image_mset fst G" by (simp only: not_in_iff)
  then have "filter_mset (\<lambda>p. fst p \<noteq> key) G = G" by (auto simp: filter_mset_eq_conv)
  then have m': "mset (drop_key key ?i) = G" using m by simp
  have "snd ` (set ?i - {(key, ch)}) = snd ` set ?i - {ch}"
    using inj_on_image_set_diff[of snd "set ?i" "set ?i" "{(key, ch)}"] ds i by (simp add: distinct_map)
  then show ?thesis
    using m' df ds op lt del
    by (simp add: registry_ok_def drop_leader_def distinct_map_filter)
qed

lemma lookup_entry_same:
  "fst (lookup_entry H D e req now rcc) = Inr (Revalidate e' b) \<Longrightarrow> e' = e"
  "fst (lookup_entry H D e req now rcc) = Inr (StaleWhileRevalidate e') \<Longrightarrow> e' = e"
  by (auto simp: lookup_entry_def Let_def res_simps split: sum.splits if_splits option.splits)

definition store_inv ::
  "'h header_ops \<Rightarrow> date_ops \<Rightarrow> ('m, 'h) response_lru \<Rightarrow> 'm cache_store \<Rightarrow> (string \<times> nat) multiset \<Rightarrow>
   'h fetch_event list \<Rightarrow> bool" where
  "store_inv H D L s G hist \<longleftrightarrow>
     store_ok L s \<and> registry_ok s G \<and> (\<forall>p \<in> set (entries L s). known_entry H D hist p)"

definition sys_inv :: "'h header_ops \<Rightarrow> date_ops \<Rightarrow> ('m, 'h) response_lru \<Rightarrow> ('m, 'h) cache_system \<Rightarrow> bool" where
  "sys_inv H D L S \<longleftrightarrow>
     store_inv H D L (sys_store S) (mset (concat (map guard (sys_tasks S)))) (sys_history S)
     \<and> (\<forall>t \<in> set (sys_tasks S). \<forall>p \<in> carried t. known_entry H D (sys_history S) p)"

context cache_lru
begin

lemma insert_adds: "store_ok L s \<Longrightarrow> adds_at_most L s (store_insert L key e s) {(key, e)}"
proof (cases "cs_max_bytes s < st_size e")
  case False
  assume ok: "store_ok L s"
  obtain n where "fit (cs_max_bytes s) ((key, e) # drop_key key (entries L s)) =
      take n ((key, e) # drop_key key (entries L s))"
    using fit_prefix by blast
  then have "set (entries L (store_insert L key e s)) \<subseteq> insert (key, e) (set (entries L s))"
    using insert_entries[OF ok, of e key] False set_take_subset[of n "(key, e) # drop_key key (entries L s)"]
    by auto
  then show ?thesis using insert_entries[OF ok, of e key] False by (simp add: adds_at_most_def)
qed (auto simp: insert_too_big adds_at_most_def)

lemma get_adds:
  assumes "store_ok L s" "store_get L key s = (r, s')"
  shows "adds_at_most L s s' {} \<and> r = map_of (entries L s) key"
  using get_entries[OF assms(2)] get_ok[OF assms(2,1)]
  by (auto simp: adds_at_most_def dest: map_of_SomeD split: option.splits)

lemma remove_adds: "store_ok L s \<Longrightarrow> adds_at_most L s (store_remove L key s) {}"
  using pop_key_ok pop_key_entries by (auto simp: adds_at_most_def store_remove_def)

lemma tick_adds: "store_ok L s \<Longrightarrow> adds_at_most L s (cache_eviction_tick L now s) {}"
  using evict_entries[of s now]
  by (auto simp: adds_at_most_def cache_eviction_tick_def store_stats_def Let_def)
    (simp_all add: count_cache_def)

lemma adds_trans:
  "adds_at_most L s s' P \<Longrightarrow> adds_at_most L s' s'' Q \<Longrightarrow> adds_at_most L s s'' (P \<union> Q)"
  by (auto simp: adds_at_most_def)

lemma lookup_adds:
  assumes "store_ok L s" "lookup H D L key req now rcc s = (r, s')"
  shows "adds_at_most L s s' {}"
proof -
  obtain g s1 where g: "store_get L key s = (g, s1)" by (cases "store_get L key s")
  note a = get_adds[OF assms(1) g]
  then have "store_ok L s1" by (simp add: adds_at_most_def)
  then have "adds_at_most L s (store_remove L key s1) {}"
    using adds_trans[of s s1 "{}" "store_remove L key s1" "{}"] a remove_adds by simp
  then show ?thesis
    using assms(2) a by (auto simp: lookup_def g split: option.splits if_splits prod.splits)
qed

lemma lookup_found:
  assumes "store_ok L s" "lookup H D L key req now rcc s = (Inr r, s')" "r \<noteq> Miss"
  obtains e where "(key, e) \<in> set (entries L s)" "vary_matches H e req"
    "fst (lookup_entry H D e req now rcc) = Inr r"
proof -
  obtain g s1 where g: "store_get L key s = (g, s1)" by (cases "store_get L key s")
  with get_adds[OF assms(1) g] assms(2,3) that show thesis
    by (auto simp: lookup_def dest: map_of_SomeD split: option.splits if_splits prod.splits)
qed

lemma maybe_store_adds:
  assumes "store_ok L s" "maybe_store H D L p key req resp now s = (r, s')"
    "ev = \<lparr>ev_key = key, ev_method = mt, ev_request = req, ev_policy = p, ev_response = resp\<rparr>"
  shows "adds_at_most L s s' {q. known_entry H D (ev # hist) q}"
proof (cases "s' = s \<or> s' = bypassed s")
  case True
  then show ?thesis using adds_refl[OF assms(1)] by auto
next
  case False
  then obtain d b where d: "evaluate_storable H D p (rs_status resp) (rs_headers resp) req = Some d"
    "rs_body resp = Some b"
    "s' = store_insert L key (with_stale_windows (new_stored H D (rs_status resp) (rs_headers resp) b
       (d_lifetime d) (d_initial_age d) (d_vary d) now) (d_swr d) (d_sie d)) s"
    using assms(2) by (auto simp: maybe_store_def Let_def split: option.splits if_splits)
  let ?e = "with_stale_windows (new_stored H D (rs_status resp) (rs_headers resp) b
       (d_lifetime d) (d_initial_age d) (d_vary d) now) (d_swr d) (d_sie d)"
  have "stored_from H D ev key ?e"
    using d(1,2) assms(3) by (simp add: stored_from_def with_stale_windows_def new_stored_def Let_def)
  then have "known_entry H D (ev # hist) (key, ?e)" by (simp add: known_entry_def)
  then show ?thesis using insert_adds[OF assms(1), of key ?e] d(3) by (auto simp: adds_at_most_def)
qed

lemma revalidated_adds:
  assumes "store_ok L s" "serve_revalidated H D L p key e raw req now s = (r, s')" "known_entry H D hist (key, e)"
  shows "adds_at_most L s s' {q. known_entry H D hist q}"
proof -
  let ?r = "refreshed H D e (rs_headers raw)
    (lifetime_from H D p (parse_response_cc H (rs_headers raw)) (rs_headers raw)) (age_of H (rs_headers raw)) now"
  have "s' = store_insert L key ?r s" using assms(2) by (simp add: serve_revalidated_def Let_def)
  with insert_adds[OF assms(1), of key ?r] refreshed_known[OF assms(3)] show ?thesis
    by (auto simp: adds_at_most_def)
qed

lemma respond_reval_adds:
  assumes "store_ok L s" "respond_reval H D L j e sie raw s = (r, s')" "known_entry H D hist (job_key j, e)"
    "ev = \<lparr>ev_key = job_key j, ev_method = mt, ev_request = job_headers j, ev_policy = job_policy j,
      ev_response = raw\<rparr>"
  shows "adds_at_most L s s' {q. known_entry H D (ev # hist) q}"
proof (cases "rs_status raw = 304")
  case True
  with assms(2) have "serve_revalidated H D L (job_policy j) (job_key j) e raw (job_headers j) (job_now j) s = (r, s')"
    by (simp add: respond_reval_def)
  from revalidated_adds[OF assms(1) this known_mono[OF assms(3)]] show ?thesis .
next
  case False
  then show ?thesis
    using assms(2) maybe_store_adds[OF assms(1) _ assms(4)] adds_refl[OF assms(1)]
    by (auto simp: respond_reval_def split: if_splits)
qed

lemma store_inv_adds:
  assumes "store_inv H D L s G hist" "adds_at_most L s s' {q. known_entry H D (evs @ hist) q}"
  shows "store_inv H D L s' G (evs @ hist)"
proof -
  have "known_entry H D (evs @ hist) q" if "q \<in> set (entries L s)" for q
    using assms(1) that by (auto simp: store_inv_def known_entry_def)
  then show ?thesis using assms by (auto simp: store_inv_def adds_at_most_def registry_ok_def)
qed

lemma store_inv_keep:
  assumes "store_inv H D L s G hist" "adds_at_most L s s' {}"
  shows "store_inv H D L s' G hist"
  using store_inv_adds[OF assms(1), of s' "[]"] assms(2) by (auto simp: adds_at_most_def)

lemma store_inv_drop:
  "store_inv H D L s (add_mset (k, ch) G) hist \<Longrightarrow> store_inv H D L (drop_leader k ch s) G hist"
  using registry_ok_drop[of s k ch G] by (auto simp: store_inv_def) (simp_all add: drop_leader_def)

lemma store_inv_begin:
  assumes "store_inv H D L s G hist" "begin_fetch k s = (role, s')"
  shows "case role of Leader ch \<Rightarrow> store_inv H D L s' (add_mset (k, ch) G) hist
    | Follower ch \<Rightarrow> store_inv H D L s' G hist \<and> ch \<in> set (cs_open s')"
proof (cases role)
  case (Leader ch)
  then have "store_ok L s' = store_ok L s" "entries L s' = entries L s"
    using assms(2) by (auto simp: begin_fetch_def split: option.splits)
  then show ?thesis using registry_ok_begin[of s G k ch s'] assms Leader by (simp add: store_inv_def)
next
  case (Follower ch)
  then have "s' = s" "map_of (cs_inflight s) k = Some ch"
    using assms(2) by (auto simp: begin_fetch_def split: option.splits)
  then show ?thesis
    using assms(1) Follower by (auto simp: store_inv_def registry_ok_def dest!: map_of_SomeD intro: rev_image_eqI)
qed

lemma store_inv_count [simp]:
  "store_inv H D L (count_hit s) G hist = store_inv H D L s G hist"
  "store_inv H D L (count_miss s) G hist = store_inv H D L s G hist"
  "store_inv H D L (count_reval s) G hist = store_inv H D L s G hist"
  by (simp_all add: store_inv_def count_hit_def count_miss_def count_reval_def)
    (simp_all add: count_cache_def registry_ok_def)

lemma respond_inv:
  assumes "store_inv H D L s (mset (guard t) + G) hist" "\<forall>p \<in> carried t. known_entry H D hist p"
    "task_job t = Some j" "origin_request H D t = Some q" "respond_task H D L raw t s = (t', s')"
    "ev = \<lparr>ev_key = job_key j, ev_method = mt, ev_request = job_headers j, ev_policy = job_policy j,
      ev_response = raw\<rparr>"
  shows "store_inv H D L s' (mset (guard t') + G) (ev # hist) \<and> carried t' = {} \<and> guard t' = []"
proof -
  have ok: "store_ok L s" using assms(1) by (simp add: store_inv_def)
  have ms: "store_inv H D L s2 G' (ev # hist)"
    if "maybe_store H D L (job_policy j) (job_key j) (job_headers j) raw (job_now j) s = (r, s2)"
      "store_inv H D L s G' hist" for r s2 G'
    using store_inv_adds[OF that(2), of s2 "[ev]"] maybe_store_adds[OF ok that(1) assms(6), of hist] by simp
  have rr: "store_inv H D L s2 G' (ev # hist)"
    if "respond_reval H D L j e sie raw s1 = (r, s2)" "store_inv H D L s1 G' hist"
      "known_entry H D hist (job_key j, e)" for r s1 s2 G' e sie
    using store_inv_adds[OF that(2), of s2 "[ev]"] respond_reval_adds[OF _ that(1,3) assms(6)] that(2)
    by (simp add: store_inv_def)
  have mono: "store_inv H D L s G' hist \<Longrightarrow> store_inv H D L s G' (ev # hist)" for G'
    using store_inv_adds[of H D s G' hist s "[ev]"] adds_refl[OF ok] by simp
  show ?thesis
  proof (cases t)
    case (Plain j')
    then show ?thesis using assms(1,5) mono by auto
  next
    case (Reval j' e sie)
    then show ?thesis using assms(1-3,5) rr[of e sie s _ _ G] by (auto split: prod.splits)
  next
    case (Leading j' ch)
    then show ?thesis
      using assms(1,3,5) ms[of _ _ "add_mset (job_key j, ch) G"] store_inv_drop by (auto split: prod.splits)
  next
    case (Refetch j')
    then show ?thesis using assms(1,3,5) ms[of _ _ G] by (auto split: prod.splits)
  next
    case (SwrLeading j' e ch)
    then show ?thesis
      using assms(1-3,5) rr[of e False "count_reval s" _ _ "add_mset (job_key j, ch) G"] store_inv_drop
      by (auto split: prod.splits)
  qed (use assms(4) in auto)
qed

lemma lookup_inv:
  assumes "store_inv H D L s G hist" "lookup H D L key req now rcc s = (r, s')"
  shows "store_inv H D L s' G hist"
    "r = Inr (Revalidate e b) \<Longrightarrow> known_entry H D hist (key, e)"
    "r = Inr (StaleWhileRevalidate e) \<Longrightarrow> known_entry H D hist (key, e)"
proof -
  have ok: "store_ok L s" using assms(1) by (simp add: store_inv_def)
  show "store_inv H D L s' G hist" by (rule store_inv_keep[OF assms(1) lookup_adds[OF ok assms(2)]])
  have known: "known_entry H D hist (key, x)" if "(key, x) \<in> set (entries L s)" for x
    using assms(1) that by (auto simp: store_inv_def)
  have found: "\<exists>x. known_entry H D hist (key, x) \<and> fst (lookup_entry H D x req now rcc) = Inr v"
    if v: "r = Inr v" "v \<noteq> Miss" for v
  proof -
    have "lookup H D L key req now rcc s = (Inr v, s')" using assms(2) v(1) by simp
    then obtain x where "(key, x) \<in> set (entries L s)" "fst (lookup_entry H D x req now rcc) = Inr v"
      by (rule lookup_found[OF ok _ v(2)])
    then show ?thesis using known by blast
  qed
  show "known_entry H D hist (key, e)" if r: "r = Inr (Revalidate e b)"
    using found[OF r] by (auto dest: lookup_entry_same)
  show "known_entry H D hist (key, e)" if r: "r = Inr (StaleWhileRevalidate e)"
    using found[OF r] by (auto dest: lookup_entry_same)
qed

lemma start_inv:
  assumes "store_inv H D L s G hist" "start_task H D L j s = (ts, s')"
  shows "store_inv H D L s' (mset (concat (map guard ts)) + G) hist
    \<and> (\<forall>t \<in> set ts. \<forall>p \<in> carried t. known_entry H D hist p)"
proof (cases "rq_no_store (job_rcc j)")
  case True
  then show ?thesis using assms by (auto simp: start_task_def)
next
  case False
  obtain r s1 where l: "lookup H D L (job_key j) (job_headers j) (job_now j) (job_rcc j) s = (r, s1)"
    by (cases "lookup H D L (job_key j) (job_headers j) (job_now j) (job_rcc j) s")
  note inv = lookup_inv[OF assms(1) l]
  show ?thesis
  proof (cases "r = Inr Miss \<and> \<not> rq_only_if_cached (job_rcc j)")
    case True
    obtain role s2 where b: "begin_fetch (job_key j) s1 = (role, s2)" by (cases "begin_fetch (job_key j) s1")
    show ?thesis
      using assms(2) False True l b store_inv_begin[OF inv(1) b]
      by (auto simp: start_task_def split: fetch_role.splits)
  next
    case False
    then show ?thesis
      using assms(2) \<open>\<not> rq_no_store (job_rcc j)\<close> l inv
      by (auto simp: start_task_def split: sum.splits lookup.splits if_splits)
  qed
qed

lemma wake_inv:
  assumes "store_inv H D L s G hist" "wake_task H D L now2 j s = (t', s')"
  shows "store_inv H D L s' G hist \<and> guard t' = [] \<and> carried t' = {}"
proof -
  obtain r s1 where l: "lookup H D L (job_key j) (job_headers j) now2 (job_rcc j) s = (r, s1)"
    by (cases "lookup H D L (job_key j) (job_headers j) now2 (job_rcc j) s")
  from lookup_inv(1)[OF assms(1) l] assms(2) l show ?thesis
    by (auto simp: wake_task_def split: sum.splits lookup.splits)
qed

lemma swr_inv:
  assumes "store_inv H D L s G hist" "begin_swr now j e s = (t, s')"
  shows "case t of None \<Rightarrow> store_inv H D L s' G hist
    | Some t' \<Rightarrow> store_inv H D L s' (mset (guard t') + G) hist \<and> carried t' = {(job_key j, e)}"
proof -
  obtain role s2 where b: "begin_fetch (job_key j) s = (role, s2)" by (cases "begin_fetch (job_key j) s")
  from store_inv_begin[OF assms(1) b] assms(2) b show ?thesis
    by (auto simp: begin_swr_def split: fetch_role.splits)
qed

lemma cancel_inv:
  "store_inv H D L s (mset (guard t) + G) hist \<Longrightarrow> store_inv H D L (cancel_task t s) G hist"
  using store_inv_drop by (cases t) auto

lemma sys_inv_split:
  assumes "sys_tasks S = xs @ t # ys"
  shows "sys_inv H D L S \<longleftrightarrow>
    store_inv H D L (sys_store S) (mset (guard t) + mset (concat (map guard (xs @ ys)))) (sys_history S)
    \<and> (\<forall>p \<in> carried t. known_entry H D (sys_history S) p)
    \<and> (\<forall>t' \<in> set (xs @ ys). \<forall>p \<in> carried t'. known_entry H D (sys_history S) p)"
proof -
  have e: "mset (concat (map guard (xs @ t # ys))) = mset (guard t) + mset (concat (map guard (xs @ ys)))"
    by simp
  show ?thesis unfolding sys_inv_def assms e by auto
qed

lemma step_inv:
  assumes "sys_step H D L S S'" "sys_inv H D L S"
  shows "sys_inv H D L S'"
  using assms(1)
proof (cases rule: sys_step.cases)
  case (arrive j ts s')
  have "store_inv H D L (sys_store S) (mset (concat (map guard (sys_tasks S)))) (sys_history S)"
    using assms(2) by (simp add: sys_inv_def)
  from start_inv[OF this arrive(2)] assms(2) arrive(1) show ?thesis
    by (auto simp: sys_inv_def add.commute)
next
  case (respond xs t ys q j raw t' s')
  note i = assms(2)[unfolded sys_inv_split[OF respond(2)]]
  let ?ev = "\<lparr>ev_key = job_key j, ev_method = rq_method q, ev_request = job_headers j,
    ev_policy = job_policy j, ev_response = raw\<rparr>"
  have r: "store_inv H D L s' (mset (guard t') + mset (concat (map guard (xs @ ys)))) (?ev # sys_history S)"
    "carried t' = {}"
    using respond_inv[OF _ _ respond(4,3,5) refl] i by blast+
  have k: "\<forall>t' \<in> set (xs @ ys). \<forall>p \<in> carried t'. known_entry H D (?ev # sys_history S) p"
    using i known_mono by blast
  have "sys_tasks S' = xs @ t' # ys" using respond(1) by simp
  note e = sys_inv_split[OF this]
  show ?thesis unfolding e using r k respond(1) by simp
next
  case (wake xs j ch ys now2 t' s')
  note i = assms(2)[unfolded sys_inv_split[OF wake(2)]]
  have w: "store_inv H D L s' (mset (concat (map guard (xs @ ys)))) (sys_history S)"
    "guard t' = []" "carried t' = {}"
    using wake_inv[OF _ wake(4)] i by auto
  have "sys_tasks S' = xs @ t' # ys" using wake(1) by simp
  note e = sys_inv_split[OF this]
  show ?thesis unfolding e using w i wake(1) by simp
next
  case (swr_start xs j e ys now t' s')
  note i = assms(2)[unfolded sys_inv_split[OF swr_start(2)]]
  have w: "store_inv H D L s' (mset (guard t') + mset (concat (map guard (xs @ ys)))) (sys_history S)"
    "carried t' = {(job_key j, e)}"
    using swr_inv[OF _ swr_start(3)] i by auto
  have "sys_tasks S' = xs @ t' # ys" using swr_start(1) by simp
  note e = sys_inv_split[OF this]
  show ?thesis unfolding e using w i swr_start(1) by simp
next
  case (swr_skip xs j e ys now s')
  note i = assms(2)[unfolded sys_inv_split[OF swr_skip(2)]]
  show ?thesis using swr_inv[OF _ swr_skip(3)] i swr_skip(1) by (simp add: sys_inv_def)
next
  case (cancel xs t ys)
  note i = assms(2)[unfolded sys_inv_split[OF cancel(2)]]
  show ?thesis using cancel_inv[of H D "sys_store S" t] i cancel(1) by (simp add: sys_inv_def)
next
  case (sweep now)
  have inv: "store_inv H D L (sys_store S) (mset (concat (map guard (sys_tasks S)))) (sys_history S)"
    using assms(2) by (simp add: sys_inv_def)
  then have "store_ok L (sys_store S)" by (simp add: store_inv_def)
  from store_inv_keep[OF inv tick_adds[OF this]] assms(2) sweep show ?thesis by (simp add: sys_inv_def)
qed

lemma reachable_inv: "reachable H D L S \<Longrightarrow> sys_inv H D L S"
proof (induction rule: reachable.induct)
  case (initial mx m)
  show ?case
    using new_ok[of mx m]
    by (simp add: sys_inv_def store_inv_def init_system_def registry_ok_def)
      (simp add: new_store_def entries_def iter_new)
qed (rule step_inv)

end

section \<open>Properties of the cache\<close>

lemma response_flags:
  "rc_no_store (foldl response_directive cc ds) \<longleftrightarrow> rc_no_store cc \<or> (\<exists>d \<in> set ds. fst d = ''no-store'')"
  "rc_private (foldl response_directive cc ds) \<longleftrightarrow> rc_private cc \<or> (\<exists>d \<in> set ds. fst d = ''private'')"
  "rc_no_cache (foldl response_directive cc ds) \<longleftrightarrow> rc_no_cache cc \<or> (\<exists>d \<in> set ds. fst d = ''no-cache'')"
  "rc_public (foldl response_directive cc ds) \<longleftrightarrow> rc_public cc \<or> (\<exists>d \<in> set ds. fst d = ''public'')"
  by (induction ds arbitrary: cc) (auto simp: response_directive_def Let_def)

lemma response_s_maxage:
  "rc_s_maxage (foldl response_directive cc ds) \<noteq> None \<Longrightarrow>
     rc_s_maxage cc \<noteq> None \<or> (\<exists>d \<in> set ds. fst d = ''s-maxage'')"
proof (induction ds arbitrary: cc)
  case (Cons d ds)
  have "rc_s_maxage (response_directive cc d) = rc_s_maxage cc" if "fst d \<noteq> ''s-maxage''"
    using that by (simp add: response_directive_def Let_def)
  moreover have "rc_s_maxage (response_directive cc d) \<noteq> None \<or> (\<exists>d \<in> set ds. fst d = ''s-maxage'')"
    using Cons.IH[of "response_directive cc d"] Cons.prems by simp
  ultimately show ?case by (cases "fst d = ''s-maxage''") simp_all
qed simp

text \<open>What the storing decision guarantees of the response, in terms of its headers.\<close>

definition shareable :: "'h header_ops \<Rightarrow> 'h \<Rightarrow> 'h \<Rightarrow> bool" where
  "shareable H resp req \<longleftrightarrow>
     (\<forall>d \<in> set (directives H resp). fst d \<notin> {''no-store'', ''private'', ''no-cache''})
     \<and> \<not> hm_contains_key H resp ''set-cookie''
     \<and> (hm_contains_key H req ''authorization'' \<longrightarrow>
          (\<exists>d \<in> set (directives H resp). fst d \<in> {''public'', ''s-maxage''}))"

lemma evaluate_shareable:
  assumes "evaluate_storable H D p st resp req = Some d"
  shows "shareable H resp req"
    "\<exists>names. vary_names H (hm_get_all H resp ''vary'') = Some names \<and> d_vary d = map (\<lambda>n. (n, hm_get_str H req n)) names"
    "0 < d_lifetime d" "d_lifetime d \<le> cp_ttl p"
proof -
  let ?cc = "parse_response_cc H resp"
  have flags: "\<not> rc_no_store ?cc" "\<not> rc_private ?cc" "\<not> rc_no_cache ?cc"
    "\<not> hm_contains_key H resp ''set-cookie''"
    "hm_contains_key H req ''authorization'' \<longrightarrow> rc_public ?cc \<or> rc_s_maxage ?cc \<noteq> None"
    using assms by (auto simp: evaluate_storable_def Let_def split: if_splits option.splits)
  have "rc_public ?cc \<or> rc_s_maxage ?cc \<noteq> None \<Longrightarrow> \<exists>d \<in> set (directives H resp). fst d \<in> {''public'', ''s-maxage''}"
    using response_s_maxage[of response_cc_default "directives H resp"]
    unfolding parse_response_cc_def response_flags by (auto simp: response_cc_default_def)
  moreover have "fst d \<notin> {''no-store'', ''private'', ''no-cache''}" if "d \<in> set (directives H resp)" for d
    using flags(1-3) that unfolding parse_response_cc_def response_flags by auto
  ultimately show "shareable H resp req" using flags(4,5) by (simp add: shareable_def)
  show "\<exists>names. vary_names H (hm_get_all H resp ''vary'') = Some names \<and> d_vary d = map (\<lambda>n. (n, hm_get_str H req n)) names"
    "0 < d_lifetime d" "d_lifetime d \<le> cp_ttl p"
    using assms
    by (auto simp: evaluate_storable_def lifetime_from_def Let_def split: if_splits option.splits)
qed

lemma hit_of_entry:
  assumes "fst (lookup_entry H D e req now rcc) = Inr (Hit r)"
  shows "rs_status r = 304 \<or> rs_status r = st_status e \<and> rs_body r = Some (st_body e)"
  using assms
  by (auto simp: lookup_entry_def to_response_def not_modified_response_def Let_def res_simps
      split: sum.splits if_splits option.splits)

lemma vary_matches_names:
  assumes "vary_matches H e req" "st_vary e = map (\<lambda>n. (n, hm_get_str H req' n)) names"
  shows "\<forall>n \<in> set names. hm_get_str H req n = hm_get_str H req' n"
  using assms by (auto simp: vary_matches_def list_all_iff)

lemma guard_requests: "guard t \<noteq> [] \<Longrightarrow> origin_request H D t \<noteq> None"
  by (cases t) auto

lemma start_finished:
  assumes "cache_lru L" "store_ok L s" "start_task H D L j s = (ts, s')" "Finished (Inr r) \<in> set ts"
    "rs_status r \<noteq> 504"
  obtains e where "(job_key j, e) \<in> set (entries L s)" "vary_matches H e (job_headers j)"
    "rs_status r = 304 \<or> rs_status r = st_status e \<and> rs_body r = Some (st_body e)"
proof -
  obtain l s1 where l: "lookup H D L (job_key j) (job_headers j) (job_now j) (job_rcc j) s = (l, s1)"
    by (cases "lookup H D L (job_key j) (job_headers j) (job_now j) (job_rcc j) s")
  consider "l = Inr (Hit r)" | e where "l = Inr (StaleWhileRevalidate e)" "to_response H e (job_now j) = Inr r"
    using assms(3-5) l
    by (auto simp: start_task_def gateway_timeout_def
        split: if_splits sum.splits lookup.splits prod.splits fetch_role.splits)
  then show thesis
  proof cases
    case 1
    obtain e where e: "(job_key j, e) \<in> set (entries L s)" "vary_matches H e (job_headers j)"
      "fst (lookup_entry H D e (job_headers j) (job_now j) (job_rcc j)) = Inr (Hit r)"
      by (rule cache_lru.lookup_found[OF assms(1,2) l[unfolded 1]]) simp
    with hit_of_entry[OF e(3)] that show thesis by blast
  next
    case (2 e)
    obtain x where x: "(job_key j, x) \<in> set (entries L s)" "vary_matches H x (job_headers j)"
      "fst (lookup_entry H D x (job_headers j) (job_now j) (job_rcc j)) = Inr (StaleWhileRevalidate e)"
      by (rule cache_lru.lookup_found[OF assms(1,2) l[unfolded 2(1)]]) simp
    with lookup_entry_same(2)[OF x(3)] 2(2) that show thesis
      by (auto simp: to_response_def res_simps)
  qed
qed


definition sample_policy :: cache_policy where
  "sample_policy = \<lparr>cp_key = \<lparr>key_template = None\<rparr>, cp_ttl = from_secs 60, cp_max_object_size = 100,
     cp_methods = [''GET''], cp_honor = False\<rparr>"

definition sample_job :: "nat \<Rightarrow> header_list cache_job" where
  "sample_job now = \<lparr>job_policy = sample_policy, job_key = ''GET http://h/'', job_method = ''GET'', job_headers = [],
     job_rcc = request_cc_default, job_now = now\<rparr>"

definition sample_raw :: "header_list \<Rightarrow> header_list http_response" where
  "sample_raw hs = \<lparr>rs_status = 200, rs_headers = (''content-length'', ''3'') # hs, rs_body = Some ''abc''\<rparr>"

definition sample_init :: "((string, header_list stored_response) lru_list, header_list) cache_system" where
  "sample_init = init_system list_lru 1000 no_cache_metrics"

text \<open>The system after a request has begun to lead a fetch, and after the origin has answered it.\<close>

definition sample_lead :: "((string, header_list stored_response) lru_list, header_list) cache_system" where
  "sample_lead = sample_init\<lparr>
     sys_store := snd (start_task list_headers epoch_dates list_lru (sample_job 0) (sys_store sample_init)),
     sys_tasks := sys_tasks sample_init
       @ fst (start_task list_headers epoch_dates list_lru (sample_job 0) (sys_store sample_init))\<rparr>"

definition sample_done :: "header_list \<Rightarrow> ((string, header_list stored_response) lru_list, header_list) cache_system" where
  "sample_done hs =
     (let (t, s) = respond_task list_headers epoch_dates list_lru (sample_raw hs) (Leading (sample_job 0) 0)
                     (sys_store sample_lead)
      in sample_lead\<lparr>sys_store := s, sys_tasks := [t],
           sys_history := [\<lparr>ev_key = ''GET http://h/'', ev_method = ''GET'', ev_request = [],
             ev_policy = sample_policy, ev_response = sample_raw hs\<rparr>]\<rparr>)"

lemma sample_lead_reachable: "reachable list_headers epoch_dates list_lru sample_lead"
  unfolding sample_lead_def
  by (rule reachable.next_step[OF _ sys_step.arrive])
    (auto simp: sample_init_def intro: reachable.initial)

lemma sample_lead_tasks: "sys_tasks sample_lead = [Leading (sample_job 0) 0]"
  by (simp add: sample_lead_def sample_init_def init_system_def start_task_def lookup_def store_get_def
      new_store_def begin_fetch_def sample_job_def request_cc_default_def list_lru_def ll_entries_simps Let_def)

lemma sample_lead_history: "sys_history sample_lead = []"
  by (simp add: sample_lead_def sample_init_def init_system_def)

lemma sample_done_reachable: "reachable list_headers epoch_dates list_lru (sample_done hs)"
proof -
  obtain t s where r: "respond_task list_headers epoch_dates list_lru (sample_raw hs) (Leading (sample_job 0) 0)
      (sys_store sample_lead) = (t, s)"
    by (cases "respond_task list_headers epoch_dates list_lru (sample_raw hs) (Leading (sample_job 0) 0)
      (sys_store sample_lead)")
  have t: "sys_tasks sample_lead = [] @ Leading (sample_job 0) 0 # []" by (simp add: sample_lead_tasks)
  have q: "origin_request list_headers epoch_dates (Leading (sample_job 0) 0) = Some \<lparr>rq_method = ''GET'', rq_headers = []\<rparr>"
    by (simp add: sample_job_def)
  have j: "task_job (Leading (sample_job 0) 0) = Some (sample_job 0)" by simp
  have "sample_done hs = sample_lead\<lparr>sys_store := s, sys_tasks := [] @ t # [],
      sys_history := \<lparr>ev_key = job_key (sample_job 0), ev_method = rq_method \<lparr>rq_method = ''GET'', rq_headers = []\<rparr>,
        ev_request = job_headers (sample_job 0), ev_policy = job_policy (sample_job 0),
        ev_response = sample_raw hs\<rparr> # sys_history sample_lead\<rparr>"
    unfolding sample_done_def r sample_lead_history by (simp add: sample_job_def)
  with sys_step.respond[OF t q j r] show ?thesis
    using reachable.next_step[OF sample_lead_reachable] by simp
qed

definition sample_stored :: "header_list stored_response" where
  "sample_stored = new_stored list_headers epoch_dates 200 [(''content-length'', ''3'')] ''abc'' (from_secs 60) 0 [] 0"

lemma sample_evaluate:
  "evaluate_storable list_headers epoch_dates sample_policy 200 [(''content-length'', ''3'')] [] =
     Some \<lparr>d_lifetime = from_secs 60, d_initial_age = 0, d_vary = [], d_swr = 0, d_sie = 0\<rparr>"
  by (simp add: evaluate_storable_def parse_response_cc_def directives_def list_headers_def hl_get_all_def
      response_cc_default_def cacheable_status_def lifetime_from_def expires_minus_date_def header_date_def
      hm_get_str_def age_of_def sample_policy_def Let_def)

lemma sample_fits: "fits_object_size list_headers sample_policy [(''content-length'', ''3'')]"
  by (simp add: fits_object_size_def hm_get_str_def list_headers_def hl_get_all_def visible_ascii_def
      parse_uint_def is_ascii_digit_def sample_policy_def Let_def)

lemma sample_lead_store:
  "store_ok list_lru (sys_store sample_lead)" "entries list_lru (sys_store sample_lead) = []"
  "cs_max_bytes (sys_store sample_lead) = 1000"
  using list_cl.reachable_inv[OF sample_lead_reachable]
  by (simp_all add: sys_inv_def store_inv_def)
    (simp_all add: sample_lead_def sample_init_def init_system_def start_task_def lookup_def store_get_def
      new_store_def begin_fetch_def sample_job_def request_cc_default_def list_lru_def ll_entries_simps Let_def
      entries_def count_miss_def count_cache_def)

lemma sample_done_entries:
  "entries list_lru (sys_store (sample_done [])) = [(''GET http://h/'', sample_stored)]"
proof -
  let ?s = "sys_store sample_lead"
  have size: "st_size sample_stored = 3" by (simp add: sample_stored_def new_stored_def Let_def)
  have "with_stale_windows sample_stored 0 0 = sample_stored"
    by (simp add: with_stale_windows_def sample_stored_def new_stored_def Let_def)
  then have m: "snd (maybe_store list_headers epoch_dates list_lru sample_policy ''GET http://h/'' [] (sample_raw []) 0 ?s)
      = store_insert list_lru ''GET http://h/'' sample_stored ?s"
    by (simp add: maybe_store_def sample_raw_def sample_evaluate sample_fits sample_stored_def Let_def)
  have "entries list_lru (sys_store (sample_done [])) =
      entries list_lru (snd (maybe_store list_headers epoch_dates list_lru sample_policy ''GET http://h/'' [] (sample_raw []) 0 ?s))"
    by (simp add: sample_done_def sample_job_def case_prod_beta) (simp add: entries_def drop_leader_def)
  also have "\<dots> = fit 1000 [(''GET http://h/'', sample_stored)]"
    unfolding m using list_cl.insert_entries[OF sample_lead_store(1), of sample_stored] sample_lead_store(2,3) size
    by simp
  also have "\<dots> = [(''GET http://h/'', sample_stored)]" by (simp add: fit_stop)
  finally show ?thesis .
qed

lemma sample_hit:
  "\<exists>r. lookup_entry list_headers epoch_dates sample_stored [] 1 request_cc_default = (Inr (Hit r), False)
     \<and> rs_status r = 200 \<and> rs_body r = Some ''abc''"
  by (simp add: lookup_entry_def request_cc_default_def is_fresh_def sample_stored_def new_stored_def
      client_not_modified_def hm_get_str_def header_date_def entry_etag_def list_headers_def hl_get_all_def
      to_response_def current_age_def duration_add_def duration_max_def from_secs_def NANOS_def Let_def)

lemma sample_start:
  "\<exists>ts s' r. start_task list_headers epoch_dates list_lru (sample_job 1) (sys_store (sample_done [])) = (ts, s')
     \<and> Finished (Inr r) \<in> set ts \<and> rs_status r = 200 \<and> rs_body r = Some ''abc''"
proof -
  obtain g s1 where g: "store_get list_lru ''GET http://h/'' (sys_store (sample_done [])) = (g, s1)"
    by (cases "store_get list_lru ''GET http://h/'' (sys_store (sample_done []))")
  then have "g = Some sample_stored" using list_cl.get_entries[OF g] by (simp add: sample_done_entries)
  moreover have "vary_matches list_headers sample_stored []"
    by (simp add: vary_matches_def sample_stored_def new_stored_def Let_def)
  moreover obtain r where r: "lookup_entry list_headers epoch_dates sample_stored [] 1 request_cc_default = (Inr (Hit r), False)"
    "rs_status r = 200" "rs_body r = Some ''abc''" using sample_hit by blast
  ultimately have "lookup list_headers epoch_dates list_lru ''GET http://h/'' [] 1 request_cc_default
      (sys_store (sample_done [])) = (Inr (Hit r), s1)"
    using g by (simp add: lookup_def)
  then have "start_task list_headers epoch_dates list_lru (sample_job 1) (sys_store (sample_done [])) =
      ([Finished (Inr r)], count_hit s1)"
    by (simp add: start_task_def sample_job_def) (simp add: request_cc_default_def)
  with r show ?thesis by auto
qed


text \<open>
  C12. Fetches are coalesced: whatever the interleaving, at most one task at a time leads the fetch
  of a key, requests and background refreshes together.
\<close>

theorem single_flight:
  assumes "lru_cache L" "reachable H D L S"
  shows "distinct (map fst (concat (map guard (sys_tasks S))))"
proof -
  from assms(1) have c: "cache_lru L" by (rule cache_lru.intro)
  have "registry_ok (sys_store S) (mset (concat (map guard (sys_tasks S))))"
    using cache_lru.reachable_inv[OF c assms(2)] by (simp add: sys_inv_def store_inv_def)
  then have "mset (map fst (concat (map guard (sys_tasks S)))) = mset (map fst (cs_inflight (sys_store S)))"
    "distinct (map fst (cs_inflight (sys_store S)))"
    by (simp_all add: registry_ok_def)
  then show ?thesis by (metis mset_eq_imp_distinct_iff)
qed

theorem single_flight_witness:
  "map fst (concat (map guard (sys_tasks sample_lead))) = [''GET http://h/''] \<and>
   distinct (map fst (concat (map guard (sys_tasks sample_lead))))"
  using single_flight[OF list_lc.lru_cache_axioms sample_lead_reachable]
  by (simp add: sample_lead_tasks sample_job_def)


definition sample_wait :: "((string, header_list stored_response) lru_list, header_list) cache_system" where
  "sample_wait = sample_lead\<lparr>
     sys_store := snd (start_task list_headers epoch_dates list_lru (sample_job 1) (sys_store sample_lead)),
     sys_tasks := sys_tasks sample_lead
       @ fst (start_task list_headers epoch_dates list_lru (sample_job 1) (sys_store sample_lead))\<rparr>"

lemma sample_lead_registry:
  "cs_inflight (sys_store sample_lead) = [(''GET http://h/'', 0)]" "cs_open (sys_store sample_lead) = [0]"
  by (simp_all add: sample_lead_def sample_init_def init_system_def start_task_def lookup_def store_get_def
      new_store_def begin_fetch_def sample_job_def request_cc_default_def list_lru_def ll_entries_simps Let_def
      count_miss_def count_cache_def)

lemma sample_wait_start:
  "\<exists>s'. start_task list_headers epoch_dates list_lru (sample_job 1) (sys_store sample_lead) = ([Waiting (sample_job 1) 0], s')
     \<and> cs_open s' = [0]"
proof -
  obtain g s1 where g: "store_get list_lru ''GET http://h/'' (sys_store sample_lead) = (g, s1)"
    by (cases "store_get list_lru ''GET http://h/'' (sys_store sample_lead)")
  then have "g = None" "cs_inflight s1 = [(''GET http://h/'', 0)]" "cs_open s1 = [0]"
    using list_cl.get_entries[OF g] by (simp_all add: sample_lead_store sample_lead_registry)
  with g show ?thesis
    by (simp add: start_task_def lookup_def begin_fetch_def sample_job_def) (simp add: request_cc_default_def)
qed

lemma sample_wait_reachable: "reachable list_headers epoch_dates list_lru sample_wait"
  unfolding sample_wait_def
  by (rule reachable.next_step[OF sample_lead_reachable sys_step.arrive]) simp


text \<open>
  C14. The age an origin reports is not charged against the freshness lifetime: a response that its
  origin allows for thirty seconds and that is twenty-nine seconds old when it is stored is served
  as fresh for thirty more seconds, with an \<open>Age\<close> of fifty-eight seconds in the example.
\<close>

definition aged_entry :: "nat \<Rightarrow> header_list stored_response" where
  "aged_entry age = new_stored list_headers epoch_dates 200 [] ''abc''
     (lifetime_from list_headers epoch_dates sample_policy
        (parse_response_cc list_headers [(''cache-control'', ''max-age=30'')]) [])
     (age_of list_headers [(''age'', show_nat age)]) [] 0"

lemma max_age_30:
  "parse_response_cc list_headers [(''cache-control'', ''max-age=30'')] = response_cc_default\<lparr>rc_max_age := Some 30\<rparr>"
proof -
  have "map directive (split_on CHR '','' ''max-age=30'') = [(''max-age'', Some ''30'')]" by code_simp
  then have "directives list_headers [(''cache-control'', ''max-age=30'')] = [(''max-age'', Some ''30'')]"
    by (simp add: directives_def list_headers_def hl_get_all_def visible_ascii_def)
  then show ?thesis
    by (simp add: parse_response_cc_def response_directive_def parse_secs_def trim_char_def trim_end_char_def
        trim_start_char_def parse_uint_def is_ascii_digit_def Let_def)
qed

lemma show_nat_to_str: "hv_to_str list_headers (show_nat n) = Some (show_nat n)"
proof (rule list_hm.visible_to_str)
  show "\<forall>c \<in> set (show_nat n). visible_ascii c"
    using show_nat_digits[of n] by (auto simp: is_ascii_digit_def visible_ascii_def Let_def)
qed

lemma aged_entry_fields:
  assumes "age \<le> u64_max"
  shows "stored_at (aged_entry age) = 0" "freshness_lifetime (aged_entry age) = from_secs 30"
    "initial_age (aged_entry age) = from_secs age" "st_etag (aged_entry age) = None"
    "st_last_modified (aged_entry age) = None"
proof -
  have "hm_get list_headers [(''age'', show_nat age)] ''age'' = Some (show_nat age)"
    by (simp add: list_headers_def hl_get_all_def)
  then have "age_of list_headers [(''age'', show_nat age)] = from_secs age"
    using parse_show_nat[OF assms] by (simp add: age_of_def hm_get_str_def show_nat_to_str)
  moreover have "lifetime_from list_headers epoch_dates sample_policy (response_cc_default\<lparr>rc_max_age := Some 30\<rparr>) [] = from_secs 30"
    by (simp add: lifetime_from_def response_cc_default_def sample_policy_def from_secs_def)
  ultimately show "stored_at (aged_entry age) = 0" "freshness_lifetime (aged_entry age) = from_secs 30"
    "initial_age (aged_entry age) = from_secs age" "st_etag (aged_entry age) = None"
    "st_last_modified (aged_entry age) = None"
    by (simp_all add: aged_entry_def max_age_30 new_stored_def entry_etag_def header_date_def hm_get_str_def Let_def)
      (simp_all add: list_headers_def hl_get_all_def)
qed


text \<open>
  An origin can make every later hit panic: with an \<open>Age\<close> of the greatest 64-bit number the
  entry is stored, and a lookup a second later overflows the duration when it computes the age.
\<close>

theorem age_overflow_panics:
  "is_fresh (aged_entry u64_max) (from_secs 1)
   \<and> to_response list_headers (aged_entry u64_max) 0 \<noteq> Inl Duration_overflow
   \<and> fst (lookup_entry list_headers epoch_dates (aged_entry u64_max) [] (from_secs 1) request_cc_default)
       = Inl Duration_overflow"
proof -
  note f = aged_entry_fields[of u64_max, simplified]
  have fresh: "is_fresh (aged_entry u64_max) (from_secs 1)"
    by (simp add: is_fresh_def f from_secs_def NANOS_def)
  have "current_age (aged_entry u64_max) 0 \<noteq> Inl Duration_overflow"
    by (simp add: current_age_def f duration_add_def duration_max_def from_secs_def NANOS_def)
  then have "to_response list_headers (aged_entry u64_max) 0 \<noteq> Inl Duration_overflow"
    by (simp add: to_response_def res_simps)
  moreover have "current_age (aged_entry u64_max) (from_secs 1) = Inl Duration_overflow"
    by (simp add: current_age_def f duration_add_def duration_max_def from_secs_def NANOS_def)
  moreover have "\<not> client_not_modified list_headers epoch_dates (aged_entry u64_max) []"
    by (simp add: client_not_modified_def f hm_get_str_def list_headers_def hl_get_all_def)
  ultimately show ?thesis
    using fresh by (simp add: lookup_entry_def request_cc_default_def to_response_def)
qed

end
