(* ===== verification/Matcher.thy ===== *)
theory Matcher
  imports Http
begin

text \<open>
  Request matchers of locations (\<open>matcher.rs\<close>) and their compilation from the configuration
  (\<open>compile_predicates\<close> of \<open>router.rs\<close>).

  The URI and the method are types of the \<open>http\<close> crate: the operations the code calls on them are
  the record \<open>uri_ops\<close>, a parameter. Setting a new path and query is the pair of calls
  \<open>PathAndQuery::from_str\<close> and \<open>Uri::from_parts\<close>, each of which may fail.
\<close>

section \<open>Requests\<close>

record 'u uri_ops =
  uri_path :: "'u \<Rightarrow> string"
  uri_query :: "'u \<Rightarrow> string option"
  uri_set_pq :: "'u \<Rightarrow> string \<Rightarrow> 'u option"
  method_from_bytes :: "string \<Rightarrow> string option"

record ('h, 'u) routed_request =
  rr_method :: string
  rr_uri :: 'u
  rr_headers :: 'h

text \<open>A URI to evaluate with: an absolute path with an optional query.\<close>

definition plain_uri :: "(string \<times> string option) uri_ops" where
  "plain_uri =
     \<lparr>uri_path = fst, uri_query = snd,
      uri_set_pq = (\<lambda>u s. if starts_with s ''/''
                          then (case split_once CHR ''?'' s of
                                  None \<Rightarrow> Some (s, None) | Some (p, q) \<Rightarrow> Some (p, Some q))
                          else None),
      method_from_bytes = (\<lambda>m. if m \<noteq> [] \<and> list_all token_char m then Some m else None)\<rparr>"

section \<open>Matching\<close>

datatype 're header_match = HExact string | HRegex 're

datatype 're match_predicate =
    MMethod "string list"
  | MHeader string "'re header_match list"
  | MHeaderAbsent string
  | MQuery string "string list"
  | MPath "'re list"
  | MNot "'re match_predicate list"

fun header_accepts :: "'re regex_ops \<Rightarrow> string \<Rightarrow> 're header_match \<Rightarrow> bool" where
  "header_accepts R s (HExact want) = (want = s)"
| "header_accepts R s (HRegex re) = re_is_match R re s"

text \<open>The loop over the pairs of the query; the first pair with the name decides.\<close>

fun query_accepts :: "string \<Rightarrow> string list \<Rightarrow> string list \<Rightarrow> bool" where
  "query_accepts name vals [] = False"
| "query_accepts name vals (pair # pairs) =
     (let (k, v) = (case split_once CHR ''='' pair of None \<Rightarrow> (pair, []) | Some (a, b) \<Rightarrow> (a, b))
      in if k = name then v \<in> set vals else query_accepts name vals pairs)"

fun pred_matches ::
  "'h header_ops \<Rightarrow> 'u uri_ops \<Rightarrow> 're regex_ops \<Rightarrow> ('h, 'u) routed_request \<Rightarrow> 're match_predicate \<Rightarrow> bool"
and preds_match ::
  "'h header_ops \<Rightarrow> 'u uri_ops \<Rightarrow> 're regex_ops \<Rightarrow> ('h, 'u) routed_request \<Rightarrow> 're match_predicate list \<Rightarrow> bool"
where
  "pred_matches H U R req (MMethod ms) = (rr_method req \<in> set ms)"
| "pred_matches H U R req (MHeader name vals) =
     (case hm_get H (rr_headers req) name of
        None \<Rightarrow> False
      | Some v \<Rightarrow> (case hv_to_str H v of None \<Rightarrow> False | Some s \<Rightarrow> list_ex (header_accepts R s) vals))"
| "pred_matches H U R req (MHeaderAbsent name) = (\<not> hm_contains_key H (rr_headers req) name)"
| "pred_matches H U R req (MQuery name vals) =
     (case uri_query U (rr_uri req) of
        None \<Rightarrow> False
      | Some q \<Rightarrow> query_accepts name vals (split_on CHR ''&'' q))"
| "pred_matches H U R req (MPath res) = list_ex (\<lambda>re. re_is_match R re (uri_path U (rr_uri req))) res"
| "pred_matches H U R req (MNot inner) = (\<not> preds_match H U R req inner)"
| "preds_match H U R req [] = True"
| "preds_match H U R req (p # ps) = (pred_matches H U R req p \<and> preds_match H U R req ps)"

section \<open>Compilation\<close>

datatype match_config =
    CMethod "string list"
  | CHeader string "string list"
  | CHeaderAbsent string
  | CQuery string "string list"
  | CPath "string list"
  | CNot "match_config list"

datatype matcher_error =
    Invalid_method string
  | Invalid_header_name string
  | Invalid_regex string
  | Invalid_path_regex string

definition option_or :: "'e \<Rightarrow> 'a option \<Rightarrow> 'e + 'a" where
  "option_or e r = (case r of Some x \<Rightarrow> Inr x | None \<Rightarrow> Inl e)"

definition compile_header_value :: "'re regex_ops \<Rightarrow> string \<Rightarrow> matcher_error + 're header_match" where
  "compile_header_value R v =
     (case strip_prefix ''~'' v of
        Some re \<Rightarrow> bind_result (option_or (Invalid_regex re) (re_new R re)) (\<lambda>r. Inr (HRegex r))
      | None \<Rightarrow> Inr (HExact v))"

fun compile_predicate ::
  "'h header_ops \<Rightarrow> 'u uri_ops \<Rightarrow> 're regex_ops \<Rightarrow> match_config \<Rightarrow> matcher_error + 're match_predicate"
and compile_predicates ::
  "'h header_ops \<Rightarrow> 'u uri_ops \<Rightarrow> 're regex_ops \<Rightarrow> match_config list \<Rightarrow> matcher_error + 're match_predicate list"
where
  "compile_predicate H U R (CMethod ms) =
     bind_result (collect_result (\<lambda>m. option_or (Invalid_method m) (method_from_bytes U m)) ms)
       (\<lambda>ms'. Inr (MMethod ms'))"
| "compile_predicate H U R (CHeader name vals) =
     bind_result (option_or (Invalid_header_name name) (hn_from_bytes H name)) (\<lambda>h.
       bind_result (collect_result (compile_header_value R) vals) (\<lambda>vs. Inr (MHeader h vs)))"
| "compile_predicate H U R (CHeaderAbsent name) =
     bind_result (option_or (Invalid_header_name name) (hn_from_bytes H name)) (\<lambda>h. Inr (MHeaderAbsent h))"
| "compile_predicate H U R (CQuery name vals) = Inr (MQuery name vals)"
| "compile_predicate H U R (CPath ps) =
     bind_result (collect_result (\<lambda>p. option_or (Invalid_path_regex p) (re_new R p)) ps) (\<lambda>res. Inr (MPath res))"
| "compile_predicate H U R (CNot inner) =
     bind_result (compile_predicates H U R inner) (\<lambda>ps. Inr (MNot ps))"
| "compile_predicates H U R [] = Inr []"
| "compile_predicates H U R (c # cs) =
     bind_result (compile_predicate H U R c) (\<lambda>p.
       bind_result (compile_predicates H U R cs) (\<lambda>ps. Inr (p # ps)))"

section \<open>What a compiled matcher accepts\<close>

text \<open>
  The meaning of a matcher block, read off the configuration: predicates are joined by AND, the
  alternatives of one predicate by OR, and the value of a query parameter is that of its first
  occurrence.
\<close>

definition query_value :: "string \<Rightarrow> string \<Rightarrow> string option" where
  "query_value name q =
     map_option (\<lambda>pair. case split_once CHR ''='' pair of None \<Rightarrow> [] | Some (k, v) \<Rightarrow> v)
       (find (\<lambda>pair. takeWhile (\<lambda>c. c \<noteq> CHR ''='') pair = name) (split_on CHR ''&'' q))"

fun config_accepts ::
  "'h header_ops \<Rightarrow> 'u uri_ops \<Rightarrow> 're regex_ops \<Rightarrow> ('h, 'u) routed_request \<Rightarrow> match_config \<Rightarrow> bool" where
  "config_accepts H U R req (CMethod ms) = (\<exists>m \<in> set ms. method_from_bytes U m = Some (rr_method req))"
| "config_accepts H U R req (CHeader name vals) =
     (\<exists>s. Option.bind (hn_from_bytes H name) (hm_get_str H (rr_headers req)) = Some s \<and>
        (\<exists>v \<in> set vals. case strip_prefix ''~'' v of
            None \<Rightarrow> v = s | Some re \<Rightarrow> (\<exists>r. re_new R re = Some r \<and> re_is_match R r s)))"
| "config_accepts H U R req (CHeaderAbsent name) =
     (\<exists>n. hn_from_bytes H name = Some n \<and> \<not> hm_contains_key H (rr_headers req) n)"
| "config_accepts H U R req (CQuery name vals) =
     (\<exists>q v. uri_query U (rr_uri req) = Some q \<and> query_value name q = Some v \<and> v \<in> set vals)"
| "config_accepts H U R req (CPath ps) =
     (\<exists>p \<in> set ps. \<exists>r. re_new R p = Some r \<and> re_is_match R r (uri_path U (rr_uri req)))"
| "config_accepts H U R req (CNot inner) = (\<not> list_all (config_accepts H U R req) inner)"

lemma option_or_Inr [simp]: "option_or e r = Inr x \<longleftrightarrow> r = Some x"
  by (auto simp: option_or_def split: option.splits)

lemma takeWhile_split_once:
  "takeWhile (\<lambda>c. c \<noteq> x) s = (case split_once x s of None \<Rightarrow> s | Some (a, b) \<Rightarrow> a)"
  by (induction s) (auto split: option.splits)

lemma query_accepts_value:
  "query_accepts name vals pairs \<longleftrightarrow>
     (case find (\<lambda>pair. takeWhile (\<lambda>c. c \<noteq> CHR ''='') pair = name) pairs of
        None \<Rightarrow> False
      | Some pair \<Rightarrow> (case split_once CHR ''='' pair of None \<Rightarrow> [] | Some (k, v) \<Rightarrow> v) \<in> set vals)"
  by (induction pairs) (auto simp: takeWhile_split_once Let_def split: option.splits)

lemma collect_accepts:
  assumes "collect_result f xs = Inr ys" "\<And>x y. f x = Inr y \<Longrightarrow> P y \<longleftrightarrow> Q x"
  shows "list_ex P ys \<longleftrightarrow> (\<exists>x \<in> set xs. Q x)"
proof -
  have "list_all2 (\<lambda>x y. f x = Inr y) xs ys" using assms(1) by (simp add: collect_result_Inr)
  then show ?thesis by (induction rule: list_all2_induct) (auto simp: assms(2))
qed

lemma header_value_accepts:
  assumes "compile_header_value R v = Inr m"
  shows "header_accepts R s m \<longleftrightarrow>
    (case strip_prefix ''~'' v of None \<Rightarrow> v = s | Some re \<Rightarrow> (\<exists>r. re_new R re = Some r \<and> re_is_match R r s))"
  using assms by (auto simp: compile_header_value_def res_simps split: option.splits)

lemma compiled_accepts:
  "compile_predicate H U R c = Inr p \<Longrightarrow> pred_matches H U R req p \<longleftrightarrow> config_accepts H U R req c"
  "compile_predicates H U R cs = Inr ps \<Longrightarrow> preds_match H U R req ps \<longleftrightarrow> list_all (config_accepts H U R req) cs"
proof (induction H U R c and H U R cs arbitrary: p and ps rule: compile_predicate_compile_predicates.induct)
  case (1 H U R ms)
  then obtain ms' where ms': "collect_result (\<lambda>m. option_or (Invalid_method m) (method_from_bytes U m)) ms = Inr ms'"
    "p = MMethod ms'" by (auto simp: res_simps)
  from collect_accepts[OF ms'(1), of "\<lambda>y. y = rr_method req" "\<lambda>m. method_from_bytes U m = Some (rr_method req)"]
  show ?case using ms'(2) by (auto simp: list_ex_iff)
next
  case (2 H U R name vals)
  then obtain h vs where h: "hn_from_bytes H name = Some h" "collect_result (compile_header_value R) vals = Inr vs"
    "p = MHeader h vs" by (auto simp: res_simps)
  have acc: "list_ex (header_accepts R s) vs \<longleftrightarrow> (\<exists>v \<in> set vals. case strip_prefix ''~'' v of
      None \<Rightarrow> v = s | Some re \<Rightarrow> (\<exists>r. re_new R re = Some r \<and> re_is_match R r s))" for s
    by (rule collect_accepts[OF h(2)]) (rule header_value_accepts)
  show ?case
  proof (cases "Option.bind (hm_get H (rr_headers req) h) (hv_to_str H)")
    case None
    then show ?thesis using h(1,3) by (auto simp: hm_get_str_def split: option.splits)
  next
    case (Some s)
    then obtain v where "hm_get H (rr_headers req) h = Some v" "hv_to_str H v = Some s"
      by (cases "hm_get H (rr_headers req) h") auto
    then show ?thesis using acc[of s] h(1,3) by (simp add: hm_get_str_def)
  qed
next
  case (5 H U R ps)
  then obtain res where r: "collect_result (\<lambda>p. option_or (Invalid_path_regex p) (re_new R p)) ps = Inr res"
    "p = MPath res" by (auto simp: res_simps)
  from collect_accepts[OF r(1), of "\<lambda>re. re_is_match R re (uri_path U (rr_uri req))"
      "\<lambda>p. \<exists>r. re_new R p = Some r \<and> re_is_match R r (uri_path U (rr_uri req))"]
  show ?case using r(2) by auto
qed (auto simp: res_simps query_accepts_value query_value_def split: option.splits)



end
