(* ===== verification/Router_Build.thy ===== *)
theory Router_Build
  imports Matcher Policy_Resolve Rate_Limit Load_Balancer Cache_Policy
begin

text \<open>
  Building the virtual hosts from the configuration (\<open>build_vhost\<close> of \<open>router.rs\<close> and the functions
  it calls): every part of a location is compiled against the variable table of its scope, and
  every template folds what it refers to into the location's needs.

  The handler factory (\<open>handler::build_handler\<close>) is an argument: it takes a handler's configuration,
  the variable table and the needs collected so far, and returns the handler, the pool of a
  reverse proxy and the extended needs, or an error.
\<close>

section \<open>Configuration and result\<close>

datatype 'x handler_config =
    HStatic 'x | HProxy 'x | HRedirect 'x | HRespond 'x | HFastCgi 'x | HScgi 'x | HCgi 'x
  | HStatus | HMetrics | HAuthRequest

datatype handler_kind =
    KStatic | KProxy | KRedirect | KRespond | KFastCgi | KScgi | KCgi | KStatus | KMetrics | KAuthRequest

fun kind_of_handler :: "'x handler_config \<Rightarrow> handler_kind" where
  "kind_of_handler (HStatic _) = KStatic"
| "kind_of_handler (HProxy _) = KProxy"
| "kind_of_handler (HRedirect _) = KRedirect"
| "kind_of_handler (HRespond _) = KRespond"
| "kind_of_handler (HFastCgi _) = KFastCgi"
| "kind_of_handler (HScgi _) = KScgi"
| "kind_of_handler (HCgi _) = KCgi"
| "kind_of_handler HStatus = KStatus"
| "kind_of_handler HMetrics = KMetrics"
| "kind_of_handler HAuthRequest = KAuthRequest"

datatype header_op_config = OSet string string | OAdd string string | ORemove string

datatype rate_key_config = CfgClientIp | CfgUser | CfgHeader string

record rate_config =
  rlc_name :: string
  rlc_rate :: real
  rlc_burst :: real
  rlc_key :: rate_key_config

record rewrite_config =
  rwc_from :: string
  rwc_to :: string

record ('x, 'net) location_config =
  lc_path :: string
  lc_handler :: "'x handler_config"
  lc_policy :: "'net policy_rule_def list option"
  lc_auth_realm :: "string option"
  lc_request_headers :: "header_op_config list"
  lc_response_headers :: "header_op_config list"
  lc_rate_limits :: "rate_config list"
  lc_max_request_body :: "nat option"
  lc_matcher :: "match_config list option"
  lc_rewrite :: "rewrite_config option"
  lc_cache :: "cache_config option"
  lc_variables :: "variable_def list"

record vhost_name =
  vn_value :: string
  vn_regex :: bool

record ('x, 'net) vhost_config =
  vc_name :: vhost_name
  vc_aliases :: "vhost_name list"
  vc_locations :: "('x, 'net) location_config list"
  vc_ref_name :: "string option"
  vc_explicit_only :: bool
  vc_variables :: "variable_def list"

record 're rewrite =
  rw_from :: 're
  rw_to :: string

record ('hd, 'net, 're) location =
  loc_path :: string
  loc_handler :: 'hd
  loc_kind :: handler_kind
  loc_policy :: "'net policy_block option"
  loc_auth_realm :: "string option"
  loc_header_rules :: "header_rules option"
  loc_rate_limits :: "rate_limit_rule list"
  loc_max_request_body :: "nat option"
  loc_matcher :: "'re match_predicate list option"
  loc_rewrite :: "'re rewrite option"
  loc_cache :: "cache_policy option"
  loc_vars :: "('re var_table \<times> var_needs) option"
  loc_log_fields :: "(string \<times> template) list option"

record ('hd, 'net, 're) vhost =
  vh_name :: string
  vh_locations :: "('hd, 'net, 're) location list"

datatype 'he router_error =
    Variable_error var_error
  | Template_failed template_error
  | Policy_failed policy_error
  | Matcher_failed matcher_error
  | Header_name_error string
  | Rate_header_error string
  | Rewrite_error string
  | Handler_error 'he

type_synonym ('x, 'hd, 're, 'he) handler_builder =
  "'x handler_config \<Rightarrow> 're var_table \<Rightarrow> var_needs \<Rightarrow> 'he + ('hd \<times> upstream_pool option \<times> var_needs)"

section \<open>The parts of a location\<close>

definition with_err :: "('a \<Rightarrow> 'e) \<Rightarrow> 'a + 'b \<Rightarrow> 'e + 'b" where
  "with_err f r = map_sum f (\<lambda>x. x) r"

definition compile_absorb ::
  "'h header_ops \<Rightarrow> 're var_table \<Rightarrow> string \<Rightarrow> var_needs \<Rightarrow> 'he router_error + (template \<times> var_needs)" where
  "compile_absorb H T s nd =
     bind_result (with_err Template_failed (compile_template H s (table_names T)))
       (\<lambda>t. Inr (t, absorb_needs T nd t))"

definition op_name :: "'h header_ops \<Rightarrow> string \<Rightarrow> 'he router_error + string" where
  "op_name H name = option_or (Header_name_error name) (hn_from_bytes H name)"

fun op_from_config ::
  "'h header_ops \<Rightarrow> 're var_table \<Rightarrow> header_op_config \<Rightarrow> var_needs \<Rightarrow>
   'he router_error + (header_op \<times> var_needs)" where
  "op_from_config H T (OSet name v) nd =
     bind_result (op_name H name) (\<lambda>n.
       bind_result (compile_absorb H T v nd) (\<lambda>(t, nd'). Inr (SetOp n t, nd')))"
| "op_from_config H T (OAdd name v) nd =
     bind_result (op_name H name) (\<lambda>n.
       bind_result (compile_absorb H T v nd) (\<lambda>(t, nd'). Inr (AddOp n t, nd')))"
| "op_from_config H T (ORemove name) nd =
     bind_result (op_name H name) (\<lambda>n. Inr (RemoveOp n, nd))"

text \<open>\<open>map\<close> and \<open>collect\<close> over a closure that also extends the needs.\<close>

fun collect_needs ::
  "('a \<Rightarrow> var_needs \<Rightarrow> 'e + ('b \<times> var_needs)) \<Rightarrow> 'a list \<Rightarrow> var_needs \<Rightarrow> 'e + ('b list \<times> var_needs)" where
  "collect_needs f [] nd = Inr ([], nd)"
| "collect_needs f (x # xs) nd =
     bind_result (f x nd) (\<lambda>(y, nd').
       bind_result (collect_needs f xs nd') (\<lambda>(ys, nd''). Inr (y # ys, nd'')))"

definition build_header_rules ::
  "'h header_ops \<Rightarrow> 're var_table \<Rightarrow> ('x, 'net) location_config \<Rightarrow> var_needs \<Rightarrow>
   'he router_error + (header_rules option \<times> var_needs)" where
  "build_header_rules H T loc nd =
     (if lc_request_headers loc = [] \<and> lc_response_headers loc = [] then Inr (None, nd)
      else
        bind_result (collect_needs (op_from_config H T) (lc_request_headers loc) nd) (\<lambda>(req, nd1).
          bind_result (collect_needs (op_from_config H T) (lc_response_headers loc) nd1) (\<lambda>(resp, nd2).
            Inr (Some (new_header_rules req resp), nd2))))"

definition build_policy ::
  "'h header_ops \<Rightarrow> 're var_table \<Rightarrow> 'net resolved \<Rightarrow> ('x, 'net) location_config \<Rightarrow> var_needs \<Rightarrow>
   'he router_error + ('net policy_block option \<times> var_needs)" where
  "build_policy H T named loc nd =
     (case lc_policy loc of
        None \<Rightarrow> Inr (None, nd)
      | Some ds \<Rightarrow>
          bind_result (with_err Policy_failed (inline_rules ds named False)) (\<lambda>rs.
            bind_result (with_err Template_failed (block_with_vars H rs (table_names T))) (\<lambda>b.
              Inr (Some b, foldl (absorb_needs T) nd (block_templates b)))))"

definition rate_limit_rule_from_config ::
  "'h header_ops \<Rightarrow> rate_config \<Rightarrow> 'he router_error + rate_limit_rule" where
  "rate_limit_rule_from_config H cfg =
     bind_result
       (case rlc_key cfg of
          CfgClientIp \<Rightarrow> Inr KClientIp
        | CfgUser \<Rightarrow> Inr KUser
        | CfgHeader name \<Rightarrow>
            bind_result (option_or (Rate_header_error name) (hn_from_bytes H name)) (\<lambda>h. Inr (KHeader h)))
       (\<lambda>key. Inr (new_rate_limit_rule (rlc_name cfg) (rlc_rate cfg) (rlc_burst cfg) key))"

definition transpose_result :: "('a \<Rightarrow> 'e + 'b) \<Rightarrow> 'a option \<Rightarrow> 'e + 'b option" where
  "transpose_result f x = (case x of None \<Rightarrow> Inr None | Some a \<Rightarrow> bind_result (f a) (\<lambda>b. Inr (Some b)))"

definition rewrite_from_config :: "'re regex_ops \<Rightarrow> rewrite_config \<Rightarrow> 'he router_error + 're rewrite" where
  "rewrite_from_config R cfg =
     bind_result (option_or (Rewrite_error (rwc_from cfg)) (re_new R (rwc_from cfg)))
       (\<lambda>re. Inr \<lparr>rw_from = re, rw_to = rwc_to cfg\<rparr>)"

definition build_cache ::
  "'h header_ops \<Rightarrow> 're var_table \<Rightarrow> ('x, 'net) location_config \<Rightarrow> var_needs \<Rightarrow>
   'he router_error + (cache_policy option \<times> var_needs)" where
  "build_cache H T loc nd =
     (case lc_cache loc of
        None \<Rightarrow> Inr (None, nd)
      | Some c \<Rightarrow>
          bind_result (with_err Template_failed (compile_policy H c (table_names T))) (\<lambda>p.
            Inr (Some p, case key_template (cp_key p) of Some t \<Rightarrow> absorb_needs T nd t | None \<Rightarrow> nd)))"

definition build_log_fields ::
  "'h header_ops \<Rightarrow> 're var_table \<Rightarrow> (string \<times> string) list \<Rightarrow> var_needs \<Rightarrow>
   'he router_error + ((string \<times> template) list option \<times> var_needs)" where
  "build_log_fields H T flds nd =
     (if flds = [] then Inr (None, nd)
      else
        bind_result
          (collect_needs
             (\<lambda>(fname, raw) nd. bind_result (compile_absorb H T raw nd) (\<lambda>(t, nd'). Inr ((fname, t), nd')))
             flds nd)
          (\<lambda>(fs, nd'). Inr (Some fs, nd')))"

section \<open>Locations and virtual hosts\<close>

definition build_location ::
  "'h header_ops \<Rightarrow> 'u uri_ops \<Rightarrow> 're regex_ops \<Rightarrow> ('x, 'hd, 're, 'he) handler_builder \<Rightarrow> 'net resolved \<Rightarrow>
   (string \<times> string) list \<Rightarrow> 're var_table \<Rightarrow> ('x, 'net) location_config \<Rightarrow>
   'he router_error + (('hd, 'net, 're) location \<times> upstream_pool option)" where
  "build_location H U R bh named flds T loc =
     bind_result (with_err Handler_error (bh (lc_handler loc) T needs_default)) (\<lambda>(handler, pool, nd0).
     bind_result (build_header_rules H T loc nd0) (\<lambda>(rules, nd1).
     bind_result (build_policy H T named loc nd1) (\<lambda>(policy, nd2).
     bind_result (collect_result (rate_limit_rule_from_config H) (lc_rate_limits loc)) (\<lambda>limits.
     bind_result (transpose_result (\<lambda>m. with_err Matcher_failed (compile_predicates H U R m)) (lc_matcher loc)) (\<lambda>matcher.
     bind_result (transpose_result (rewrite_from_config R) (lc_rewrite loc)) (\<lambda>rewrite.
     bind_result (build_cache H T loc nd2) (\<lambda>(cache, nd3).
     bind_result (build_log_fields H T flds nd3) (\<lambda>(log, nd4).
       Inr (\<lparr>loc_path = lc_path loc, loc_handler = handler, loc_kind = kind_of_handler (lc_handler loc),
             loc_policy = policy, loc_auth_realm = lc_auth_realm loc, loc_header_rules = rules,
             loc_rate_limits = limits, loc_max_request_body = lc_max_request_body loc,
             loc_matcher = matcher, loc_rewrite = rewrite, loc_cache = cache,
             loc_vars = (if any_needs nd4 then Some (T, nd4) else None), loc_log_fields = log\<rparr>,
            pool)))))))))"

definition scope_table ::
  "'h header_ops \<Rightarrow> 're regex_ops \<Rightarrow> 're var_table \<Rightarrow> variable_def list list \<Rightarrow> variable_def list \<Rightarrow>
   ('he router_error + 're var_table) option" where
  "scope_table H R outer layers own =
     (if own = [] then Some (Inr outer)
      else map_option (with_err Variable_error) (build_layered H R (layers @ [own])))"

fun build_locations ::
  "'h header_ops \<Rightarrow> 'u uri_ops \<Rightarrow> 're regex_ops \<Rightarrow> ('x, 'hd, 're, 'he) handler_builder \<Rightarrow> 'net resolved \<Rightarrow>
   (string \<times> string) list \<Rightarrow> 're var_table \<Rightarrow> variable_def list list \<Rightarrow> string \<Rightarrow>
   ('x, 'net) location_config list \<Rightarrow>
   ('he router_error + (('hd, 'net, 're) location list \<times> (string \<times> upstream_pool) list)) option" where
  "build_locations H U R bh named flds T layers vname [] = Some (Inr ([], []))"
| "build_locations H U R bh named flds T layers vname (loc # locs) =
     (case scope_table H R T layers (lc_variables loc) of
        None \<Rightarrow> None
      | Some (Inl e) \<Rightarrow> Some (Inl e)
      | Some (Inr T') \<Rightarrow>
          (case build_location H U R bh named flds T' loc of
             Inl e \<Rightarrow> Some (Inl e)
           | Inr (l, pool) \<Rightarrow>
               map_option
                 (\<lambda>r. bind_result r (\<lambda>(ls, pools).
                    Inr (l # ls,
                         (case pool of Some p \<Rightarrow> [(vname @ '' '' @ lc_path loc, p)] | None \<Rightarrow> []) @ pools)))
                 (build_locations H U R bh named flds T layers vname locs)))"

definition build_vhost ::
  "'h header_ops \<Rightarrow> 'u uri_ops \<Rightarrow> 're regex_ops \<Rightarrow> ('x, 'hd, 're, 'he) handler_builder \<Rightarrow> 'net resolved \<Rightarrow>
   're var_table \<Rightarrow> variable_def list \<Rightarrow> (string \<times> string) list \<Rightarrow> ('x, 'net) vhost_config \<Rightarrow>
   ('he router_error + (('hd, 'net, 're) vhost \<times> (string \<times> upstream_pool) list)) option" where
  "build_vhost H U R bh named server_table server_vars flds vcfg =
     (case scope_table H R server_table [server_vars] (vc_variables vcfg) of
        None \<Rightarrow> None
      | Some (Inl e) \<Rightarrow> Some (Inl e)
      | Some (Inr T) \<Rightarrow>
          map_option
            (\<lambda>r. bind_result r (\<lambda>(ls, pools).
               Inr (\<lparr>vh_name = vn_value (vc_name vcfg), vh_locations = ls\<rparr>, pools)))
            (build_locations H U R bh named flds T [server_vars, vc_variables vcfg]
               (vn_value (vc_name vcfg)) (vc_locations vcfg)))"

section \<open>The needs cover the templates\<close>

definition needs_le :: "var_needs \<Rightarrow> var_needs \<Rightarrow> bool" where
  "needs_le a b \<longleftrightarrow>
     (needs_principal a \<longrightarrow> needs_principal b) \<and> (needs_geoip a \<longrightarrow> needs_geoip b)
     \<and> set (needs_headers a) \<subseteq> set (needs_headers b) \<and> (needs_uses_vars a \<longrightarrow> needs_uses_vars b)"

definition covers :: "'re var_table \<Rightarrow> var_needs \<Rightarrow> template \<Rightarrow> bool" where
  "covers T nd t \<longleftrightarrow>
     (tr_principal (refs t) \<longrightarrow> needs_principal nd) \<and> (tr_geoip (refs t) \<longrightarrow> needs_geoip nd)
     \<and> set (tr_headers (refs t)) \<subseteq> set (needs_headers nd)
     \<and> (\<forall>i \<in> set (tr_vars (refs t)). needs_uses_vars nd \<and> needs_le (needs_of T i) nd)"

lemma needs_le_refl [simp]: "needs_le a a"
  by (simp add: needs_le_def)

lemma needs_le_trans: "needs_le a b \<Longrightarrow> needs_le b c \<Longrightarrow> needs_le a c"
  by (auto simp: needs_le_def)

lemma covers_mono: "covers T a t \<Longrightarrow> needs_le a b \<Longrightarrow> covers T b t"
  unfolding covers_def by (meson needs_le_def needs_le_trans subset_trans)

lemma merge_le: "needs_le a (merge_needs a b)" "needs_le b (merge_needs a b)"
  by (auto simp: needs_le_def merge_needs_def)

lemma absorb_vars:
  "needs_le nd (foldl (\<lambda>a i. merge_needs (a\<lparr>needs_uses_vars := True\<rparr>) (needs_of T i)) nd is)
   \<and> (\<forall>i \<in> set is. needs_uses_vars (foldl (\<lambda>a i. merge_needs (a\<lparr>needs_uses_vars := True\<rparr>) (needs_of T i)) nd is)
        \<and> needs_le (needs_of T i) (foldl (\<lambda>a i. merge_needs (a\<lparr>needs_uses_vars := True\<rparr>) (needs_of T i)) nd is))"
proof (induction "is" arbitrary: nd)
  case (Cons i js)
  let ?m = "merge_needs (nd\<lparr>needs_uses_vars := True\<rparr>) (needs_of T i)"
  have m: "needs_le nd ?m" "needs_le (needs_of T i) ?m" "needs_uses_vars ?m"
    by (auto simp: needs_le_def merge_needs_def)
  show ?case using Cons[of ?m] m needs_le_trans needs_le_def by (simp, blast)
qed simp

lemma absorb_covers: "needs_le nd (absorb_needs T nd t)" "covers T (absorb_needs T nd t) t"
proof -
  let ?nd = "nd\<lparr>needs_principal := needs_principal nd \<or> tr_principal (refs t),
     needs_geoip := needs_geoip nd \<or> tr_geoip (refs t),
     needs_headers := foldl push_new (needs_headers nd) (tr_headers (refs t))\<rparr>"
  have le: "needs_le nd ?nd" by (auto simp: needs_le_def)
  have a: "absorb_needs T nd t =
      foldl (\<lambda>a i. merge_needs (a\<lparr>needs_uses_vars := True\<rparr>) (needs_of T i)) ?nd (tr_vars (refs t))"
    by (simp add: absorb_needs_def Let_def)
  note v = absorb_vars[of ?nd T "tr_vars (refs t)", folded a]
  show "needs_le nd (absorb_needs T nd t)" using v le needs_le_trans by blast
  show "covers T (absorb_needs T nd t) t" using v unfolding covers_def needs_le_def by auto
qed

lemma absorb_all:
  "needs_le nd (foldl (absorb_needs T) nd ts) \<and> (\<forall>t \<in> set ts. covers T (foldl (absorb_needs T) nd ts) t)"
proof (induction ts arbitrary: nd)
  case (Cons t ts)
  have i: "needs_le (absorb_needs T nd t) (foldl (absorb_needs T) (absorb_needs T nd t) ts)"
    "\<forall>u \<in> set ts. covers T (foldl (absorb_needs T) (absorb_needs T nd t) ts) u"
    using Cons by blast+
  show ?case
    using i covers_mono[OF absorb_covers(2) i(1)] needs_le_trans[OF absorb_covers(1) i(1)] by simp
qed simp

fun op_templates :: "header_op \<Rightarrow> template list" where
  "op_templates (SetOp n t) = [t]"
| "op_templates (AddOp n t) = [t]"
| "op_templates (RemoveOp n) = []"

definition rules_templates :: "header_rules \<Rightarrow> template list" where
  "rules_templates r = concat (map op_templates (hr_request r @ hr_response r))"

text \<open>Every template a location renders outside its handler.\<close>

definition location_templates :: "('hd, 'net, 're) location \<Rightarrow> template list" where
  "location_templates l =
     (case loc_header_rules l of None \<Rightarrow> [] | Some r \<Rightarrow> rules_templates r)
     @ (case loc_policy l of None \<Rightarrow> [] | Some b \<Rightarrow> block_templates b)
     @ (case Option.bind (loc_cache l) (\<lambda>p. key_template (cp_key p)) of None \<Rightarrow> [] | Some t \<Rightarrow> [t])
     @ (case loc_log_fields l of None \<Rightarrow> [] | Some fs \<Rightarrow> map snd fs)"

definition location_needs :: "('hd, 'net, 're) location \<Rightarrow> var_needs" where
  "location_needs l = (case loc_vars l of None \<Rightarrow> needs_default | Some (T, nd) \<Rightarrow> nd)"

definition location_slots :: "('hd, 'net, 're) location \<Rightarrow> slots" where
  "location_slots l = (case loc_vars l of None \<Rightarrow> [] | Some (T, nd) \<Rightarrow> new_slots T)"

text \<open>A step that extends the needs and covers the templates of what it builds.\<close>

definition extends :: "'re var_table \<Rightarrow> var_needs \<Rightarrow> var_needs \<Rightarrow> template list \<Rightarrow> bool" where
  "extends T nd nd' ts \<longleftrightarrow> needs_le nd nd' \<and> (\<forall>t \<in> set ts. covers T nd' t)"

lemma extends_trans:
  "extends T a b ts \<Longrightarrow> extends T b c us \<Longrightarrow> extends T a c (ts @ us)"
  unfolding extends_def using covers_mono needs_le_trans by fastforce

lemma collect_extends:
  assumes "\<And>x nd y nd'. f x nd = Inr (y, nd') \<Longrightarrow> extends T nd nd' (ts y)"
    "collect_needs f xs nd = Inr (ys, nd')"
  shows "extends T nd nd' (concat (map ts ys))"
  using assms(2)
proof (induction xs arbitrary: nd ys)
  case (Cons x xs)
  then obtain y nd1 zs where y: "f x nd = Inr (y, nd1)" "collect_needs f xs nd1 = Inr (zs, nd')" "ys = y # zs"
    by (auto simp: res_simps)
  from extends_trans[OF assms(1)[OF y(1)] Cons.IH[OF y(2)]] y(3) show ?case by simp
qed (simp add: extends_def)

lemma compile_absorb_extends: "compile_absorb H T s nd = Inr (t, nd') \<Longrightarrow> extends T nd nd' [t]"
  using absorb_covers by (auto simp: compile_absorb_def res_simps extends_def)

lemma op_extends: "op_from_config H T c nd = Inr (y, nd') \<Longrightarrow> extends T nd nd' (op_templates y)"
  by (cases c) (auto simp: res_simps extends_def dest!: compile_absorb_extends)

lemma header_rules_extends:
  assumes "build_header_rules H T loc nd = (Inr (r, nd') :: 'he router_error + _)"
  shows "extends T nd nd' (case r of None \<Rightarrow> [] | Some x \<Rightarrow> rules_templates x)"
proof (cases "lc_request_headers loc = [] \<and> lc_response_headers loc = []")
  case True
  then show ?thesis using assms by (auto simp: build_header_rules_def extends_def)
next
  case False
  then obtain req nd1 resp where
    c: "collect_needs (op_from_config H T) (lc_request_headers loc) nd = (Inr (req, nd1) :: 'he router_error + _)"
    "collect_needs (op_from_config H T) (lc_response_headers loc) nd1 = (Inr (resp, nd') :: 'he router_error + _)"
    "r = Some (new_header_rules req resp)"
    using assms by (auto simp: build_header_rules_def res_simps split: if_splits)
  from extends_trans[OF collect_extends[OF op_extends c(1)] collect_extends[OF op_extends c(2)]]
  show ?thesis using c(3) by (simp add: rules_templates_def new_header_rules_def)
qed

lemma policy_extends:
  "build_policy H T named loc nd = Inr (p, nd') \<Longrightarrow> extends T nd nd' (case p of None \<Rightarrow> [] | Some b \<Rightarrow> block_templates b)"
  using absorb_all by (auto simp: build_policy_def res_simps extends_def split: option.splits)

lemma cache_extends:
  assumes "build_cache H T loc nd = (Inr (p, nd') :: 'he router_error + _)"
  shows "extends T nd nd' (case Option.bind p (\<lambda>p. key_template (cp_key p)) of None \<Rightarrow> [] | Some t \<Rightarrow> [t])"
proof (cases p)
  case None
  then show ?thesis using assms by (auto simp: build_cache_def res_simps extends_def split: option.splits)
next
  case (Some q)
  then have "nd' = (case key_template (cp_key q) of Some t \<Rightarrow> absorb_needs T nd t | None \<Rightarrow> nd)"
    using assms by (auto simp: build_cache_def res_simps split: option.splits)
  then show ?thesis
    using Some by (cases "key_template (cp_key q)") (simp_all add: extends_def absorb_covers)
qed

lemma log_extends:
  assumes "build_log_fields H T flds nd = (Inr (r, nd') :: 'he router_error + _)"
  shows "extends T nd nd' (case r of None \<Rightarrow> [] | Some fs \<Rightarrow> map snd fs)"
proof (cases "flds = []")
  case True
  then show ?thesis using assms by (auto simp: build_log_fields_def extends_def)
next
  case False
  let ?f = "\<lambda>(fname, raw) nd. bind_result (compile_absorb H T raw nd)
    (\<lambda>(t, nd'). Inr ((fname, t), nd') :: 'he router_error + _)"
  obtain fs where fs: "collect_needs ?f flds nd = Inr (fs, nd')" "r = Some fs"
    using assms False by (auto simp: build_log_fields_def res_simps split: if_splits)
  have "extends T nd nd' (concat (map (\<lambda>y. [snd y]) fs))"
    by (rule collect_extends[OF _ fs(1)]) (auto simp: res_simps dest!: compile_absorb_extends)
  then show ?thesis using fs(2) by (simp add: concat_map_singleton)
qed

lemma location_extends:
  assumes "build_location H U R bh named flds T loc = (Inr (l, pool) :: 'he router_error + _)"
  obtains nd where "loc_vars l = (if any_needs nd then Some (T, nd) else None)"
    "\<forall>t \<in> set (location_templates l). covers T nd t"
proof -
  obtain nd0 nd1 nd2 nd3 nd4 rules policy cache log where
    p: "build_header_rules H T loc nd0 = (Inr (rules, nd1) :: 'he router_error + _)"
      "build_policy H T named loc nd1 = (Inr (policy, nd2) :: 'he router_error + _)"
      "build_cache H T loc nd2 = (Inr (cache, nd3) :: 'he router_error + _)"
      "build_log_fields H T flds nd3 = (Inr (log, nd4) :: 'he router_error + _)"
    and l: "loc_header_rules l = rules" "loc_policy l = policy" "loc_cache l = cache" "loc_log_fields l = log"
      "loc_vars l = (if any_needs nd4 then Some (T, nd4) else None)"
    using assms unfolding build_location_def by (auto simp: res_simps)
  from extends_trans[OF header_rules_extends[OF p(1)] extends_trans[OF policy_extends[OF p(2)]
      extends_trans[OF cache_extends[OF p(3)] log_extends[OF p(4)]]]]
  have "\<forall>t \<in> set (location_templates l). covers T nd4 t"
    unfolding extends_def location_templates_def l(1-4) by blast
  with l(5) that show thesis by blast
qed

section \<open>Rendering within the needs\<close>

lemma covered_part:
  assumes "covers T nd t" "contexts_agree nd a b" "p \<in> set (parts t)"
  shows "part_agrees T a b p"
proof (cases p)
  case (Var v fb)
  then have "v = Username \<or> v = Groups \<Longrightarrow> needs_principal nd" "v = CountryVar \<Longrightarrow> needs_geoip nd"
    using assms(1,3) by (auto simp: covers_def refs_sets)
  then have "known_value a v = known_value b v"
    using assms(2) unfolding contexts_agree_def by (cases v) auto
  then show ?thesis using Var by (simp add: part_agrees_def)
next
  case (Header n fb)
  then have "n \<in> set (needs_headers nd)" using assms(1,3) by (auto simp: covers_def refs_sets)
  then show ?thesis using Header assms(2) by (simp add: part_agrees_def contexts_agree_def)
next
  case (Custom j fb)
  then have "needs_le (needs_of T j) nd" using assms(1,3) by (auto simp: covers_def refs_sets)
  then show ?thesis using Custom assms(2) by (auto simp: part_agrees_def contexts_agree_def needs_le_def)
qed (simp_all add: part_agrees_def)

lemma render_value:
  assumes "table_ok T"
  shows "\<exists>s sl. render R (Some T) cx t (new_slots T) = Some (s, sl) \<and> parts_value R T cx None (parts t) s"
proof -
  have "getter_total T {i. \<exists>fb. Custom i fb \<in> set (parts t)} (get_var (scope_fuel (Some T)) R (Some T) cx)"
    unfolding getter_total_def
  proof (intro ballI allI impI)
    fix i and sl :: slots
    assume "length sl = length (defs T)"
    then show "\<exists>v sl'. get_var (scope_fuel (Some T)) R (Some T) cx i sl = Some (v, sl') \<and> length sl' = length (defs T)"
      using get_var_total[of T i "scope_fuel (Some T)" sl R cx] assms dep_rank_le[of T i]
      by (simp add: table_ok_def scope_fuel_def)
  qed
  from render_parts_total[OF this, of "new_slots T" cx None] obtain s sl where
    r: "render R (Some T) cx t (new_slots T) = Some (s, sl)"
    by (auto simp: render_def new_slots_def)
  with render_parts_ok[OF get_var_ok new_slots_ok] show ?thesis unfolding render_def by blast
qed

lemma render_static:
  assumes "\<forall>i fb. Custom i fb \<notin> set ps"
  shows "render_parts get cx caps ps sl = Some (concat (map (\<lambda>p. the (simple_value cx caps p)) ps), sl)"
  using assms
proof (induction ps)
  case (Cons p ps)
  then show ?case by (cases p) auto
qed simp


definition sample_location_config :: "(unit, nat) location_config" where
  "sample_location_config =
     \<lparr>lc_path = ''/api'', lc_handler = HRespond (), lc_policy = None, lc_auth_realm = None,
      lc_request_headers = [OSet ''X-Who'' ''{who}''], lc_response_headers = [ORemove ''Server''],
      lc_rate_limits = [], lc_max_request_body = None, lc_matcher = None, lc_rewrite = None,
      lc_cache = None, lc_variables = []\<rparr>"

text \<open>A factory for the static responder, which adds no needs of its own.\<close>

definition respond_builder :: "(unit, unit, string, unit) handler_builder" where
  "respond_builder cfg T nd = Inr ((), None, nd)"

definition sample_location :: "(unit, nat, string) location" where
  "sample_location =
     (case build_location list_headers plain_uri literal_regex respond_builder Map.empty [] sample_table
         sample_location_config of
        Inr (l, _) \<Rightarrow> l)"

lemma sample_location_built:
  "build_location list_headers plain_uri literal_regex respond_builder Map.empty [] sample_table
     sample_location_config = Inr (sample_location, None)"
proof -
  have "case build_location list_headers plain_uri literal_regex respond_builder Map.empty [] sample_table
     sample_location_config of Inr (l, None) \<Rightarrow> True | _ \<Rightarrow> False" by code_simp
  then show ?thesis by (auto simp: sample_location_def split: option.splits sum.splits prod.splits)
qed


end
