(* ===== verification/Router.thy ===== *)
theory Router
  imports Router_Build "HOL-Library.AList" "HOL-Library.Product_Lexorder"
begin

text \<open>
  The router (\<open>router.rs\<close>): one table of virtual hosts per HTTP listener, the choice of the virtual
  host by the Host header and of the location by path and matcher, the rewrite loop, and the
  checks of the configuration (\<open>Config::validate\<close>) that the tables rely on.

  The code shares a built virtual host between tables by reference; here the reference is the
  index in the list of built hosts, so that two references are equal exactly when the pointers
  are. A \<open>HashMap\<close> whose values are iterated is an association list; the order of its entries is
  not relied on.
\<close>

section \<open>Configuration\<close>

record listener_config =
  li_name :: string
  li_proxy :: bool
  li_vhosts :: "string list"
  li_reject_unknown_host :: bool

record ('x, 'net) server_config =
  sc_variables :: "variable_def list"
  sc_policies :: "'net policy_defs"
  sc_policy_keys :: "string list"
  sc_log_fields :: "(string \<times> string) list"
  sc_vhosts :: "('x, 'net) vhost_config list"
  sc_listeners :: "listener_config list"

definition handle :: "('x, 'net) vhost_config \<Rightarrow> string" where
  "handle v = (case vc_ref_name v of Some n \<Rightarrow> n | None \<Rightarrow> vn_value (vc_name v))"

definition all_names :: "('x, 'net) vhost_config \<Rightarrow> vhost_name list" where
  "all_names v = vc_name v # vc_aliases v"

section \<open>Validation of the virtual hosts\<close>

datatype validate_error =
    Invalid_vhost_regex string
  | Duplicate_handle string
  | Unknown_vhost string
  | Host_served_twice string

fun check_regexes :: "'re regex_ops \<Rightarrow> vhost_name list \<Rightarrow> validate_error + unit" where
  "check_regexes R [] = Inr ()"
| "check_regexes R (n # ns) =
     (if vn_regex n \<and> re_new R (vn_value n) = None then Inl (Invalid_vhost_regex (vn_value n))
      else check_regexes R ns)"

fun insert_handles ::
  "nat \<Rightarrow> ('x, 'net) vhost_config list \<Rightarrow> (string \<rightharpoonup> nat) \<Rightarrow> validate_error + (string \<rightharpoonup> nat)" where
  "insert_handles i [] m = Inr m"
| "insert_handles i (v # vs) m =
     (if m (handle v) \<noteq> None then Inl (Duplicate_handle (handle v))
      else insert_handles (Suc i) vs (m(handle v \<mapsto> i)))"

text \<open>The virtual hosts a listener without a list serves.\<close>

definition implicit_indices :: "('x, 'net) vhost_config list \<Rightarrow> nat list" where
  "implicit_indices vs = map fst (filter (\<lambda>(_, v). \<not> vc_explicit_only v) (List.enumerate 0 vs))"

definition effective_indices ::
  "('x, 'net) vhost_config list \<Rightarrow> (string \<rightharpoonup> nat) \<Rightarrow> listener_config \<Rightarrow> validate_error + nat list" where
  "effective_indices vs by l =
     (if li_vhosts l = [] then Inr (implicit_indices vs)
      else collect_result (\<lambda>h. option_or (Unknown_vhost h) (by h)) (li_vhosts l))"

fun check_hosts :: "vhost_name list \<Rightarrow> string set \<Rightarrow> validate_error + unit" where
  "check_hosts [] seen = Inr ()"
| "check_hosts (n # ns) seen =
     (if vn_regex n then check_hosts ns seen
      else if vn_value n \<in> seen then Inl (Host_served_twice (vn_value n))
      else check_hosts ns (insert (vn_value n) seen))"

fun check_listeners ::
  "('x, 'net) vhost_config list \<Rightarrow> (string \<rightharpoonup> nat) \<Rightarrow> listener_config list \<Rightarrow> validate_error + unit" where
  "check_listeners vs by [] = Inr ()"
| "check_listeners vs by (l # ls) =
     (if li_proxy l then check_listeners vs by ls
      else bind_result (effective_indices vs by l) (\<lambda>is.
             bind_result (check_hosts (concat (map (\<lambda>i. all_names (vs ! i)) is)) {}) (\<lambda>_.
               check_listeners vs by ls)))"

definition validate_vhosts ::
  "'re regex_ops \<Rightarrow> ('x, 'net) vhost_config list \<Rightarrow> listener_config list \<Rightarrow> validate_error + unit" where
  "validate_vhosts R vs ls =
     bind_result (check_regexes R (concat (map all_names vs))) (\<lambda>_.
       bind_result (insert_handles 0 vs Map.empty) (\<lambda>by. check_listeners vs by ls))"

section \<open>The tables\<close>

record 're vhost_table =
  tb_literals :: "(string \<times> nat) list"
  tb_patterns :: "('re \<times> nat) list"
  tb_default :: "nat option"

definition default_table :: "'re vhost_table" where
  "default_table = \<lparr>tb_literals = [], tb_patterns = [], tb_default = None\<rparr>"

record ('hd, 'net, 're) router =
  rt_built :: "('hd, 'net, 're) vhost list"
  rt_tables :: "(string \<times> 're vhost_table) list"
  rt_named_policies :: "'net resolved"
  rt_pools :: "(string \<times> upstream_pool) list"

text \<open>Why \<open>Router::new\<close> does not return a router: an error, or the panic of the \<open>expect\<close>.\<close>

datatype 'he new_error = Build_error "'he router_error" | Regex_panic string

definition by_handle :: "('x, 'net) vhost_config list \<Rightarrow> string \<rightharpoonup> nat" where
  "by_handle vs = foldl (\<lambda>m (i, v). m(handle v \<mapsto> i)) Map.empty (List.enumerate 0 vs)"

definition listener_indices :: "('x, 'net) vhost_config list \<Rightarrow> listener_config \<Rightarrow> nat list" where
  "listener_indices vs l =
     (if li_vhosts l = [] then implicit_indices vs else List.map_filter (by_handle vs) (li_vhosts l))"

definition anchored :: "string \<Rightarrow> string" where
  "anchored p = ''^(?:'' @ p @ '')$''"

definition add_name ::
  "'re regex_ops \<Rightarrow> nat \<Rightarrow> vhost_name \<Rightarrow> 're vhost_table \<Rightarrow> 'he new_error + 're vhost_table" where
  "add_name R v n t =
     (if vn_regex n
      then (case re_new R (anchored (vn_value n)) of
              None \<Rightarrow> Inl (Regex_panic (vn_value n))
            | Some re \<Rightarrow> Inr (t\<lparr>tb_patterns := tb_patterns t @ [(re, v)]\<rparr>))
      else Inr (t\<lparr>tb_literals := AList.update (vn_value n) v (tb_literals t)\<rparr>))"

fun add_names ::
  "'re regex_ops \<Rightarrow> (nat \<times> vhost_name) list \<Rightarrow> 're vhost_table \<Rightarrow> 'he new_error + 're vhost_table" where
  "add_names R [] t = Inr t"
| "add_names R ((v, n) # ns) t = bind_result (add_name R v n t) (add_names R ns)"

text \<open>The names of the listed hosts in the order of the two nested loops.\<close>

definition listed_names :: "('x, 'net) vhost_config list \<Rightarrow> nat list \<Rightarrow> (nat \<times> vhost_name) list" where
  "listed_names vs is = concat (map (\<lambda>i. map (Pair i) (all_names (vs ! i))) is)"

definition default_index :: "listener_config \<Rightarrow> nat list \<Rightarrow> nat option" where
  "default_index l is = (if li_reject_unknown_host l then None else case is of [] \<Rightarrow> None | i # _ \<Rightarrow> Some i)"

definition listener_table ::
  "'re regex_ops \<Rightarrow> ('x, 'net) vhost_config list \<Rightarrow> listener_config \<Rightarrow> 'he new_error + 're vhost_table" where
  "listener_table R vs l =
     bind_result (add_names R (listed_names vs (listener_indices vs l)) default_table)
       (\<lambda>t. Inr (t\<lparr>tb_default := default_index l (listener_indices vs l)\<rparr>))"

fun build_tables ::
  "'re regex_ops \<Rightarrow> ('x, 'net) vhost_config list \<Rightarrow> listener_config list \<Rightarrow> (string \<times> 're vhost_table) list \<Rightarrow>
   'he new_error + (string \<times> 're vhost_table) list" where
  "build_tables R vs [] tabs = Inr tabs"
| "build_tables R vs (l # ls) tabs =
     (if li_proxy l then build_tables R vs ls tabs
      else bind_result (listener_table R vs l) (\<lambda>t. build_tables R vs ls (AList.update (li_name l) t tabs)))"

fun build_vhosts ::
  "(('x, 'net) vhost_config \<Rightarrow> ('he router_error + ('v \<times> (string \<times> upstream_pool) list)) option) \<Rightarrow>
   ('x, 'net) vhost_config list \<Rightarrow> ('he router_error + ('v list \<times> (string \<times> upstream_pool) list)) option" where
  "build_vhosts b [] = Some (Inr ([], []))"
| "build_vhosts b (v # vs) =
     (case b v of
        None \<Rightarrow> None
      | Some (Inl e) \<Rightarrow> Some (Inl e)
      | Some (Inr (vh, ps)) \<Rightarrow>
          map_option (\<lambda>r. bind_result r (\<lambda>(vhs, pss). Inr (vh # vhs, ps @ pss))) (build_vhosts b vs))"

definition new_router ::
  "'h header_ops \<Rightarrow> 'u uri_ops \<Rightarrow> 're regex_ops \<Rightarrow> ('x, 'hd, 're, 'he) handler_builder \<Rightarrow>
   ('x, 'net) server_config \<Rightarrow> ('he new_error + ('hd, 'net, 're) router) option" where
  "new_router H U R bh cfg =
     (case build_layered H R [sc_variables cfg] of
        None \<Rightarrow> None
      | Some (Inl e) \<Rightarrow> Some (Inl (Build_error (Variable_error e)))
      | Some (Inr T) \<Rightarrow>
     (case resolve_named_policies (sc_policies cfg) (sc_policy_keys cfg) of
        None \<Rightarrow> None
      | Some (Inl e) \<Rightarrow> Some (Inl (Build_error (Policy_failed e)))
      | Some (Inr named) \<Rightarrow>
     (case build_vhosts (build_vhost H U R bh named T (sc_variables cfg) (sc_log_fields cfg)) (sc_vhosts cfg) of
        None \<Rightarrow> None
      | Some (Inl e) \<Rightarrow> Some (Inl (Build_error e))
      | Some (Inr (built, pools)) \<Rightarrow>
          Some (bind_result (build_tables R (sc_vhosts cfg) (sc_listeners cfg) []) (\<lambda>tables.
            Inr \<lparr>rt_built = built, rt_tables = tables, rt_named_policies = named, rt_pools = pools\<rparr>)))))"

section \<open>Routing\<close>

definition strip_port :: "string \<Rightarrow> string" where
  "strip_port host =
     (if starts_with host ''['' \<and> CHR '']'' \<in> set host then takeWhile (\<lambda>c. c \<noteq> CHR '']'') host @ '']''
      else hd (split_on CHR '':'' host))"

definition listener_lookup :: "('hd, 'net, 're) router \<Rightarrow> string \<Rightarrow> 're vhost_table option" where
  "listener_lookup r bind =
     (case map_of (rt_tables r) bind of
        Some t \<Rightarrow> Some t
      | None \<Rightarrow> (case rt_tables r of [(_, t)] \<Rightarrow> Some t | _ \<Rightarrow> None))"

definition resolve_vhost ::
  "'re regex_ops \<Rightarrow> ('hd, 'net, 're) router \<Rightarrow> string option \<Rightarrow> string \<Rightarrow> nat option" where
  "resolve_vhost R r host bind =
     (case listener_lookup r bind of
        None \<Rightarrow> None
      | Some t \<Rightarrow>
          (case host of
             None \<Rightarrow> tb_default t
           | Some h \<Rightarrow>
               (case map_of (tb_literals t) h of
                  Some v \<Rightarrow> Some v
                | None \<Rightarrow>
                    (case find (\<lambda>(re, _). re_is_match R re h) (tb_patterns t) of
                       Some (_, v) \<Rightarrow> Some v
                     | None \<Rightarrow> tb_default t))))"

definition loc_accepts ::
  "'h header_ops \<Rightarrow> 'u uri_ops \<Rightarrow> 're regex_ops \<Rightarrow> ('h, 'u) routed_request \<Rightarrow> ('hd, 'net, 're) location \<Rightarrow> bool" where
  "loc_accepts H U R req loc =
     (case loc_matcher loc of None \<Rightarrow> True | Some m \<Rightarrow> preds_match H U R req m)"

text \<open>The order of the candidates: longer prefixes first, then the position.\<close>

definition pick_order :: "nat \<times> ('hd, 'net, 're) location \<Rightarrow> int \<times> int" where
  "pick_order c = (- int (length (loc_path (snd c))), int (fst c))"

definition pick_location ::
  "'h header_ops \<Rightarrow> 'u uri_ops \<Rightarrow> 're regex_ops \<Rightarrow> ('hd, 'net, 're) vhost \<Rightarrow> ('h, 'u) routed_request \<Rightarrow>
   ('hd, 'net, 're) location option" where
  "pick_location H U R vh req =
     (let path = uri_path U (rr_uri req);
          candidates = filter (\<lambda>(_, loc). starts_with path (loc_path loc)) (List.enumerate 0 (vh_locations vh))
      in map_option snd (find (\<lambda>(_, loc). loc_accepts H U R req loc) (sort_key pick_order candidates)))"

definition apply_rewrite ::
  "'u uri_ops \<Rightarrow> 're regex_ops \<Rightarrow> 're rewrite \<Rightarrow> ('h, 'u) routed_request \<Rightarrow> bool \<times> ('h, 'u) routed_request" where
  "apply_rewrite U R rw req =
     (let path = uri_path U (rr_uri req) in
      if \<not> re_is_match R (rw_from rw) path then (False, req)
      else
        let replaced = re_replace R (rw_from rw) path (rw_to rw);
            (new_path, new_query) =
              (case split_once CHR ''?'' replaced of Some (p, q) \<Rightarrow> (p, Some q) | None \<Rightarrow> (replaced, None));
            new_path = (if new_path = [] then ''/'' else new_path);
            new_pq = (case new_query of Some q \<Rightarrow> new_path @ ''?'' @ q | None \<Rightarrow> new_path)
        in (case uri_set_pq U (rr_uri req) new_pq of
              Some u \<Rightarrow> (True, req\<lparr>rr_uri := u\<rparr>)
            | None \<Rightarrow> (False, req)))"

record ('hd, 'net, 're) route =
  ro_handler :: 'hd
  ro_matched_prefix :: string
  ro_vhost_name :: string
  ro_handler_kind :: handler_kind
  ro_policy :: "'net policy_block option"
  ro_auth_realm :: "string option"
  ro_header_rules :: "header_rules option"
  ro_rate_limits :: "rate_limit_rule list"
  ro_max_request_body :: "nat option"
  ro_cache_policy :: "cache_policy option"
  ro_vars :: "('re var_table \<times> var_needs) option"
  ro_log_fields :: "(string \<times> template) list option"

definition route_of :: "('hd, 'net, 're) vhost \<Rightarrow> ('hd, 'net, 're) location \<Rightarrow> ('hd, 'net, 're) route" where
  "route_of vh loc =
     \<lparr>ro_handler = loc_handler loc, ro_matched_prefix = loc_path loc, ro_vhost_name = vh_name vh,
      ro_handler_kind = loc_kind loc, ro_policy = loc_policy loc, ro_auth_realm = loc_auth_realm loc,
      ro_header_rules = loc_header_rules loc, ro_rate_limits = loc_rate_limits loc,
      ro_max_request_body = loc_max_request_body loc, ro_cache_policy = loc_cache loc,
      ro_vars = loc_vars loc, ro_log_fields = loc_log_fields loc\<rparr>"

definition MAX_REWRITES :: nat where
  "MAX_REWRITES = 10"

text \<open>The rewrite loop with the number of turns left; the request is modified in place.\<close>

fun rewrite_loop ::
  "nat \<Rightarrow> 'h header_ops \<Rightarrow> 'u uri_ops \<Rightarrow> 're regex_ops \<Rightarrow> ('hd, 'net, 're) vhost \<Rightarrow> ('h, 'u) routed_request \<Rightarrow>
   ('hd, 'net, 're) route option \<times> ('h, 'u) routed_request" where
  "rewrite_loop 0 H U R vh req = (None, req)"
| "rewrite_loop (Suc k) H U R vh req =
     (case pick_location H U R vh req of
        None \<Rightarrow> (None, req)
      | Some loc \<Rightarrow>
          (case loc_rewrite loc of
             None \<Rightarrow> (Some (route_of vh loc), req)
           | Some rw \<Rightarrow>
               (case apply_rewrite U R rw req of
                  (True, req') \<Rightarrow> rewrite_loop k H U R vh req'
                | (False, req') \<Rightarrow> (Some (route_of vh loc), req'))))"

definition route_request ::
  "'h header_ops \<Rightarrow> 'u uri_ops \<Rightarrow> 're regex_ops \<Rightarrow> ('hd, 'net, 're) router \<Rightarrow> string \<Rightarrow> ('h, 'u) routed_request \<Rightarrow>
   ('hd, 'net, 're) route option \<times> ('h, 'u) routed_request" where
  "route_request H U R r bind req =
     (let host = map_option strip_port (hm_get_str H (rr_headers req) ''host'') in
      case resolve_vhost R r host bind of
        None \<Rightarrow> (None, req)
      | Some v \<Rightarrow> rewrite_loop MAX_REWRITES H U R (rt_built r ! v) req)"

section \<open>What the background tasks sweep\<close>

definition table_vhosts :: "'re vhost_table \<Rightarrow> nat list" where
  "table_vhosts t = map snd (tb_literals t) @ map snd (tb_patterns t) @ (case tb_default t of None \<Rightarrow> [] | Some v \<Rightarrow> [v])"

text \<open>A rate-limit rule is allocated per location: its identity is where it stands.\<close>

type_synonym rule_id = "nat \<times> nat \<times> nat"

definition rule_ids :: "('hd, 'net, 're) vhost list \<Rightarrow> nat \<Rightarrow> rule_id list" where
  "rule_ids built v =
     concat (map (\<lambda>(j, loc). map (\<lambda>k. (v, j, k)) [0..<length (loc_rate_limits loc)])
       (List.enumerate 0 (vh_locations (built ! v))))"

definition push_rule :: "rule_id set \<times> rule_id list \<Rightarrow> rule_id \<Rightarrow> rule_id set \<times> rule_id list" where
  "push_rule st i = (if i \<in> fst st then st else (insert i (fst st), snd st @ [i]))"

fun push_vhosts ::
  "('hd, 'net, 're) vhost list \<Rightarrow> nat list \<Rightarrow> nat set \<Rightarrow> rule_id set \<times> rule_id list \<Rightarrow> rule_id list" where
  "push_vhosts built [] seen st = snd st"
| "push_vhosts built (v # vs) seen st =
     (if v \<in> seen then push_vhosts built vs seen st
      else push_vhosts built vs (insert v seen) (foldl push_rule st (rule_ids built v)))"

definition all_rate_limit_rules :: "('hd, 'net, 're) router \<Rightarrow> rule_id list" where
  "all_rate_limit_rules r =
     push_vhosts (rt_built r) (concat (map (\<lambda>(_, t). table_vhosts t) (rt_tables r))) {} ({}, [])"

definition any_cache_enabled :: "('hd, 'net, 're) router \<Rightarrow> bool" where
  "any_cache_enabled r =
     list_ex (\<lambda>(_, t). list_ex (\<lambda>v. list_ex (\<lambda>loc. loc_cache loc \<noteq> None) (vh_locations (rt_built r ! v)))
       (table_vhosts t)) (rt_tables r)"

section \<open>The chosen location\<close>

lemma find_sorted:
  assumes "find P (sort_key k xs) = Some x"
  shows "x \<in> set xs" "P x" "\<And>y. y \<in> set xs \<Longrightarrow> P y \<Longrightarrow> k x \<le> k y"
proof -
  obtain as bs where s: "sort_key k xs = as @ x # bs" "P x" "\<forall>y \<in> set as. \<not> P y"
    using assms unfolding find_Some_split by blast
  have "x \<in> set (sort_key k xs)" using s(1) by simp
  then show "x \<in> set xs" by simp
  show "P x" using s(2) .
  have sorted: "sorted (map k (as @ x # bs))" using sorted_sort_key[of k xs] s(1) by simp
  show "k x \<le> k y" if y: "y \<in> set xs" "P y" for y
  proof -
    have "y \<in> set (as @ x # bs)" using y(1) s(1) by (metis set_sort)
    then have "y = x \<or> y \<in> set bs" using y(2) s(3) by auto
    then show ?thesis using sorted by (auto simp: sorted_append)
  qed
qed

lemma find_sort_None: "find P (sort_key k xs) = None \<longleftrightarrow> (\<forall>x \<in> set xs. \<not> P x)"
  by (auto simp: find_None_iff)

text \<open>Location \<open>j\<close> of a virtual host can serve the request.\<close>

definition candidate ::
  "'h header_ops \<Rightarrow> 'u uri_ops \<Rightarrow> 're regex_ops \<Rightarrow> ('hd, 'net, 're) vhost \<Rightarrow> ('h, 'u) routed_request \<Rightarrow> nat \<Rightarrow> bool" where
  "candidate H U R vh req j \<longleftrightarrow>
     j < length (vh_locations vh) \<and> starts_with (uri_path U (rr_uri req)) (loc_path (vh_locations vh ! j))
     \<and> loc_accepts H U R req (vh_locations vh ! j)"

lemma enumerate_member: "c \<in> set (List.enumerate 0 xs) \<longleftrightarrow> fst c < length xs \<and> snd c = xs ! fst c"
  by (cases c) (auto simp: in_set_enumerate_eq)

definition best_location ::
  "'h header_ops \<Rightarrow> 'u uri_ops \<Rightarrow> 're regex_ops \<Rightarrow> ('hd, 'net, 're) vhost \<Rightarrow> ('h, 'u) routed_request \<Rightarrow> nat \<Rightarrow> bool" where
  "best_location H U R vh req j \<longleftrightarrow>
     candidate H U R vh req j \<and>
     (\<forall>i. candidate H U R vh req i \<longrightarrow>
        length (loc_path (vh_locations vh ! i)) < length (loc_path (vh_locations vh ! j))
        \<or> (length (loc_path (vh_locations vh ! i)) = length (loc_path (vh_locations vh ! j)) \<and> j \<le> i))"

lemma best_location_unique: "best_location H U R vh req i \<Longrightarrow> best_location H U R vh req j \<Longrightarrow> i = j"
  unfolding best_location_def by (metis le_antisym less_asym less_irrefl)

lemma pick_best:
  assumes "pick_location H U R vh req = Some l"
  shows "\<exists>j. best_location H U R vh req j \<and> l = vh_locations vh ! j"
proof -
  let ?cs = "filter (\<lambda>(_, loc). starts_with (uri_path U (rr_uri req)) (loc_path loc)) (List.enumerate 0 (vh_locations vh))"
  obtain c where c: "find (\<lambda>(_, loc). loc_accepts H U R req loc) (sort_key pick_order ?cs) = Some c" "l = snd c"
    using assms by (auto simp: pick_location_def Let_def)
  have f: "candidate H U R vh req (fst c)" "l = vh_locations vh ! fst c"
    using find_sorted(1,2)[OF c(1)] c(2) by (auto simp: candidate_def enumerate_member split: prod.splits)
  have "pick_order c \<le> pick_order (i, vh_locations vh ! i)" if "candidate H U R vh req i" for i
    using that by (intro find_sorted(3)[OF c(1)]) (auto simp: candidate_def enumerate_member)
  then have "best_location H U R vh req (fst c)"
    unfolding best_location_def using f c(2) by (fastforce simp: pick_order_def less_eq_prod_simp)
  then show ?thesis using f by blast
qed

lemma pick_none: "pick_location H U R vh req = None \<longleftrightarrow> (\<forall>j. \<not> candidate H U R vh req j)"
proof
  assume n: "pick_location H U R vh req = None"
  show "\<forall>j. \<not> candidate H U R vh req j"
  proof (intro allI notI)
    fix j assume "candidate H U R vh req j"
    then show False
      using n by (auto simp: pick_location_def Let_def find_sort_None candidate_def enumerate_member)
  qed
next
  assume "\<forall>j. \<not> candidate H U R vh req j"
  then show "pick_location H U R vh req = None"
    by (auto simp: pick_location_def Let_def find_sort_None candidate_def enumerate_member)
qed

section \<open>The rewrite loop\<close>

text \<open>One rewrite: the location chosen for the request rewrites it to the next one.\<close>

definition hop ::
  "'h header_ops \<Rightarrow> 'u uri_ops \<Rightarrow> 're regex_ops \<Rightarrow> ('hd, 'net, 're) vhost \<Rightarrow> ('h, 'u) routed_request \<Rightarrow>
   ('h, 'u) routed_request \<Rightarrow> bool" where
  "hop H U R vh req req' \<longleftrightarrow>
     (\<exists>loc rw. pick_location H U R vh req = Some loc \<and> loc_rewrite loc = Some rw
        \<and> apply_rewrite U R rw req = (True, req'))"

definition settled ::
  "'h header_ops \<Rightarrow> 'u uri_ops \<Rightarrow> 're regex_ops \<Rightarrow> ('hd, 'net, 're) vhost \<Rightarrow> ('h, 'u) routed_request \<Rightarrow>
   ('hd, 'net, 're) location \<Rightarrow> bool" where
  "settled H U R vh req loc \<longleftrightarrow>
     pick_location H U R vh req = Some loc \<and> (\<forall>rw. loc_rewrite loc = Some rw \<longrightarrow> \<not> fst (apply_rewrite U R rw req))"

lemma apply_rewrite_false: "apply_rewrite U R rw req = (False, req') \<Longrightarrow> req' = req"
  by (auto simp: apply_rewrite_def Let_def split: if_splits prod.splits option.splits)

lemma apply_rewrite_frame:
  "apply_rewrite U R rw req = (b, req') \<Longrightarrow> rr_method req' = rr_method req \<and> rr_headers req' = rr_headers req"
  by (auto simp: apply_rewrite_def Let_def split: if_splits prod.splits option.splits)

lemma hop_unique: "hop H U R vh req a \<Longrightarrow> hop H U R vh req b \<Longrightarrow> a = b"
  by (auto simp: hop_def)

lemma settled_no_hop: "settled H U R vh req loc \<Longrightarrow> \<not> hop H U R vh req req'"
  by (auto simp: settled_def hop_def)

lemma rewrite_loop_cases:
  "pick_location H U R vh req = None \<Longrightarrow> rewrite_loop (Suc k) H U R vh req = (None, req)"
  "settled H U R vh req loc \<Longrightarrow> rewrite_loop (Suc k) H U R vh req = (Some (route_of vh loc), req)"
  "hop H U R vh req req' \<Longrightarrow> rewrite_loop (Suc k) H U R vh req = rewrite_loop k H U R vh req'"
  by (auto simp: settled_def hop_def dest: apply_rewrite_false split: option.splits prod.splits bool.splits)

lemma turn_cases:
  obtains (none) "pick_location H U R vh req = None"
  | (settled) loc where "settled H U R vh req loc"
  | (hop) req' where "hop H U R vh req req'"
proof (cases "pick_location H U R vh req")
  case (Some loc)
  show thesis
  proof (cases "\<exists>rw. loc_rewrite loc = Some rw \<and> fst (apply_rewrite U R rw req)")
    case True
    then obtain rw where "loc_rewrite loc = Some rw" "fst (apply_rewrite U R rw req)" by blast
    then have "hop H U R vh req (snd (apply_rewrite U R rw req))"
      using Some by (auto simp: hop_def intro!: exI[of _ rw] prod_eqI)
    then show thesis by (rule that(3))
  next
    case False
    then show thesis using that(2) Some by (auto simp: settled_def)
  qed
qed (rule that(1))

lemma hop_shift:
  assumes "hop H U R vh req q" "\<And>loc. \<not> P req loc"
  shows "(\<exists>n < k. \<exists>req' loc. (hop H U R vh ^^ n) q req' \<and> P req' loc) \<longleftrightarrow>
    (\<exists>n < Suc k. \<exists>req' loc. (hop H U R vh ^^ n) req req' \<and> P req' loc)" (is "?l \<longleftrightarrow> ?r")
proof
  have sh: "(hop H U R vh ^^ Suc n) req req' \<longleftrightarrow> (hop H U R vh ^^ n) q req'" for n req'
    using assms(1) hop_unique by (metis relpowp_Suc_D2 relpowp_Suc_I2)
  show ?r if ?l
  proof -
    from that obtain n req' loc where "n < k" "(hop H U R vh ^^ n) q req'" "P req' loc" by blast
    then show ?r using sh[of n req'] by (intro exI[of _ "Suc n"]) blast
  qed
  show ?l if ?r
  proof -
    from that obtain n req' loc where n: "n < Suc k" "(hop H U R vh ^^ n) req req'" "P req' loc" by blast
    then obtain m where "n = Suc m" using assms(2) by (cases n) auto
    then show ?l using n sh[of m req'] by (intro exI[of _ m]) blast
  qed
qed

lemma rewrite_loop_settles:
  "fst (rewrite_loop k H U R vh req) = Some ro \<longleftrightarrow>
     (\<exists>n req' loc. n < k \<and> (hop H U R vh ^^ n) req req' \<and> settled H U R vh req' loc \<and> ro = route_of vh loc
        \<and> snd (rewrite_loop k H U R vh req) = req')"
proof (induction k arbitrary: req)
  case (Suc k)
  show ?case
  proof (cases rule: turn_cases[of H U R vh req])
    case none
    have "\<not> ((hop H U R vh ^^ n) req req' \<and> settled H U R vh req' loc)" for n req' loc
      using none relpowp_Suc_D2[of "n - 1" "hop H U R vh" req req'] by (cases n) (auto simp: settled_def hop_def)
    then show ?thesis using rewrite_loop_cases(1)[OF none] by auto
  next
    case (settled loc)
    have "(hop H U R vh ^^ n) req req' \<longleftrightarrow> n = 0 \<and> req' = req" for n req'
      using settled_no_hop[OF settled] relpowp_Suc_D2[of "n - 1" "hop H U R vh" req req'] by (cases n) auto
    moreover have "settled H U R vh req l \<longleftrightarrow> l = loc" for l using settled by (auto simp: settled_def)
    ultimately show ?thesis using rewrite_loop_cases(2)[OF settled] by auto
  next
    case (hop q)
    have ns: "\<not> settled H U R vh req loc" for loc using hop settled_no_hop by blast
    from hop_shift[OF hop, of "\<lambda>req' loc. settled H U R vh req' loc \<and> ro = route_of vh loc \<and> snd (rewrite_loop k H U R vh q) = req'"
        k]
    show ?thesis unfolding rewrite_loop_cases(3)[OF hop] Suc.IH[of q] using ns by simp
  qed
qed simp

lemma rewrite_loop_unique:
  "(hop H U R vh ^^ n) req req' \<Longrightarrow> settled H U R vh req' loc \<Longrightarrow> n < k \<Longrightarrow>
     rewrite_loop k H U R vh req = (Some (route_of vh loc), req')"
proof (induction n arbitrary: k req)
  case 0
  then obtain k' where "k = Suc k'" by (cases k) auto
  with 0 show ?case using rewrite_loop_cases(2) by fastforce
next
  case (Suc n)
  then obtain k' where k: "k = Suc k'" by (cases k) auto
  obtain q where q: "hop H U R vh req q" "(hop H U R vh ^^ n) q req'" using relpowp_Suc_D2[OF Suc.prems(1)] by blast
  from Suc.IH[OF q(2) Suc.prems(2)] Suc.prems(3) k rewrite_loop_cases(3)[OF q(1), of k'] show ?case by simp
qed

lemma rewrite_loop_frame:
  "rr_method (snd (rewrite_loop k H U R vh req)) = rr_method req
   \<and> rr_headers (snd (rewrite_loop k H U R vh req)) = rr_headers req"
proof (induction k arbitrary: req)
  case (Suc k)
  show ?case
  proof (cases rule: turn_cases[of H U R vh req])
    case none
    show ?thesis unfolding rewrite_loop_cases(1)[OF none] by simp
  next
    case (settled loc)
    show ?thesis unfolding rewrite_loop_cases(2)[OF settled] by simp
  next
    case (hop q)
    then obtain rw where "apply_rewrite U R rw req = (True, q)" by (auto simp: hop_def)
    from apply_rewrite_frame[OF this] Suc.IH[of q] show ?thesis unfolding rewrite_loop_cases(3)[OF hop] by simp
  qed
qed simp

section \<open>The tables serve what the configuration says\<close>

text \<open>The literal host names of a list of names, in order.\<close>

abbreviation literal_names :: "(nat \<times> vhost_name) list \<Rightarrow> (string \<times> nat) list" where
  "literal_names ns \<equiv> map (\<lambda>(v, n). (vn_value n, v)) (filter (\<lambda>(_, n). \<not> vn_regex n) ns)"

abbreviation regex_names :: "(nat \<times> vhost_name) list \<Rightarrow> (string \<times> nat) list" where
  "regex_names ns \<equiv> map (\<lambda>(v, n). (vn_value n, v)) (filter (\<lambda>(_, n). vn_regex n) ns)"

lemma add_name_table:
  assumes "add_name R v n t = (Inr t' :: 'he new_error + _)"
  shows "if vn_regex n
    then (\<exists>re. re_new R (anchored (vn_value n)) = Some re \<and> t' = t\<lparr>tb_patterns := tb_patterns t @ [(re, v)]\<rparr>)
    else t' = t\<lparr>tb_literals := AList.update (vn_value n) v (tb_literals t)\<rparr>"
  using assms by (auto simp: add_name_def split: option.splits)

lemma add_names_Cons:
  assumes "add_names R ((v, n) # ns) t = (Inr t' :: 'he new_error + _)"
  obtains t1 where "add_name R v n t = (Inr t1 :: 'he new_error + _)" "add_names R ns t1 = (Inr t' :: 'he new_error + _)"
  using assms by (auto simp: res_simps)

lemma add_names_literals:
  assumes "add_names R ns t = (Inr t' :: 'he new_error + _)"
  shows "map_of (tb_literals t') = map_of (tb_literals t) ++ map_of (rev (literal_names ns))"
  using assms
proof (induction ns arbitrary: t)
  case (Cons a ns)
  obtain v n where a: "a = (v, n)" by (cases a)
  obtain t1 where t1: "add_name R v n t = (Inr t1 :: 'he new_error + _)" "add_names R ns t1 = (Inr t' :: 'he new_error + _)"
    using add_names_Cons[OF Cons.prems[unfolded a]] .
  show ?case
  proof (cases "vn_regex n")
    case True
    then have "tb_literals t1 = tb_literals t" using add_name_table[OF t1(1)] by auto
    then show ?thesis using Cons.IH[OF t1(2)] a True by simp
  next
    case False
    then have "tb_literals t1 = AList.update (vn_value n) v (tb_literals t)" using add_name_table[OF t1(1)] by simp
    then show ?thesis
      using Cons.IH[OF t1(2)] a False by (auto simp: update_conv' map_add_def fun_eq_iff split: option.splits)
  qed
qed simp

definition compiled_as :: "'re regex_ops \<Rightarrow> 're \<times> nat \<Rightarrow> string \<times> nat \<Rightarrow> bool" where
  "compiled_as R c p \<longleftrightarrow> snd c = snd p \<and> re_new R (anchored (fst p)) = Some (fst c)"

lemma compiled_as_pair [simp]: "compiled_as R (re, v) (p, w) \<longleftrightarrow> v = w \<and> re_new R (anchored p) = Some re"
  by (simp add: compiled_as_def)

lemma add_names_patterns:
  assumes "add_names R ns t = (Inr t' :: 'he new_error + _)"
  shows "\<exists>ps. tb_patterns t' = tb_patterns t @ ps \<and> list_all2 (compiled_as R) ps (regex_names ns)"
  using assms
proof (induction ns arbitrary: t)
  case (Cons a ns)
  obtain v n where a: "a = (v, n)" by (cases a)
  obtain t1 where t1: "add_name R v n t = (Inr t1 :: 'he new_error + _)" "add_names R ns t1 = (Inr t' :: 'he new_error + _)"
    using add_names_Cons[OF Cons.prems[unfolded a]] .
  obtain ps where ps: "tb_patterns t' = tb_patterns t1 @ ps" "list_all2 (compiled_as R) ps (regex_names ns)"
    using Cons.IH[OF t1(2)] by blast
  show ?case
  proof (cases "vn_regex n")
    case True
    then obtain re where "re_new R (anchored (vn_value n)) = Some re" "tb_patterns t1 = tb_patterns t @ [(re, v)]"
      using add_name_table[OF t1(1)] by auto
    then show ?thesis using ps a True by (intro exI[of _ "(re, v) # ps"]) simp
  next
    case False
    then have "tb_patterns t1 = tb_patterns t" using add_name_table[OF t1(1)] by simp
    then show ?thesis using ps a False by auto
  qed
qed simp

lemma build_tables_lookup:
  assumes "build_tables R vs ls tabs = (Inr tabs' :: 'he new_error + _)"
    "l \<in> set ls" "\<not> li_proxy l" "distinct (map li_name (filter (\<lambda>l. \<not> li_proxy l) ls))"
  shows "\<exists>t. map_of tabs' (li_name l) = Some t \<and> listener_table R vs l = (Inr t :: 'he new_error + _)"
proof -
  have keep: "map_of tabs' b = map_of tabs b"
    if "build_tables R vs ls tabs = (Inr tabs' :: 'he new_error + _)" "\<forall>l \<in> set ls. \<not> li_proxy l \<longrightarrow> li_name l \<noteq> b" for ls tabs b
    using that by (induction ls arbitrary: tabs) (auto simp: res_simps update_conv' split: if_splits)
  show ?thesis
    using assms
  proof (induction ls arbitrary: tabs)
    case (Cons m ls)
    show ?case
    proof (cases "m = l")
      case True
      then obtain t where t: "listener_table R vs l = (Inr t :: 'he new_error + _)"
        "build_tables R vs ls (AList.update (li_name l) t tabs) = (Inr tabs' :: 'he new_error + _)"
        using Cons.prems by (auto simp: res_simps)
      moreover have "\<forall>l' \<in> set ls. \<not> li_proxy l' \<longrightarrow> li_name l' \<noteq> li_name l"
        using Cons.prems(3,4) True by (auto simp: image_iff)
      ultimately show ?thesis using keep[OF t(2)] by (simp add: update_conv')
    next
      case False
      then have l: "l \<in> set ls" "distinct (map li_name (filter (\<lambda>l. \<not> li_proxy l) ls))"
        using Cons.prems(2,4) by (auto split: if_splits)
      obtain tabs1 where "build_tables R vs ls tabs1 = (Inr tabs' :: 'he new_error + _)"
        using Cons.prems(1) by (auto simp: res_simps split: if_splits)
      from Cons.IH[OF this l(1) assms(3) l(2)] show ?thesis .
    qed
  qed simp
qed

text \<open>
  The virtual host a listener's configuration assigns to a host: the one with that literal name,
  else the first in the listener's order with a matching pattern, else the default.
\<close>

definition anchored_match :: "'re regex_ops \<Rightarrow> string \<Rightarrow> string \<Rightarrow> bool" where
  "anchored_match R p h = (case re_new R (anchored p) of None \<Rightarrow> False | Some re \<Rightarrow> re_is_match R re h)"

definition named_literally :: "('x, 'net) vhost_config \<Rightarrow> string \<Rightarrow> bool" where
  "named_literally v h = list_ex (\<lambda>n. \<not> vn_regex n \<and> vn_value n = h) (all_names v)"

definition named_by_pattern :: "'re regex_ops \<Rightarrow> ('x, 'net) vhost_config \<Rightarrow> string \<Rightarrow> bool" where
  "named_by_pattern R v h = list_ex (\<lambda>n. vn_regex n \<and> anchored_match R (vn_value n) h) (all_names v)"

definition configured_vhost ::
  "'re regex_ops \<Rightarrow> ('x, 'net) vhost_config list \<Rightarrow> listener_config \<Rightarrow> string option \<Rightarrow> nat option" where
  "configured_vhost R vs l host =
     (let is = listener_indices vs l in
      case host of
        None \<Rightarrow> default_index l is
      | Some h \<Rightarrow>
          (case find (\<lambda>i. named_literally (vs ! i) h) is of
             Some i \<Rightarrow> Some i
           | None \<Rightarrow>
               (case find (\<lambda>i. named_by_pattern R (vs ! i) h) is of
                  Some i \<Rightarrow> Some i
                | None \<Rightarrow> default_index l is)))"

lemma literal_names_one:
  "map_of (literal_names (map (Pair i) ns)) h = (if list_ex (\<lambda>n. \<not> vn_regex n \<and> vn_value n = h) ns then Some i else None)"
  by (induction ns) auto

lemma literal_names_lookup:
  "map_of (literal_names (listed_names vs is)) h = find (\<lambda>i. named_literally (vs ! i) h) is"
proof (induction "is")
  case (Cons i js)
  have "map_of (literal_names (listed_names vs (i # js))) h =
      (map_of (literal_names (listed_names vs js)) ++ map_of (literal_names (map (Pair i) (all_names (vs ! i))))) h"
    by (simp add: listed_names_def)
  then show ?case
    using Cons by (simp add: literal_names_one named_literally_def map_add_def)
qed (simp add: listed_names_def)

lemma regex_names_one:
  "map_option snd (find (\<lambda>(p, _). anchored_match R p h) (regex_names (map (Pair i) ns))) =
     (if list_ex (\<lambda>n. vn_regex n \<and> anchored_match R (vn_value n) h) ns then Some i else None)"
  by (induction ns) auto

lemma regex_names_lookup:
  "map_option snd (find (\<lambda>(p, _). anchored_match R p h) (regex_names (listed_names vs is)))
   = find (\<lambda>i. named_by_pattern R (vs ! i) h) is"
proof (induction "is")
  case (Cons i js)
  have "regex_names (listed_names vs (i # js)) =
      regex_names (map (Pair i) (all_names (vs ! i))) @ regex_names (listed_names vs js)"
    by (simp add: listed_names_def)
  then show ?case
    using Cons regex_names_one[of R h i "all_names (vs ! i)"]
    by (auto simp: named_by_pattern_def find_append split: option.splits if_splits)
qed (simp add: listed_names_def)

lemma compiled_find:
  "list_all2 (compiled_as R) ps qs \<Longrightarrow>
   map_option snd (find (\<lambda>(re, _). re_is_match R re h) ps) = map_option snd (find (\<lambda>(p, _). anchored_match R p h) qs)"
  by (induction rule: list_all2_induct) (auto simp: compiled_as_def anchored_match_def)

lemma listed_hosts:
  "map fst (literal_names (listed_names vs is)) =
     map vn_value (filter (\<lambda>n. \<not> vn_regex n) (concat (map (\<lambda>i. all_names (vs ! i)) is)))"
proof (induction "is")
  case (Cons i js)
  have "map fst (literal_names (map (Pair i) ns)) = map vn_value (filter (\<lambda>n. \<not> vn_regex n) ns)" for ns
    by (induction ns) auto
  then show ?case using Cons by (simp add: listed_names_def)
qed (simp add: listed_names_def)

subsection \<open>What validation gives\<close>

lemma check_hosts_distinct:
  "check_hosts ns seen = Inr () \<Longrightarrow>
     distinct (map vn_value (filter (\<lambda>n. \<not> vn_regex n) ns))
     \<and> seen \<inter> set (map vn_value (filter (\<lambda>n. \<not> vn_regex n) ns)) = {}"
proof (induction ns arbitrary: seen)
  case (Cons n ns)
  then show ?case
    using Cons.IH[of seen] Cons.IH[of "insert (vn_value n) seen"] by (auto split: if_splits)
qed simp

lemma insert_handles_ok:
  "insert_handles i vs m = Inr m' \<Longrightarrow> m' = foldl (\<lambda>m (i, v). m(handle v \<mapsto> i)) m (List.enumerate i vs)"
  by (induction i vs m rule: insert_handles.induct) (auto split: if_splits)

lemma collect_references:
  "collect_result (\<lambda>h. option_or (e h) (by h)) hs = Inr is \<Longrightarrow> is = List.map_filter by hs"
proof (induction hs arbitrary: "is")
  case (Cons h hs)
  then show ?case by (cases "by h") (auto simp: option_or_def map_filter_simps res_simps)
qed (simp add: map_filter_simps)

lemma check_listeners_hosts:
  assumes "check_listeners vs (by_handle vs) ls = Inr ()" "l \<in> set ls" "\<not> li_proxy l"
  shows "distinct (map fst (literal_names (listed_names vs (listener_indices vs l))))"
proof -
  have "\<exists>is. effective_indices vs (by_handle vs) l = Inr is \<and>
      check_hosts (concat (map (\<lambda>i. all_names (vs ! i)) is)) {} = Inr ()"
    using assms(1,2)
  proof (induction ls)
    case (Cons m ls)
    then show ?case using assms(3) by (cases "m = l") (auto simp: res_simps split: if_splits)
  qed simp
  then obtain "is" where i: "effective_indices vs (by_handle vs) l = Inr is"
    "check_hosts (concat (map (\<lambda>i. all_names (vs ! i)) is)) {} = Inr ()" by blast
  from i(1) have "is = listener_indices vs l"
    using collect_references by (auto simp: effective_indices_def listener_indices_def split: if_splits)
  then show ?thesis using check_hosts_distinct[OF i(2)] unfolding listed_hosts by simp
qed

lemma validated_hosts:
  assumes "validate_vhosts R vs ls = Inr ()" "l \<in> set ls" "\<not> li_proxy l"
  shows "distinct (map fst (literal_names (listed_names vs (listener_indices vs l))))"
proof -
  obtain m where m: "insert_handles 0 vs Map.empty = Inr m" "check_listeners vs m ls = Inr ()"
    using assms(1) by (auto simp: validate_vhosts_def res_simps)
  then show ?thesis
    using check_listeners_hosts[OF _ assms(2,3)] insert_handles_ok[OF m(1)] by (simp add: by_handle_def)
qed

lemma map_of_rev_distinct: "distinct (map fst xs) \<Longrightarrow> map_of (rev xs) = map_of xs"
  using map_of_inject_set[of "rev xs" xs] by (simp add: rev_map[symmetric])

lemma listener_table_lookup:
  assumes "listener_table R vs l = (Inr t :: 'he new_error + _)" "listener_lookup r b = Some t"
    "distinct (map fst (literal_names (listed_names vs (listener_indices vs l))))"
  shows "resolve_vhost R r host b = configured_vhost R vs l host"
proof -
  let ?ns = "listed_names vs (listener_indices vs l)"
  obtain t1 where t1: "add_names R ?ns default_table = (Inr t1 :: 'he new_error + _)"
    "t = t1\<lparr>tb_default := default_index l (listener_indices vs l)\<rparr>"
    using assms(1) by (auto simp: listener_table_def res_simps)
  have lit: "map_of (tb_literals t) h = find (\<lambda>i. named_literally (vs ! i) h) (listener_indices vs l)" for h
    using add_names_literals[OF t1(1)] t1(2) literal_names_lookup[of vs "listener_indices vs l" h]
      map_of_rev_distinct[OF assms(3)] by (simp add: default_table_def)
  obtain ps where "tb_patterns t = ps" "list_all2 (compiled_as R) ps (regex_names ?ns)"
    using add_names_patterns[OF t1(1)] t1(2) by (auto simp: default_table_def)
  then have pat: "map_option snd (find (\<lambda>(re, _). re_is_match R re h) (tb_patterns t))
      = find (\<lambda>i. named_by_pattern R (vs ! i) h) (listener_indices vs l)" for h
    using compiled_find regex_names_lookup by metis
  show ?thesis
  proof (cases host)
    case (Some h)
    then show ?thesis
      using lit[of h] pat[of h, symmetric] assms(2) t1(2)
      by (auto simp: resolve_vhost_def configured_vhost_def Let_def split: option.splits)
  qed (use assms(2) t1(2) in \<open>simp add: resolve_vhost_def configured_vhost_def Let_def\<close>)
qed

lemma new_router_tables:
  assumes "new_router H U R bh cfg = Some (Inr r :: 'he new_error + _)"
  shows "build_tables R (sc_vhosts cfg) (sc_listeners cfg) [] = (Inr (rt_tables r) :: 'he new_error + _)"
  using assms by (auto simp: new_router_def res_simps split: option.splits sum.splits prod.splits)

lemma find_snd: "find P xs = Some x \<Longrightarrow> x \<in> set xs"
  by (auto simp: find_Some_split)

lemma validated_lookup:
  assumes "new_router H U R bh cfg = Some (Inr r :: 'he new_error + _)"
    "validate_vhosts R (sc_vhosts cfg) (sc_listeners cfg) = Inr ()"
    "l \<in> set (sc_listeners cfg)" "\<not> li_proxy l"
    "distinct (map li_name (filter (\<lambda>l. \<not> li_proxy l) (sc_listeners cfg)))"
  shows "resolve_vhost R r host (li_name l) = configured_vhost R (sc_vhosts cfg) l host"
proof -
  obtain t where t: "map_of (rt_tables r) (li_name l) = Some t"
    "listener_table R (sc_vhosts cfg) l = (Inr t :: 'he new_error + _)"
    using build_tables_lookup[OF new_router_tables[OF assms(1)] assms(3-5)] by blast
  then have "listener_lookup r (li_name l) = Some t" by (simp add: listener_lookup_def)
  from listener_table_lookup[OF t(2) this validated_hosts[OF assms(2-4)]] show ?thesis .
qed

lemma by_handle_handle:
  assumes "by_handle vs h = Some i"
  shows "i < length vs \<and> handle (vs ! i) = h"
proof -
  have "foldl (\<lambda>m (i, v). m(handle v \<mapsto> i)) m (List.enumerate k vs) h = Some i \<Longrightarrow>
      m h = Some i \<or> (k \<le> i \<and> i < k + length vs \<and> handle (vs ! (i - k)) = h)" for m k
  proof (induction vs arbitrary: m k)
    case (Cons v vs)
    then show ?case
      using Cons.IH[of "m(handle v \<mapsto> k)" "Suc k"] by (auto simp: nth_Cons' split: if_splits)
  qed simp
  from this[of Map.empty 0] assms show ?thesis by (simp add: by_handle_def)
qed

lemma listener_indices_listed:
  assumes "i \<in> set (listener_indices vs l)"
  shows "i < length vs \<and> (if li_vhosts l = [] then \<not> vc_explicit_only (vs ! i) else handle (vs ! i) \<in> set (li_vhosts l))"
proof (cases "li_vhosts l = []")
  case True
  then show ?thesis using assms by (auto simp: listener_indices_def implicit_indices_def enumerate_member)
next
  case False
  then obtain h where "h \<in> set (li_vhosts l)" "by_handle vs h = Some i"
    using assms by (auto simp: listener_indices_def List.map_filter_def)
  then show ?thesis using by_handle_handle False by auto
qed

lemma configured_listed: "configured_vhost R vs l host = Some v \<Longrightarrow> v \<in> set (listener_indices vs l)"
  by (auto simp: configured_vhost_def default_index_def Let_def split: option.splits if_splits list.splits
      dest: find_snd)

section \<open>The sweep\<close>

lemma push_rules:
  assumes "distinct (snd st)" "fst st = set (snd st)"
  shows "distinct (snd (foldl push_rule st ids)) \<and> fst (foldl push_rule st ids) = set (snd (foldl push_rule st ids))
    \<and> set (snd (foldl push_rule st ids)) = set (snd st) \<union> set ids"
  using assms
proof (induction ids arbitrary: st)
  case (Cons i ids)
  have "distinct (snd (push_rule st i))" "fst (push_rule st i) = set (snd (push_rule st i))"
    "set (snd (push_rule st i)) = insert i (set (snd st))"
    using Cons.prems by (auto simp: push_rule_def)
  then show ?case using Cons.IH[of "push_rule st i"] by simp
qed simp

lemma push_vhosts_ok:
  assumes "distinct (snd st)" "fst st = set (snd st)" "\<forall>v \<in> seen. set (rule_ids built v) \<subseteq> set (snd st)"
  shows "distinct (push_vhosts built vs seen st) \<and> set (snd st) \<subseteq> set (push_vhosts built vs seen st)
    \<and> (\<forall>v \<in> set vs. set (rule_ids built v) \<subseteq> set (push_vhosts built vs seen st))"
  using assms
proof (induction vs arbitrary: seen st)
  case (Cons v vs)
  show ?case
  proof (cases "v \<in> seen")
    case True
    then show ?thesis using Cons.IH[OF Cons.prems] Cons.prems(3) by auto
  next
    case False
    let ?st = "foldl push_rule st (rule_ids built v)"
    note p = push_rules[OF Cons.prems(1,2), of "rule_ids built v"]
    then have "\<forall>w \<in> insert v seen. set (rule_ids built w) \<subseteq> set (snd ?st)" using Cons.prems(3) by auto
    with p Cons.IH[of ?st "insert v seen"] False show ?thesis by auto
  qed
qed simp

lemma resolved_in_tables:
  assumes "resolve_vhost R r host b = Some v"
  shows "\<exists>e \<in> set (rt_tables r). v \<in> set (table_vhosts (snd e))"
proof -
  obtain t where t: "listener_lookup r b = Some t" using assms by (auto simp: resolve_vhost_def split: option.splits)
  have "\<exists>e \<in> set (rt_tables r). snd e = t"
  proof (cases "map_of (rt_tables r) b")
    case None
    then show ?thesis using t by (auto simp: listener_lookup_def split: list.splits)
  next
    case (Some t')
    then show ?thesis using t map_of_SomeD[OF Some] by (auto simp: listener_lookup_def intro!: bexI[of _ "(b, t')"])
  qed
  moreover have "tb_default t = Some v \<or> (\<exists>h. map_of (tb_literals t) h = Some v)
      \<or> (\<exists>re h. find (\<lambda>(re, _). re_is_match R re h) (tb_patterns t) = Some (re, v))"
    using assms t unfolding resolve_vhost_def by (auto split: option.splits)
  then have "v \<in> set (table_vhosts t)"
  proof (elim disjE exE)
    fix h assume "map_of (tb_literals t) h = Some v"
    from map_of_SomeD[OF this] show ?thesis by (force simp: table_vhosts_def)
  next
    fix re h assume "find (\<lambda>(re, _). re_is_match R re h) (tb_patterns t) = Some (re, v)"
    from find_snd[OF this] show ?thesis by (force simp: table_vhosts_def)
  qed (simp add: table_vhosts_def)
  ultimately show ?thesis by blast
qed

section \<open>Properties\<close>

text \<open>
  C25. The location of a request is the best one: among the locations whose path is a prefix of the
  request path and whose matcher accepts the request it is the one with the longest path, the
  first declared among equals; and no location is chosen only when none can serve the request.
\<close>

theorem pick_location_best:
  "(pick_location H U R vh req = Some l \<longleftrightarrow> (\<exists>j. best_location H U R vh req j \<and> l = vh_locations vh ! j))
   \<and> (pick_location H U R vh req = None \<longleftrightarrow> (\<nexists>j. candidate H U R vh req j))"
proof (intro conjI iffI)
  assume "\<exists>j. best_location H U R vh req j \<and> l = vh_locations vh ! j"
  then obtain j where j: "best_location H U R vh req j" "l = vh_locations vh ! j" by blast
  then obtain l' where "pick_location H U R vh req = Some l'"
    using pick_none[of H U R vh req] by (auto simp: best_location_def)
  then show "pick_location H U R vh req = Some l" using pick_best best_location_unique j by metis
qed (use pick_best pick_none in blast)+


text \<open>A regex engine for names without metacharacters: an anchored name matches itself only.\<close>

definition name_regex :: "string regex_ops" where
  "name_regex = literal_regex\<lparr>re_new := Some, re_is_match := (\<lambda>p s. p = anchored s)\<rparr>"

definition sample_vhost :: "string \<Rightarrow> bool \<Rightarrow> string option \<Rightarrow> bool \<Rightarrow> (unit, nat) vhost_config" where
  "sample_vhost n regex ref only =
     \<lparr>vc_name = \<lparr>vn_value = n, vn_regex = regex\<rparr>, vc_aliases = [], vc_locations = [sample_location_config\<lparr>lc_rate_limits :=
        [\<lparr>rlc_name = ''rl'', rlc_rate = 1, rlc_burst = 2, rlc_key = CfgClientIp\<rparr>]\<rparr>],
      vc_ref_name = ref, vc_explicit_only = only, vc_variables = hd sample_layers\<rparr>"

definition sample_server :: "(unit, nat) server_config" where
  "sample_server =
     \<lparr>sc_variables = [], sc_policies = Map.empty, sc_policy_keys = [], sc_log_fields = [],
      sc_vhosts = [sample_vhost ''a.example'' False None False, sample_vhost ''a.example'' False (Some ''admin'') True,
        sample_vhost ''b.example'' True None False],
      sc_listeners = [\<lparr>li_name = ''tcp://:80'', li_proxy = False, li_vhosts = [], li_reject_unknown_host = False\<rparr>,
        \<lparr>li_name = ''tcp://:81'', li_proxy = False, li_vhosts = [''admin''], li_reject_unknown_host = True\<rparr>]\<rparr>"

definition sample_router :: "(unit, nat, string) router" where
  "sample_router =
     (case new_router list_headers plain_uri name_regex respond_builder sample_server of Some (Inr r) \<Rightarrow> r)"

lemma sample_router_built:
  "new_router list_headers plain_uri name_regex respond_builder sample_server = Some (Inr sample_router)"
proof -
  have "case new_router list_headers plain_uri name_regex respond_builder sample_server of
      Some (Inr r) \<Rightarrow> True | _ \<Rightarrow> False" by code_simp
  then show ?thesis by (auto simp: sample_router_def split: option.splits sum.splits)
qed

lemma sample_server_valid:
  "validate_vhosts name_regex (sc_vhosts sample_server) (sc_listeners sample_server) = Inr ()"
  "distinct (map li_name (filter (\<lambda>l. \<not> li_proxy l) (sc_listeners sample_server)))"
  by code_simp+

text \<open>
  C22. A validated configuration routes hosts as it reads. On every HTTP listener the tables built
  at start-up resolve a host to the one virtual host of that listener with this literal name,
  else to the first in the listener's order with a pattern that matches the whole host, else to
  the listener's first virtual host, or to none if it rejects unknown hosts. Two HTTP listeners
  are assumed not to share an address.
\<close>

theorem host_routing:
  assumes "new_router H U R bh cfg = Some (Inr r :: 'he new_error + _)"
    "validate_vhosts R (sc_vhosts cfg) (sc_listeners cfg) = Inr ()"
    "l \<in> set (sc_listeners cfg)" "\<not> li_proxy l"
    "distinct (map li_name (filter (\<lambda>l. \<not> li_proxy l) (sc_listeners cfg)))"
  shows "resolve_vhost R r host (li_name l) = configured_vhost R (sc_vhosts cfg) l host"
  using validated_lookup[OF assms] .

theorem host_routing_witness:
  "resolve_vhost name_regex sample_router (Some ''b.example'') ''tcp://:80'' = Some 2 \<and>
   resolve_vhost name_regex sample_router (Some ''a.example'') ''tcp://:81'' = Some 1 \<and>
   resolve_vhost name_regex sample_router (Some ''b.example'') ''tcp://:81'' = None"
proof -
  let ?l = "sc_listeners sample_server ! 0" and ?m = "sc_listeners sample_server ! 1"
  have l: "?l \<in> set (sc_listeners sample_server)" "\<not> li_proxy ?l" "li_name ?l = ''tcp://:80''"
    "?m \<in> set (sc_listeners sample_server)" "\<not> li_proxy ?m" "li_name ?m = ''tcp://:81''"
    by (simp_all add: sample_server_def)
  have c: "configured_vhost name_regex (sc_vhosts sample_server) ?l (Some ''b.example'') = Some 2"
    "configured_vhost name_regex (sc_vhosts sample_server) ?m (Some ''a.example'') = Some 1"
    "configured_vhost name_regex (sc_vhosts sample_server) ?m (Some ''b.example'') = None"
    by code_simp+
  show ?thesis
    using host_routing[OF sample_router_built sample_server_valid(1) l(1,2) sample_server_valid(2)]
      host_routing[OF sample_router_built sample_server_valid(1) l(4,5) sample_server_valid(2)] c
    unfolding l(3,6) by simp
qed

text \<open>
  C23. Listeners are isolated: whatever host a request names, it reaches only the virtual hosts its
  listener lists, or, on a listener without a list, only those not marked explicit-only.
\<close>

theorem listener_isolation:
  assumes "new_router H U R bh cfg = Some (Inr r :: 'he new_error + _)"
    "validate_vhosts R (sc_vhosts cfg) (sc_listeners cfg) = Inr ()"
    "l \<in> set (sc_listeners cfg)" "\<not> li_proxy l"
    "distinct (map li_name (filter (\<lambda>l. \<not> li_proxy l) (sc_listeners cfg)))"
    "resolve_vhost R r host (li_name l) = Some v"
  shows "v < length (sc_vhosts cfg) \<and>
    (if li_vhosts l = [] then \<not> vc_explicit_only (sc_vhosts cfg ! v)
     else handle (sc_vhosts cfg ! v) \<in> set (li_vhosts l))"
  using listener_indices_listed configured_listed validated_lookup[OF assms(1-5)] assms(6) by metis

theorem listener_isolation_witness:
  "resolve_vhost name_regex sample_router (Some ''a.example'') ''tcp://:80'' = Some 0 \<and>
   \<not> vc_explicit_only (sc_vhosts sample_server ! 0)"
proof -
  let ?l = "sc_listeners sample_server ! 0"
  have l: "?l \<in> set (sc_listeners sample_server)" "\<not> li_proxy ?l" "li_vhosts ?l = []"
    by (simp_all add: sample_server_def)
  have r: "resolve_vhost name_regex sample_router (Some ''a.example'') (li_name ?l) = Some 0" by code_simp
  have "li_name ?l = ''tcp://:80''" by (simp add: sample_server_def)
  with listener_isolation[OF sample_router_built sample_server_valid(1) l(1,2) sample_server_valid(2) r] l(3) r
  show ?thesis by simp
qed

text \<open>
  Whatever can be routed to is swept: every rate-limit rule of a virtual host that some request
  resolves to is in the list the eviction task sweeps, which has no rule twice; and if one of its
  locations caches, the shared store is built.
\<close>

theorem routed_is_swept:
  assumes "resolve_vhost R r host b = Some v"
  shows "set (rule_ids (rt_built r) v) \<subseteq> set (all_rate_limit_rules r) \<and> distinct (all_rate_limit_rules r)
    \<and> (list_ex (\<lambda>loc. loc_cache loc \<noteq> None) (vh_locations (rt_built r ! v)) \<longrightarrow> any_cache_enabled r)"
proof -
  obtain e where e: "e \<in> set (rt_tables r)" "v \<in> set (table_vhosts (snd e))" using resolved_in_tables[OF assms] by blast
  then have "v \<in> set (concat (map (\<lambda>(_, t). table_vhosts t) (rt_tables r)))"
    unfolding case_prod_unfold set_concat set_map by blast
  with push_vhosts_ok[of "({}, [])" "{}" "rt_built r"] have
    "set (rule_ids (rt_built r) v) \<subseteq> set (all_rate_limit_rules r)" "distinct (all_rate_limit_rules r)"
    unfolding all_rate_limit_rules_def by auto
  moreover have "any_cache_enabled r" if "list_ex (\<lambda>loc. loc_cache loc \<noteq> None) (vh_locations (rt_built r ! v))"
    using e that unfolding any_cache_enabled_def list_ex_iff case_prod_unfold by blast
  ultimately show ?thesis by blast
qed

theorem routed_is_swept_witness:
  "resolve_vhost name_regex sample_router (Some ''b.example'') ''tcp://:80'' = Some 2 \<and>
   (2, 0, 0) \<in> set (all_rate_limit_rules sample_router)"
proof -
  have v: "resolve_vhost name_regex sample_router (Some ''b.example'') ''tcp://:80'' = Some 2" by code_simp
  have "rule_ids (rt_built sample_router) 2 = [(2, 0, 0)]" by code_simp
  with v routed_is_swept[OF v] show ?thesis by simp
qed

end
