(* ===== verification/Ip_Text.thy ===== *)
theory Ip_Text
  imports Load_Balancer
begin

text \<open>
  The text form of IP addresses, as the standard library prints and parses them
  (\<open>Display\<close> and \<open>FromStr\<close> of \<open>Ipv4Addr\<close> and \<open>Ipv6Addr\<close>), with the proof that parsing inverts
  printing. The code relies on it wherever an address crosses a text protocol.

  The parsers follow the recursive descent of \<open>core::net::parser\<close>: a reader takes the text and
  returns a value with the text that is left, or fails without consuming anything.
\<close>

section \<open>Octets and segments\<close>

text \<open>A big-endian number in base \<open>B\<close>, most significant digit first.\<close>

definition be_digits :: "nat \<Rightarrow> nat \<Rightarrow> nat \<Rightarrow> nat list" where
  "be_digits B n x = map (\<lambda>i. x div B ^ i mod B) (rev [0..<n])"

definition be_value :: "nat \<Rightarrow> nat list \<Rightarrow> nat" where
  "be_value B ds = foldl (\<lambda>a d. B * a + d) 0 ds"

definition v4_from :: "nat list \<Rightarrow> 32 word" where
  "v4_from os = of_nat (be_value 256 os)"

definition v6_from :: "nat list \<Rightarrow> 128 word" where
  "v6_from gs = of_nat (be_value 65536 gs)"

definition segments :: "128 word \<Rightarrow> nat list" where
  "segments a = be_digits 65536 8 (unat a)"

section \<open>Printing\<close>

definition radix_char :: "nat \<Rightarrow> char" where
  "radix_char d = (if d < 10 then char_of (48 + d) else char_of (87 + d))"

text \<open>\<open>{}\<close> and \<open>{:x}\<close> of an unsigned integer; a radix below two has no digits to print.\<close>

fun show_radix :: "nat \<Rightarrow> nat \<Rightarrow> string" where
  "show_radix r n =
     (if n < r \<or> r < 2 then [radix_char n] else show_radix r (n div r) @ [radix_char (n mod r)])"

declare show_radix.simps [simp del]

definition show_v4 :: "32 word \<Rightarrow> string" where
  "show_v4 a = join_with ''.'' (map (show_radix 10) (be_digits 256 4 (unat a)))"

text \<open>The first longest run of zero segments, as its start and length.\<close>

fun zero_span :: "nat \<Rightarrow> nat list \<Rightarrow> nat \<times> nat \<Rightarrow> nat \<times> nat \<Rightarrow> nat \<times> nat" where
  "zero_span i [] current longest = longest"
| "zero_span i (g # gs) current longest =
     (if g = 0 then
        let start = (if snd current = 0 then i else fst current);
            current' = (start, snd current + 1)
        in zero_span (Suc i) gs current' (if snd longest < snd current' then current' else longest)
      else zero_span (Suc i) gs (0, 0) longest)"

definition show_groups :: "nat list \<Rightarrow> string" where
  "show_groups gs = join_with '':'' (map (show_radix 16) gs)"

definition show_v6 :: "128 word \<Rightarrow> string" where
  "show_v6 a =
     (case to_ipv4_mapped a of
        Some v4 \<Rightarrow> ''::ffff:'' @ show_v4 v4
      | None \<Rightarrow>
          (let gs = segments a; (start, len) = zero_span 0 gs (0, 0) (0, 0)
           in if 1 < len then show_groups (take start gs) @ ''::'' @ show_groups (drop (start + len) gs)
              else show_groups gs))"

definition show_ip :: "ip_addr \<Rightarrow> string" where
  "show_ip a = (case a of V4 x \<Rightarrow> show_v4 x | V6 x \<Rightarrow> show_v6 x)"

section \<open>Parsing\<close>

definition digit_val :: "nat \<Rightarrow> char \<Rightarrow> nat option" where
  "digit_val r c =
     (let n = (of_char c :: nat);
          d = (if 48 \<le> n \<and> n \<le> 57 then n - 48
               else if 97 \<le> n \<and> n \<le> 102 then n - 87
               else if 65 \<le> n \<and> n \<le> 70 then n - 55 else 255)
      in if d < r \<and> d < 255 then Some d else None)"

definition is_digit_of :: "nat \<Rightarrow> char \<Rightarrow> bool" where
  "is_digit_of r c = (digit_val r c \<noteq> None)"

text \<open>
  \<open>read_number\<close> of a type whose greatest value is \<open>mx\<close>: all digits that follow, at most
  \<open>max_digits\<close> of them, and without a leading zero unless that is allowed.
\<close>

definition read_number :: "nat \<Rightarrow> nat \<Rightarrow> bool \<Rightarrow> nat \<Rightarrow> string \<Rightarrow> (nat \<times> string) option" where
  "read_number r max_digits allow_zero_prefix mx s =
     (let ds = takeWhile (is_digit_of r) s;
          v = be_value r (map (\<lambda>c. the (digit_val r c)) ds)
      in if ds = [] \<or> max_digits < length ds
            \<or> (\<not> allow_zero_prefix \<and> hd ds = CHR ''0'' \<and> 1 < length ds) \<or> mx < v
         then None else Some (v, dropWhile (is_digit_of r) s))"

definition read_octet :: "string \<Rightarrow> (nat \<times> string) option" where
  "read_octet s = read_number 10 3 False 255 s"

definition read_group :: "string \<Rightarrow> (nat \<times> string) option" where
  "read_group s = read_number 16 4 True 65535 s"

text \<open>\<open>read_separator\<close>: a separator before every element but the first.\<close>

definition read_separator :: "char \<Rightarrow> bool \<Rightarrow> (string \<Rightarrow> ('a \<times> string) option) \<Rightarrow> string \<Rightarrow> ('a \<times> string) option" where
  "read_separator sep first f s =
     (if first then f s else case s of [] \<Rightarrow> None | c # r \<Rightarrow> if c = sep then f r else None)"

fun read_octets :: "nat \<Rightarrow> bool \<Rightarrow> string \<Rightarrow> (nat list \<times> string) option" where
  "read_octets 0 first s = Some ([], s)"
| "read_octets (Suc n) first s =
     Option.bind (read_separator CHR ''.'' first read_octet s) (\<lambda>(x, s').
       map_option (\<lambda>(xs, s''). (x # xs, s'')) (read_octets n False s'))"

definition read_v4 :: "string \<Rightarrow> (nat list \<times> string) option" where
  "read_v4 s = read_octets 4 True s"

definition parse_v4 :: "string \<Rightarrow> 32 word option" where
  "parse_v4 s =
     (if 15 < length s then None
      else case read_v4 s of Some (os, []) \<Rightarrow> Some (v4_from os) | _ \<Rightarrow> None)"

text \<open>\<open>read_groups\<close> with the number of groups left; an embedded IPv4 address fills two and ends it.\<close>

fun read_groups :: "bool \<Rightarrow> nat \<Rightarrow> string \<Rightarrow> nat list \<times> bool \<times> string" where
  "read_groups first 0 s = ([], False, s)"
| "read_groups first (Suc r) s =
     (case (if 0 < r then read_separator CHR '':'' first read_v4 s else None) of
        Some (os, s') \<Rightarrow> ([256 * (os ! 0) + os ! 1, 256 * (os ! 2) + os ! 3], True, s')
      | None \<Rightarrow>
          (case read_separator CHR '':'' first read_group s of
             None \<Rightarrow> ([], False, s)
           | Some (g, s') \<Rightarrow> (let (gs, v4, s'') = read_groups False r s' in (g # gs, v4, s''))))"

definition parse_v6 :: "string \<Rightarrow> 128 word option" where
  "parse_v6 s =
     (let (hd_gs, v4, s1) = read_groups True 8 s in
      if length hd_gs = 8 then (if s1 = [] then Some (v6_from hd_gs) else None)
      else if v4 then None
      else
        case strip_prefix ''::'' s1 of
          None \<Rightarrow> None
        | Some s2 \<Rightarrow>
            (let (tl_gs, _, s3) = read_groups True (8 - (length hd_gs + 1)) s2
             in if s3 = []
                then Some (v6_from (hd_gs @ replicate (8 - length hd_gs - length tl_gs) 0 @ tl_gs))
                else None))"

section \<open>Numbers\<close>

lemma be_value_append: "be_value B (xs @ ys) = be_value B xs * B ^ length ys + be_value B ys"
proof -
  have f: "foldl (\<lambda>a d. B * a + d) a ys = a * B ^ length ys + foldl (\<lambda>a d. B * a + d) 0 ys" for a
  proof (induction ys rule: rev_induct)
    case (snoc y ys)
    have "foldl (\<lambda>a d. B * a + d) a (ys @ [y]) = B * (a * B ^ length ys + foldl (\<lambda>a d. B * a + d) 0 ys) + y"
      using snoc by simp
    then show ?case by (simp add: distrib_left mult.left_commute)
  qed simp
  show ?thesis unfolding be_value_def foldl_append by (rule f)
qed

lemma be_value_Cons: "be_value B (x # xs) = x * B ^ length xs + be_value B xs"
  using be_value_append[of B "[x]" xs] by (simp add: be_value_def)

lemma be_value_Nil [simp]: "be_value B [] = 0"
  by (simp add: be_value_def)

lemma be_digits_Suc: "be_digits B (Suc n) x = (x div B ^ n mod B) # be_digits B n x"
  by (simp add: be_digits_def)

lemma length_be_digits [simp]: "length (be_digits B n x) = n"
  by (simp add: be_digits_def)

lemma be_digits_less: "0 < B \<Longrightarrow> d \<in> set (be_digits B n x) \<Longrightarrow> d < B"
  by (auto simp: be_digits_def)

lemma be_value_digits: "0 < B \<Longrightarrow> be_value B (be_digits B n x) = x mod B ^ n"
proof (induction n)
  case (Suc n)
  have "x mod B ^ Suc n = B ^ n * (x div B ^ n mod B) + x mod B ^ n"
    using mod_mult2_eq[of x "B ^ n" B] by (simp add: mult.commute)
  with Suc show ?case by (simp add: be_digits_Suc be_value_Cons mult.commute)
qed (simp add: be_digits_def)

lemma v4_from_octets [simp]: "v4_from (be_digits 256 4 (unat a)) = a"
  using unsigned_less[of a, where 'a = nat] by (simp add: v4_from_def be_value_digits)

lemma v6_from_segments [simp]: "v6_from (segments a) = a"
  using unsigned_less[of a, where 'a = nat] by (simp add: v6_from_def segments_def be_value_digits)

lemma segments_less: "g \<in> set (segments a) \<Longrightarrow> g < 65536"
  using be_digits_less[of 65536] by (simp add: segments_def)

lemma length_segments [simp]: "length (segments a) = 8"
  by (simp add: segments_def)

section \<open>Reading a printed number\<close>

lemma digit_val_char: "d < r \<Longrightarrow> r \<le> 16 \<Longrightarrow> digit_val r (radix_char d) = Some d"
  by (auto simp: digit_val_def radix_char_def Let_def)

lemma show_radix_small: "n < r \<Longrightarrow> show_radix r n = [radix_char n]"
  by (subst show_radix.simps) simp

lemma show_radix_digits:
  assumes "2 \<le> r" "r \<le> 16"
  shows "(\<forall>c \<in> set (show_radix r n). is_digit_of r c)
    \<and> be_value r (map (\<lambda>c. the (digit_val r c)) (show_radix r n)) = n
    \<and> show_radix r n \<noteq> [] \<and> (hd (show_radix r n) = CHR ''0'' \<longrightarrow> n = 0)"
proof (induction n rule: less_induct)
  case (less n)
  have z: "radix_char d = CHR ''0'' \<Longrightarrow> d = 0" if "d < 16" for d
    using digit_val_char[of d 16] that by (auto simp: digit_val_def Let_def)
  show ?case
  proof (cases "n < r")
    case True
    then show ?thesis
      using assms digit_val_char[of n r] z[of n] by (simp add: show_radix_small is_digit_of_def be_value_Cons)
  next
    case False
    then have lt: "n div r < n" "n div r \<noteq> 0" using assms by (auto simp: div_less_dividend div_eq_0_iff)
    have s: "show_radix r n = show_radix r (n div r) @ [radix_char (n mod r)]"
      using False assms by (subst show_radix.simps) auto
    have "digit_val r (radix_char (n mod r)) = Some (n mod r)" using assms by (intro digit_val_char) auto
    then show ?thesis
      using less[OF lt(1)] lt(2) unfolding s by (simp add: is_digit_of_def be_value_append be_value_Cons)
  qed
qed

lemma show_radix_length: "2 \<le> r \<Longrightarrow> n < r ^ k \<Longrightarrow> 0 < k \<Longrightarrow> length (show_radix r n) \<le> k"
proof (induction k arbitrary: n)
  case (Suc k)
  show ?case
  proof (cases "n < r")
    case False
    then have "0 < k" using Suc.prems by (cases k) auto
    moreover have "n div r < r ^ k" using Suc.prems by (simp add: less_mult_imp_div_less mult.commute)
    ultimately show ?thesis using Suc False by (subst show_radix.simps) auto
  qed (simp add: show_radix_small)
qed simp

text \<open>Text that does not go on with a digit.\<close>

definition stops :: "nat \<Rightarrow> string \<Rightarrow> bool" where
  "stops r s \<longleftrightarrow> (case s of [] \<Rightarrow> True | c # _ \<Rightarrow> \<not> is_digit_of r c)"

lemma read_number_show:
  assumes "2 \<le> r" "r \<le> 16" "n \<le> mx" "n < r ^ k" "0 < k" "stops r rest"
  shows "read_number r k z mx (show_radix r n @ rest) = Some (n, rest)"
proof -
  note d = show_radix_digits[OF assms(1,2), of n]
  have t: "takeWhile (is_digit_of r) (show_radix r n @ rest) = show_radix r n"
    "dropWhile (is_digit_of r) (show_radix r n @ rest) = rest"
    using d assms(6) by (auto simp: stops_def takeWhile_append dropWhile_append split: list.splits)
  have "\<not> (hd (show_radix r n) = CHR ''0'' \<and> 1 < length (show_radix r n))"
    using d assms(1) by (auto simp: show_radix_small)
  then show ?thesis
    using d t show_radix_length[OF assms(1,4,5)] assms(3) by (auto simp: read_number_def Let_def)
qed

section \<open>Parsing inverts printing\<close>

lemma stops_simps [simp]: "stops r []" "stops 10 (CHR ''.'' # s)" "stops 16 (CHR '':'' # s)"
  by (simp_all add: stops_def is_digit_of_def digit_val_def Let_def)

lemma read_octet_show: "o' < 256 \<Longrightarrow> stops 10 rest \<Longrightarrow> read_octet (show_radix 10 o' @ rest) = Some (o', rest)"
  unfolding read_octet_def by (rule read_number_show) simp_all

lemma read_group_show: "g < 65536 \<Longrightarrow> stops 16 rest \<Longrightarrow> read_group (show_radix 16 g @ rest) = Some (g, rest)"
  unfolding read_group_def by (rule read_number_show) simp_all

lemma read_octets_show:
  "\<forall>x \<in> set xs. x < 256 \<Longrightarrow> stops 10 rest \<Longrightarrow>
   read_octets (length xs) False (concat (map (\<lambda>x. CHR ''.'' # show_radix 10 x) xs) @ rest) = Some (xs, rest)"
proof (induction xs)
  case (Cons x xs)
  let ?t = "concat (map (\<lambda>x. CHR ''.'' # show_radix 10 x) xs) @ rest"
  have "stops 10 ?t" using Cons.prems(2) by (cases xs) simp_all
  then show ?case using Cons by (simp add: read_separator_def read_octet_show)
qed simp

lemma join_with_concat: "join_with [c] (x # xs) = x @ concat (map (\<lambda>y. c # y) xs)"
  by (induction xs arbitrary: x) simp_all

lemma read_v4_unfold:
  "read_v4 s = Option.bind (read_octet s) (\<lambda>(x, s').
     map_option (\<lambda>(xs, s''). (x # xs, s'')) (read_octets 3 False s'))"
  using read_octets.simps(2)[of 3 True s] by (simp add: read_v4_def read_separator_def)

lemma read_octets_3_None: "CHR ''.'' \<notin> set t \<Longrightarrow> read_octets 3 False t = None"
  using read_octets.simps(2)[of 2 False t] by (cases t) (auto simp: read_separator_def)

lemma four_octets:
  obtains w x y z where "be_digits 256 4 (unat a) = [w, x, y, z]"
  by (simp add: be_digits_def upt_rec)

lemma read_v4_show:
  assumes "stops 10 rest"
  shows "read_v4 (show_v4 a @ rest) = Some (be_digits 256 4 (unat a), rest)"
proof -
  obtain x xs where d: "be_digits 256 4 (unat a) = x # xs" "length xs = 3"
    by (rule four_octets[of a]) simp
  have b: "x < 256" "\<forall>y \<in> set xs. y < 256" using be_digits_less[of 256 _ 4 "unat a"] d(1) by auto
  let ?t = "concat (map (\<lambda>x. CHR ''.'' # show_radix 10 x) xs) @ rest"
  have "stops 10 ?t" using d(2) by (cases xs) simp_all
  moreover have "show_v4 a @ rest = show_radix 10 x @ ?t"
    unfolding show_v4_def d(1) by (simp add: join_with_concat comp_def)
  moreover have "read_octets 3 False ?t = Some (xs, rest)" using read_octets_show[OF b(2) assms] d(2) by simp
  ultimately show ?thesis
    using b(1) unfolding read_v4_unfold d(1) by (simp add: read_octet_show)
qed

lemma show_v4_length: "length (show_v4 a) \<le> 15"
proof -
  obtain w x y z where d: "be_digits 256 4 (unat a) = [w, x, y, z]" by (rule four_octets)
  then have b: "w < 256" "x < 256" "y < 256" "z < 256" using be_digits_less[of 256 _ 4 "unat a"] by auto
  have "length (show_radix 10 k) \<le> 3" if "k < 256" for k using that by (intro show_radix_length) simp_all
  with b have "length (show_radix 10 w) \<le> 3" "length (show_radix 10 x) \<le> 3"
    "length (show_radix 10 y) \<le> 3" "length (show_radix 10 z) \<le> 3" by simp_all
  then show ?thesis unfolding show_v4_def d by simp
qed

lemma parse_show_v4: "parse_v4 (show_v4 a) = Some a"
  using read_v4_show[of "[]" a] show_v4_length[of a] by (simp add: parse_v4_def)

subsection \<open>IPv6\<close>

lemma show_radix_16_chars: "c \<in> set (show_radix 16 g) \<Longrightarrow> is_digit_of 16 c"
  using show_radix_digits[of 16 g] by simp

lemma no_dot_number: "CHR ''.'' \<notin> set (show_radix 16 g)"
  using show_radix_16_chars[of "CHR ''.''" g] by (auto simp: is_digit_of_def digit_val_def Let_def)

lemma read_v4_no_dot:
  assumes "CHR ''.'' \<notin> set s"
  shows "read_v4 s = None"
proof (cases "read_octet s")
  case (Some p)
  then obtain n t where p: "p = (n, t)" "t = dropWhile (is_digit_of 10) s"
    by (auto simp: read_octet_def read_number_def Let_def split: if_splits)
  then have "CHR ''.'' \<notin> set t" using assms set_dropWhileD by fast
  then show ?thesis using Some p(1) read_octets_3_None by (simp add: read_v4_unfold)
qed (simp add: read_v4_unfold)

text \<open>What may follow the printed groups: nothing, or the compressed zeros.\<close>

definition groups_end :: "string \<Rightarrow> bool" where
  "groups_end s \<longleftrightarrow> CHR ''.'' \<notin> set s \<and> (s = [] \<or> (\<exists>t. s = ''::'' @ t))"

lemma read_group_colon: "read_group (CHR '':'' # s) = None" "read_group [] = None"
  by (simp_all add: read_group_def read_number_def is_digit_of_def digit_val_def Let_def)

lemma read_groups_end:
  assumes "groups_end s"
  shows "read_groups first r s = ([], False, s)"
proof (cases r)
  case (Suc k)
  have v: "read_v4 s = None" "read_v4 (tl s) = None"
    using assms read_v4_no_dot list.set_sel(2) by (cases s; force simp: groups_end_def)+
  have "read_separator CHR '':'' first read_v4 s = None"
    using v assms by (auto simp: read_separator_def groups_end_def)
  moreover have "read_separator CHR '':'' first read_group s = None"
    using assms by (auto simp: read_separator_def groups_end_def read_group_colon)
  ultimately show ?thesis using Suc by simp
qed simp

abbreviation more_groups :: "nat list \<Rightarrow> string" where
  "more_groups gs \<equiv> concat (map (\<lambda>g. CHR '':'' # show_radix 16 g) gs)"

lemma more_groups_no_dot: "CHR ''.'' \<notin> set (more_groups gs)"
  using no_dot_number by (induction gs) auto

lemma groups_end_no_dot: "groups_end rest \<Longrightarrow> CHR ''.'' \<notin> set (more_groups gs @ rest)"
  using more_groups_no_dot[of gs] unfolding groups_end_def set_append by blast

lemma groups_end_stops: "groups_end rest \<Longrightarrow> stops 16 (more_groups gs @ rest)"
  by (cases gs) (auto simp: groups_end_def)

lemma read_groups_more:
  "groups_end rest \<Longrightarrow> \<forall>g \<in> set gs. g < 65536 \<Longrightarrow> length gs \<le> r \<Longrightarrow>
   read_groups False r (more_groups gs @ rest) = (gs, False, rest)"
proof (induction gs arbitrary: r)
  case Nil
  then show ?case by (simp add: read_groups_end)
next
  case (Cons g gs)
  then obtain k where r: "r = Suc k" by (cases r) auto
  let ?t = "show_radix 16 g @ more_groups gs @ rest"
  have "read_v4 ?t = None"
    using groups_end_no_dot[OF Cons.prems(1), of gs] no_dot_number[of g] by (intro read_v4_no_dot) simp
  moreover have "read_group ?t = Some (g, more_groups gs @ rest)"
    using Cons.prems(2) groups_end_stops[OF Cons.prems(1)] by (intro read_group_show) auto
  moreover have "read_groups False k (more_groups gs @ rest) = (gs, False, rest)"
    using Cons r by simp
  ultimately show ?case using r by (cases k) (simp_all add: read_separator_def)
qed

lemma read_groups_show:
  assumes "groups_end rest" "\<forall>g \<in> set gs. g < 65536" "length gs \<le> r"
  shows "read_groups True r (show_groups gs @ rest) = (gs, False, rest)"
proof (cases gs)
  case Nil
  then show ?thesis using read_groups_end[OF assms(1)] by (simp add: show_groups_def)
next
  case (Cons g hs)
  then obtain k where r: "r = Suc k" using assms(3) by (cases r) auto
  let ?t = "show_radix 16 g @ more_groups hs @ rest"
  have s: "show_groups gs @ rest = ?t" unfolding show_groups_def Cons by (simp add: join_with_concat comp_def)
  have "read_v4 ?t = None"
    using groups_end_no_dot[OF assms(1), of hs] no_dot_number[of g] by (intro read_v4_no_dot) simp
  moreover have "read_group ?t = Some (g, more_groups hs @ rest)"
    using assms(2) Cons groups_end_stops[OF assms(1)] by (intro read_group_show) auto
  moreover have "read_groups False k (more_groups hs @ rest) = (hs, False, rest)"
    using assms Cons r by (intro read_groups_more) auto
  ultimately show ?thesis unfolding s r using Cons by (cases k) (simp_all add: read_separator_def)
qed

lemma show_groups_no_dot: "CHR ''.'' \<notin> set (show_groups gs)"
  using more_groups_no_dot[of "tl gs"] no_dot_number[of "hd gs"]
  by (cases gs) (auto simp: show_groups_def join_with_concat)

text \<open>A run of zero segments, and that the span found is one.\<close>

definition zero_run :: "nat list \<Rightarrow> nat \<times> nat \<Rightarrow> bool" where
  "zero_run gs p \<longleftrightarrow> fst p + snd p \<le> length gs \<and> (\<forall>k < snd p. gs ! (fst p + k) = 0)"

lemma zero_run_append: "zero_run gs p \<Longrightarrow> zero_run (gs @ hs) p"
  by (auto simp: zero_run_def nth_append)

lemma zero_span_run:
  assumes "zero_run pre lon" "zero_run pre cur" "snd cur = 0 \<or> fst cur + snd cur = length pre"
  shows "zero_run (pre @ gs) (zero_span (length pre) gs cur lon)"
  using assms
proof (induction gs arbitrary: pre cur lon)
  case (Cons g gs)
  show ?case
  proof (cases "g = 0")
    case True
    let ?c = "(if snd cur = 0 then length pre else fst cur, snd cur + 1)"
    have c: "zero_run (pre @ [g]) ?c"
      using Cons.prems(2,3) True by (auto simp: zero_run_def nth_append less_Suc_eq)
    have "zero_run (pre @ [g]) (if snd lon < snd ?c then ?c else lon)"
      using c zero_run_append[OF Cons.prems(1)] by simp
    from Cons.IH[OF this c] Cons.prems(3) True show ?thesis by (auto simp: Let_def split: if_splits)
  next
    case False
    have "zero_run (pre @ [g]) (0, 0)" by (simp add: zero_run_def)
    from Cons.IH[OF zero_run_append[OF Cons.prems(1)] this] False show ?thesis by simp
  qed
qed simp

lemma zero_run_split:
  assumes "zero_run gs (i, n)"
  shows "gs = take i gs @ replicate n 0 @ drop (i + n) gs"
proof -
  have "take n (drop i gs) = replicate n 0"
    using assms by (intro nth_equalityI) (auto simp: zero_run_def)
  then have "drop i gs = replicate n 0 @ drop n (drop i gs)" by (metis append_take_drop_id)
  then show ?thesis by (metis append_take_drop_id drop_drop add.commute)
qed

lemma parse_show_v6_plain:
  assumes "to_ipv4_mapped a = None"
  shows "parse_v6 (show_v6 a) = Some a"
proof -
  let ?gs = "segments a"
  obtain st n where z: "zero_span 0 ?gs (0, 0) (0, 0) = (st, n)" by (cases "zero_span 0 ?gs (0, 0) (0, 0)")
  have "zero_run ([] @ ?gs) (zero_span (length ([] :: nat list)) ?gs (0, 0) (0, 0))"
    by (rule zero_span_run) (simp_all add: zero_run_def)
  then have run: "zero_run ?gs (st, n)" using z by simp
  have b: "\<forall>g \<in> set ?gs. g < 65536" using segments_less by blast
  show ?thesis
  proof (cases "1 < n")
    case True
    let ?h = "take st ?gs" and ?t = "drop (st + n) ?gs"
    have len: "st + n \<le> 8" "length ?h = st" "length ?t = 8 - st - n" using run by (simp_all add: zero_run_def)
    have s: "show_v6 a = show_groups ?h @ ''::'' @ show_groups ?t"
      using True z assms by (simp add: show_v6_def Let_def)
    have e: "groups_end (''::'' @ show_groups ?t)" using show_groups_no_dot by (simp add: groups_end_def)
    have "read_groups True 8 (show_v6 a) = (?h, False, ''::'' @ show_groups ?t)"
      unfolding s using b len by (intro read_groups_show[OF e]) (auto dest: in_set_takeD)
    moreover have "read_groups True (8 - (st + 1)) (show_groups ?t @ []) = (?t, False, [])"
      using b len True by (intro read_groups_show) (auto simp: groups_end_def dest: in_set_dropD)
    moreover have "?h @ replicate (8 - st - length ?t) 0 @ ?t = ?gs"
      using zero_run_split[OF run] len by simp
    ultimately show ?thesis using len True by (simp add: parse_v6_def Let_def)
  next
    case False
    then have s: "show_v6 a = show_groups ?gs @ []" using z assms by (simp add: show_v6_def Let_def)
    have "read_groups True 8 (show_v6 a) = (?gs, False, [])"
      unfolding s using b by (intro read_groups_show) (auto simp: groups_end_def)
    then show ?thesis by (simp add: parse_v6_def)
  qed
qed

lemma mapped_value:
  assumes "to_ipv4_mapped a = Some v" "be_digits 256 4 (unat v) = [w, x, y, z]"
  shows "v6_from [0, 0, 0, 0, 0, 65535, 256 * w + x, 256 * y + z] = a"
proof -
  have d: "drop_bit 32 a = 0xFFFF" "v = ucast a" using assms(1) by (auto simp: to_ipv4_mapped_def split: if_splits)
  have "unat (drop_bit 32 a) = 65535" unfolding d(1) by simp
  then have "drop_bit 32 (unat a) = 65535" unfolding unat_drop_bit_eq .
  then have hi: "unat a div 2 ^ 32 = 65535" unfolding drop_bit_eq_div .
  have "unat v = unat a mod 2 ^ 32" unfolding d(2) by (simp add: unsigned_ucast_eq take_bit_eq_mod)
  moreover have "be_value 256 [w, x, y, z] = unat v mod 256 ^ 4" using be_value_digits[of 256 4 "unat v"] assms(2) by simp
  moreover have "unat v < 256 ^ 4" using unsigned_less[of v, where 'a = nat] by simp
  ultimately have lo: "be_value 256 [w, x, y, z] = unat a mod 2 ^ 32" by simp
  have "be_value 65536 [0, 0, 0, 0, 0, 65535, 256 * w + x, 256 * y + z]
      = 65535 * 2 ^ 32 + be_value 256 [w, x, y, z]" by (simp add: be_value_Cons)
  also have "\<dots> = unat a" unfolding lo hi[symmetric] by simp
  finally show ?thesis by (simp add: v6_from_def)
qed

lemma parse_show_v6_mapped:
  assumes "to_ipv4_mapped a = Some v"
  shows "parse_v6 (show_v6 a) = Some a"
proof -
  obtain w x y z where o': "be_digits 256 4 (unat v) = [w, x, y, z]" by (rule four_octets)
  have s: "show_v6 a = ''::ffff:'' @ show_v4 v" using assms by (simp add: show_v6_def)
  have n: "read_octet (CHR ''f'' # t) = None" "read_octet (CHR '':'' # t) = None" for t
    by (simp_all add: read_octet_def read_number_def is_digit_of_def digit_val_def Let_def)
  have "read_v4 (show_v6 a) = None" unfolding s by (simp add: read_v4_unfold n)
  moreover have "read_group (show_v6 a) = None" unfolding s by (simp add: read_group_colon)
  ultimately have h: "read_groups True 8 (show_v6 a) = ([], False, show_v6 a)"
    using read_groups.simps(2)[of True 7 "show_v6 a"] by (simp add: read_separator_def)
  have f: "read_group (''ffff'' @ CHR '':'' # t) = Some (65535, CHR '':'' # t)" for t
    by (simp add: read_group_def read_number_def is_digit_of_def digit_val_def Let_def be_value_def)
  have "read_groups False 6 (CHR '':'' # show_v4 v) = ([256 * w + x, 256 * y + z], True, [])"
    using read_groups.simps(2)[of False 5 "CHR '':'' # show_v4 v"] read_v4_show[of "[]" v] o'
    by (simp add: read_separator_def)
  then have "read_groups True 7 (''ffff'' @ CHR '':'' # show_v4 v) = ([65535, 256 * w + x, 256 * y + z], True, [])"
    using read_groups.simps(2)[of True 6 "''ffff'' @ CHR '':'' # show_v4 v"] f[of "show_v4 v"]
    by (simp add: read_separator_def read_v4_unfold n)
  moreover have "strip_prefix ''::'' (show_v6 a) = Some (''ffff'' @ CHR '':'' # show_v4 v)"
    unfolding s by simp
  moreover have "replicate 5 (0 :: nat) = [0, 0, 0, 0, 0]" by (simp add: numeral_eq_Suc)
  ultimately show ?thesis
    using h mapped_value[OF assms o'] by (simp add: parse_v6_def)
qed

lemma parse_show_v6: "parse_v6 (show_v6 a) = Some a"
  using parse_show_v6_plain parse_show_v6_mapped by (cases "to_ipv4_mapped a") auto

section \<open>The characters and lengths of addresses\<close>

lemma show_radix_10: "show_radix 10 n = show_nat n"
proof (induction n rule: less_induct)
  case (less n)
  show ?case
  proof (cases "n < 10")
    case True
    then show ?thesis
      by (subst show_radix.simps, subst show_nat.simps) (simp add: radix_char_def digit_char_def)
  next
    case False
    then show ?thesis
      using less[of "n div 10"]
      by (subst show_radix.simps, subst show_nat.simps) (simp add: radix_char_def digit_char_def)
  qed
qed

definition ip_char :: "char \<Rightarrow> bool" where
  "ip_char c \<longleftrightarrow> is_digit_of 16 c \<or> c = CHR ''.'' \<or> c = CHR '':''"

lemma ip_char_code: "ip_char c \<Longrightarrow> 46 \<le> (of_char c :: nat) \<and> (of_char c :: nat) < 128"
  by (auto simp: ip_char_def is_digit_of_def digit_val_def Let_def split: if_splits)

lemma digit_10_16: "is_digit_of 10 c \<Longrightarrow> is_digit_of 16 c"
  by (auto simp: is_digit_of_def digit_val_def Let_def split: if_splits)

lemma set_join_with: "set (join_with sep xs) \<subseteq> set sep \<union> \<Union> (set ` set xs)"
  by (induction sep xs rule: join_with.induct) auto

lemma show_v4_chars:
  assumes "c \<in> set (show_v4 a)"
  shows "ip_char c"
proof -
  consider "c = CHR ''.''" | n where "c \<in> set (show_radix 10 n)"
    using assms set_join_with[of "''.''" "map (show_radix 10) (be_digits 256 4 (unat a))"]
    by (auto simp: show_v4_def)
  then show ?thesis
  proof cases
    case 2
    then show ?thesis using show_radix_digits[of 10 n] digit_10_16 by (simp add: ip_char_def)
  qed (simp add: ip_char_def)
qed

lemma show_groups_chars: "c \<in> set (show_groups gs) \<Longrightarrow> ip_char c"
  using set_join_with[of "'':''" "map (show_radix 16) gs"] show_radix_16_chars
  by (fastforce simp: show_groups_def ip_char_def)

lemma show_ip_chars: "c \<in> set (show_ip a) \<Longrightarrow> ip_char c"
proof (cases a)
  case (V4 x)
  then show "c \<in> set (show_ip a) \<Longrightarrow> ip_char c" using show_v4_chars by (simp add: show_ip_def)
next
  case (V6 x)
  have "ip_char CHR '':''" "ip_char CHR ''f''"
    by (simp_all add: ip_char_def is_digit_of_def digit_val_def Let_def)
  then show "c \<in> set (show_ip a) \<Longrightarrow> ip_char c"
    using V6 show_groups_chars show_v4_chars
    by (auto simp: show_ip_def show_v6_def Let_def split: option.splits prod.splits if_splits)
qed

lemma show_groups_length: "\<forall>g \<in> set gs. g < 65536 \<Longrightarrow> length (show_groups gs) \<le> 5 * length gs"
proof (cases gs)
  case (Cons g hs)
  assume b: "\<forall>g \<in> set gs. g < 65536"
  have l: "length (show_radix 16 k) \<le> 4" if "k < 65536" for k using that by (intro show_radix_length) simp_all
  have "length (more_groups ks) \<le> 5 * length ks" if "\<forall>k \<in> set ks. k < 65536" for ks
    using that l by (induction ks) fastforce+
  from this[of hs] show ?thesis
    using b l[of g] Cons by (simp add: show_groups_def join_with_concat comp_def)
qed (simp add: show_groups_def)

lemma show_ip_length: "length (show_ip a) \<le> 40"
proof (cases a)
  case (V4 x)
  then show ?thesis using show_v4_length[of x] by (simp add: show_ip_def)
next
  case (V6 x)
  show ?thesis
  proof (cases "to_ipv4_mapped x")
    case (Some v)
    then show ?thesis using V6 show_v4_length[of v] by (simp add: show_ip_def show_v6_def)
  next
    case None
    let ?gs = "segments x"
    obtain st n where z: "zero_span 0 ?gs (0, 0) (0, 0) = (st, n)" by (cases "zero_span 0 ?gs (0, 0) (0, 0)")
    have l: "length (show_groups hs) \<le> 5 * length hs" if "set hs \<subseteq> set ?gs" for hs
      using that segments_less by (intro show_groups_length) auto
    have "length (show_groups (take st ?gs)) \<le> 5 * st" "length (show_groups (drop (st + n) ?gs)) \<le> 5 * (8 - (st + n))"
      "length (show_groups ?gs) \<le> 40"
      using l[of "take st ?gs"] l[of "drop (st + n) ?gs"] l[of ?gs] set_take_subset set_drop_subset by fastforce+
    moreover have "zero_run ([] @ ?gs) (zero_span (length ([] :: nat list)) ?gs (0, 0) (0, 0))"
      by (rule zero_span_run) (simp_all add: zero_run_def)
    then have "st + n \<le> 8" using z by (simp add: zero_run_def)
    ultimately have "length (show_groups (take st ?gs)) + length (show_groups (drop (st + n) ?gs)) \<le> 38" if "1 < n"
      using that by linarith
    then show ?thesis using V6 None z l[of ?gs] by (simp add: show_ip_def show_v6_def Let_def)
  qed
qed

section \<open>The families do not mix\<close>

lemma read_octets_chars:
  "read_octets n first s = Some (xs, t) \<Longrightarrow> \<exists>u. s = u @ t \<and> CHR '':'' \<notin> set u"
proof (induction n arbitrary: first s xs)
  case (Suc n)
  have oct: "\<exists>u. s = u @ t \<and> CHR '':'' \<notin> set u" if r: "read_octet s = Some (x, t)" for s x t
  proof -
    have "s = takeWhile (is_digit_of 10) s @ t" using r
      by (auto simp: read_octet_def read_number_def Let_def split: if_splits)
    moreover have "CHR '':'' \<notin> set (takeWhile (is_digit_of 10) s)"
      by (auto simp: is_digit_of_def digit_val_def dest: set_takeWhileD)
    ultimately show ?thesis by blast
  qed
  obtain x s1 ys where r: "read_separator CHR ''.'' first read_octet s = Some (x, s1)"
    "read_octets n False s1 = Some (ys, t)"
    using Suc.prems by (auto simp: bind_eq_Some_conv)
  have "\<exists>u. s = u @ s1 \<and> CHR '':'' \<notin> set u"
  proof (cases first)
    case True
    then show ?thesis using r(1) oct by (simp add: read_separator_def)
  next
    case False
    then obtain r' where "s = CHR ''.'' # r'" "read_octet r' = Some (x, s1)"
      using r(1) by (auto simp: read_separator_def split: list.splits if_splits)
    then obtain u where "s = (CHR ''.'' # u) @ s1" "CHR '':'' \<notin> set u" using oct by force
    then show ?thesis by (intro exI[of _ "CHR ''.'' # u"]) simp
  qed
  then obtain u where u: "s = u @ s1" "CHR '':'' \<notin> set u" by blast
  obtain w where "s1 = w @ t" "CHR '':'' \<notin> set w" using Suc.IH[OF r(2)] by blast
  then show ?case using u by (intro exI[of _ "u @ w"]) simp
qed simp

lemma colon_in_v6: "CHR '':'' \<in> set (show_v6 a)"
proof -
  have "CHR '':'' \<in> set (show_groups (segments a))"
    by (cases "segments a" rule: remdups_adj.cases)
      (auto simp: show_groups_def dest: arg_cong[of _ _ length])
  then show ?thesis
    by (cases "zero_span 0 (segments a) (0, 0) (0, 0)") (auto simp: show_v6_def Let_def split: option.splits)
qed

lemma parse_v4_of_v6: "parse_v4 (show_v6 a) = None"
  using read_octets_chars[of 4 True "show_v6 a" _ "[]"] colon_in_v6[of a]
  by (auto simp: parse_v4_def read_v4_def split: option.splits list.splits)

lemma parse_v6_of_v4: "parse_v6 (show_v4 a) = None"
proof -
  have "read_groups True 8 (show_v4 a) =
      ([256 * (be_digits 256 4 (unat a) ! 0) + be_digits 256 4 (unat a) ! 1,
        256 * (be_digits 256 4 (unat a) ! 2) + be_digits 256 4 (unat a) ! 3], True, [])"
    using read_groups.simps(2)[of True 7 "show_v4 a"] read_v4_show[of "[]" a] by (simp add: read_separator_def)
  then show ?thesis by (simp add: parse_v6_def)
qed

end
