(* ===== verification/Utf8.thy ===== *)
theory Utf8
  imports Prelude
begin

text \<open>
  UTF-8 in the standard library: the check of \<open>std::str::from_utf8\<close> and the replacement of
  \<open>String::from_utf8_lossy\<close>, which turns every maximal invalid sequence into U+FFFD.
\<close>

definition utf8_cont :: "byte \<Rightarrow> bool" where
  "utf8_cont b \<longleftrightarrow> 0x80 \<le> b \<and> b \<le> 0xBF"

text \<open>The second bytes allowed after a lead byte of a sequence of three or four bytes.\<close>

definition utf8_second :: "byte \<Rightarrow> byte \<Rightarrow> bool" where
  "utf8_second a b \<longleftrightarrow>
     (if a = 0xE0 then 0xA0 \<le> b \<and> b \<le> 0xBF
      else if a = 0xED then 0x80 \<le> b \<and> b \<le> 0x9F
      else if a = 0xF0 then 0x90 \<le> b \<and> b \<le> 0xBF
      else if a = 0xF4 then 0x80 \<le> b \<and> b \<le> 0x8F
      else utf8_cont b)"

text \<open>
  The sequence at the start of the bytes: its length if it is valid, and otherwise the length of
  the maximal invalid one.
\<close>

definition utf8_lead :: "byte list \<Rightarrow> nat + nat" where
  "utf8_lead s =
     (case s of
        [] \<Rightarrow> Inl 0
      | a # r \<Rightarrow>
          if a < 0x80 then Inr 1
          else if 0xC2 \<le> a \<and> a \<le> 0xDF then
            (case r of b # _ \<Rightarrow> if utf8_cont b then Inr 2 else Inl 1 | [] \<Rightarrow> Inl 1)
          else if 0xE0 \<le> a \<and> a \<le> 0xEF then
            (case r of
               b # r' \<Rightarrow>
                 if utf8_second a b
                 then (case r' of c # _ \<Rightarrow> if utf8_cont c then Inr 3 else Inl 2 | [] \<Rightarrow> Inl 2)
                 else Inl 1
             | [] \<Rightarrow> Inl 1)
          else if 0xF0 \<le> a \<and> a \<le> 0xF4 then
            (case r of
               b # r' \<Rightarrow>
                 if utf8_second a b
                 then (case r' of
                         c # r'' \<Rightarrow>
                           if utf8_cont c
                           then (case r'' of d # _ \<Rightarrow> if utf8_cont d then Inr 4 else Inl 3 | [] \<Rightarrow> Inl 3)
                           else Inl 2
                       | [] \<Rightarrow> Inl 2)
                 else Inl 1
             | [] \<Rightarrow> Inl 1)
          else Inl 1)"

definition REPLACEMENT :: "byte list" where
  "REPLACEMENT = [0xEF, 0xBF, 0xBD]"

lemma utf8_lead_pos: "utf8_lead (a # r) = Inl n \<Longrightarrow> 0 < n" "utf8_lead (a # r) = Inr n \<Longrightarrow> 0 < n"
  unfolding utf8_lead_def by (auto split: list.splits if_splits)

function utf8_valid :: "byte list \<Rightarrow> bool" where
  "utf8_valid [] = True"
| "utf8_valid (a # r) = (case utf8_lead (a # r) of Inl n \<Rightarrow> False | Inr n \<Rightarrow> utf8_valid (drop n (a # r)))"
  by pat_completeness auto
termination
  by (relation "measure length") (auto dest!: utf8_lead_pos)

function utf8_lossy :: "byte list \<Rightarrow> byte list" where
  "utf8_lossy [] = []"
| "utf8_lossy (a # r) =
     (case utf8_lead (a # r) of
        Inl n \<Rightarrow> REPLACEMENT @ utf8_lossy (drop n (a # r))
      | Inr n \<Rightarrow> take n (a # r) @ utf8_lossy (drop n (a # r)))"
  by pat_completeness auto
termination
  by (relation "measure length") (auto dest!: utf8_lead_pos)

lemma utf8_lossy_valid: "utf8_valid s \<Longrightarrow> utf8_lossy s = s"
proof (induction s rule: utf8_valid.induct)
  case (2 a r)
  then show ?case by (auto split: sum.splits)
qed simp

lemma utf8_lead_ascii: "a < 0x80 \<Longrightarrow> utf8_lead (a # r) = Inr 1"
  by (simp add: utf8_lead_def)

lemma utf8_ascii: "\<forall>b \<in> set bs. b < 0x80 \<Longrightarrow> utf8_valid bs"
  by (induction bs) (simp_all add: utf8_lead_ascii)

end
