(* ===== verification/Proxy_Proto.thy ===== *)
theory Proxy_Proto
  imports Ip_Text Utf8
begin

text \<open>
  The PROXY protocol header (\<open>proxy_proto.rs\<close>): the builders of both versions and the parser of
  an incoming header, on the bytes of the stream. A parser returns the addresses, if the header
  carries any, with the bytes that are left for the layers above, or the error that closes the
  connection.
\<close>

unbundle bit_operations_syntax

section \<open>Words and bytes\<close>

definition to_be_bytes :: "u16 \<Rightarrow> byte list" where
  "to_be_bytes w = [ucast (drop_bit 8 w), ucast w]"

definition from_be_bytes :: "byte \<Rightarrow> byte \<Rightarrow> u16" where
  "from_be_bytes a b = push_bit 8 (ucast a) OR ucast b"

text \<open>\<open>Ipv4Addr::octets\<close> and \<open>Ipv6Addr::octets\<close>, and their inverses.\<close>

definition octets_of :: "nat \<Rightarrow> nat \<Rightarrow> byte list" where
  "octets_of n x = map of_nat (be_digits 256 n x)"

definition value_of :: "byte list \<Rightarrow> nat" where
  "value_of bs = be_value 256 (map unat bs)"

section \<open>Builders\<close>

type_synonym socket_addr = "ip_addr \<times> u16"

datatype proxy_version = PV1 | PV2

definition build_v1 :: "socket_addr \<Rightarrow> socket_addr \<Rightarrow> byte list" where
  "build_v1 src dst =
     (let proto = (case fst src of V4 _ \<Rightarrow> ''TCP4'' | V6 _ \<Rightarrow> ''TCP6'')
      in bytes_of (''PROXY '' @ proto @ '' '' @ show_ip (fst src) @ '' '' @ show_ip (fst dst) @ '' ''
           @ show_nat (unat (snd src)) @ '' '' @ show_nat (unat (snd dst))) @ [0x0D, 0x0A])"

definition V2_SIGNATURE :: "byte list" where
  "V2_SIGNATURE = [0x0D, 0x0A, 0x0D, 0x0A, 0x00, 0x0D, 0x0A, 0x51, 0x55, 0x49, 0x54, 0x0A]"

definition build_v2 :: "socket_addr \<Rightarrow> socket_addr \<Rightarrow> byte list" where
  "build_v2 src dst =
     V2_SIGNATURE @ [0x21] @
     (case (fst src, fst dst) of
        (V4 s, V4 d) \<Rightarrow>
          [0x11] @ to_be_bytes 12 @ octets_of 4 (unat s) @ octets_of 4 (unat d)
          @ to_be_bytes (snd src) @ to_be_bytes (snd dst)
      | (V6 s, V6 d) \<Rightarrow>
          [0x21] @ to_be_bytes 36 @ octets_of 16 (unat s) @ octets_of 16 (unat d)
          @ to_be_bytes (snd src) @ to_be_bytes (snd dst)
      | _ \<Rightarrow> [0x00] @ to_be_bytes 0)"

definition build_header :: "proxy_version \<Rightarrow> socket_addr \<Rightarrow> socket_addr \<Rightarrow> byte list" where
  "build_header v src dst = (case v of PV1 \<Rightarrow> build_v1 src dst | PV2 \<Rightarrow> build_v2 src dst)"

definition build_v1_unknown :: "byte list" where
  "build_v1_unknown = bytes_of ''PROXY UNKNOWN'' @ [0x0D, 0x0A]"

definition build_v2_unspec :: "byte list" where
  "build_v2_unspec = V2_SIGNATURE @ [0x21] @ [0x00] @ to_be_bytes 0"

text \<open>One slot of 108 bytes: the path cut at 107 and padded with zeros.\<close>

definition unix_slot :: "byte list option \<Rightarrow> byte list" where
  "unix_slot p =
     (case p of
        None \<Rightarrow> replicate 108 0
      | Some raw \<Rightarrow> (let n = min (length raw) 107 in take n raw @ replicate (108 - n) 0))"

definition build_v2_unix :: "byte list option \<Rightarrow> byte list option \<Rightarrow> byte list" where
  "build_v2_unix src dst = V2_SIGNATURE @ [0x21] @ [0x31] @ to_be_bytes 216 @ unix_slot src @ unix_slot dst"

section \<open>The parser\<close>

datatype proxy_error =
    Unexpected_eof
  | Header_too_long
  | Not_utf8
  | Missing_prefix
  | Bad_v1
  | Bad_signature
  | Bad_version
  | Bad_command
  | Block_too_short

type_synonym proxy_result = "proxy_error + ((socket_addr \<times> socket_addr) option \<times> byte list)"

text \<open>The byte-wise loop: the room left in the buffer, the bytes read, the stream.\<close>

fun read_line :: "nat \<Rightarrow> byte list \<Rightarrow> byte list \<Rightarrow> proxy_error + (byte list \<times> byte list)" where
  "read_line 0 buf s = Inl Header_too_long"
| "read_line (Suc k) buf [] = Inl Unexpected_eof"
| "read_line (Suc k) buf (b # s) =
     (let buf' = buf @ [b]; pos = length buf'
      in if 2 \<le> pos \<and> buf' ! (pos - 2) = 0x0D \<and> buf' ! (pos - 1) = 0x0A
         then Inr (take (pos - 2) buf', s)
         else read_line k buf' s)"

definition part :: "string list \<Rightarrow> nat \<Rightarrow> proxy_error + string" where
  "part ps i = (if i < length ps then Inr (ps ! i) else Inl Bad_v1)"

definition or_bad :: "'a option \<Rightarrow> proxy_error + 'a" where
  "or_bad x = (case x of Some a \<Rightarrow> Inr a | None \<Rightarrow> Inl Bad_v1)"

definition v1_addresses ::
  "string \<Rightarrow> string \<Rightarrow> string \<Rightarrow> nat \<Rightarrow> nat \<Rightarrow> proxy_error + (socket_addr \<times> socket_addr)" where
  "v1_addresses proto src_s dst_s sport dport =
     (if proto = ''TCP4'' then
        bind_result (or_bad (parse_v4 src_s)) (\<lambda>s.
          bind_result (or_bad (parse_v4 dst_s)) (\<lambda>d.
            Inr ((V4 s, of_nat sport), (V4 d, of_nat dport))))
      else if proto = ''TCP6'' then
        bind_result (or_bad (parse_v6 src_s)) (\<lambda>s.
          bind_result (or_bad (parse_v6 dst_s)) (\<lambda>d.
            Inr ((V6 s, of_nat sport), (V6 d, of_nat dport))))
      else Inl Bad_v1)"

definition parse_line :: "string \<Rightarrow> proxy_error + (socket_addr \<times> socket_addr) option" where
  "parse_line line =
     (let ps = splitn_on 6 CHR '' '' line in
      if ps ! 0 \<noteq> ''PROXY'' then Inl Missing_prefix
      else
        let proto = (if 1 < length ps then ps ! 1 else []) in
        if proto = ''UNKNOWN'' then Inr None
        else
          bind_result (part ps 2) (\<lambda>src_s.
          bind_result (part ps 3) (\<lambda>dst_s.
          bind_result (bind_result (part ps 4) (\<lambda>p. or_bad (parse_uint u16_max p))) (\<lambda>sport.
          bind_result (bind_result (part ps 5) (\<lambda>p. or_bad (parse_uint u16_max p))) (\<lambda>dport.
          bind_result (v1_addresses proto src_s dst_s sport dport) (\<lambda>a. Inr (Some a)))))))"

definition parse_v1_header :: "byte list \<Rightarrow> proxy_result" where
  "parse_v1_header s =
     bind_result (read_line 108 [] s) (\<lambda>(line, rest).
       if \<not> utf8_valid line then Inl Not_utf8
       else bind_result (parse_line (string_of_bytes line)) (\<lambda>a. Inr (a, rest)))"

definition v2_addresses :: "byte \<Rightarrow> byte list \<Rightarrow> proxy_error + (socket_addr \<times> socket_addr) option" where
  "v2_addresses family block =
     (if family = 0 then Inr None
      else if family = 1 then
        (if length block < 12 then Inl Block_too_short
         else Inr (Some ((V4 (of_nat (value_of (take 4 block))), from_be_bytes (block ! 8) (block ! 9)),
                         (V4 (of_nat (value_of (take 4 (drop 4 block)))), from_be_bytes (block ! 10) (block ! 11)))))
      else if family = 2 then
        (if length block < 36 then Inl Block_too_short
         else Inr (Some ((V6 (of_nat (value_of (take 16 block))), from_be_bytes (block ! 32) (block ! 33)),
                         (V6 (of_nat (value_of (take 16 (drop 16 block)))), from_be_bytes (block ! 34) (block ! 35)))))
      else Inr None)"

definition parse_v2_header :: "byte list \<Rightarrow> proxy_result" where
  "parse_v2_header s =
     (if length s < 16 then Inl Unexpected_eof
      else if take 12 s \<noteq> V2_SIGNATURE then Inl Bad_signature
      else
        let ver = drop_bit 4 (s ! 12); cmd = s ! 12 AND 0x0F in
        if ver \<noteq> 2 then Inl Bad_version
        else
          let family = drop_bit 4 (s ! 13);
              addr_len = unat (from_be_bytes (s ! 14) (s ! 15));
              s' = drop 16 s
          in if length s' < addr_len then Inl Unexpected_eof
             else
               let block = take addr_len s'; rest = drop addr_len s' in
               if cmd = 0 then Inr (None, rest)
               else if cmd \<noteq> 1 then Inl Bad_command
               else bind_result (v2_addresses family block) (\<lambda>a. Inr (a, rest)))"

definition parse_incoming :: "proxy_version \<Rightarrow> byte list \<Rightarrow> proxy_result" where
  "parse_incoming v s = (case v of PV1 \<Rightarrow> parse_v1_header s | PV2 \<Rightarrow> parse_v2_header s)"

section \<open>Lemmas\<close>

lemma from_to_be_bytes: "from_be_bytes (ucast (drop_bit 8 w)) (ucast w) = w"
  unfolding from_be_bytes_def by (rule bit_word_eqI) (auto simp: bit_simps)

lemma length_octets [simp]: "length (octets_of n x) = n"
  by (simp add: octets_of_def)

lemma value_octets: "value_of (octets_of n x) = x mod 256 ^ n"
proof -
  have "map unat (octets_of n x) = be_digits 256 n x"
    unfolding octets_of_def using be_digits_less[of 256 _ n x]
    by (simp add: map_idI unat_of_nat comp_def)
  then show ?thesis by (simp add: value_of_def be_value_digits)
qed

lemma value_octets_word:
  "of_nat (value_of (octets_of 4 (unat (a :: 32 word)))) = a"
  "of_nat (value_of (octets_of 16 (unat (b :: 128 word)))) = b"
  using unsigned_less[of a, where 'a = nat] unsigned_less[of b, where 'a = nat] by (simp_all add: value_octets)

definition same_family :: "ip_addr \<Rightarrow> ip_addr \<Rightarrow> bool" where
  "same_family a b = (case (a, b) of (V4 _, V4 _) \<Rightarrow> True | (V6 _, V6 _) \<Rightarrow> True | _ \<Rightarrow> False)"

subsection \<open>Version 2\<close>

text \<open>The header as its fixed part and its block.\<close>

lemma parse_v2_block:
  assumes "length block < 65536"
  shows "parse_v2_header (V2_SIGNATURE @ [0x21, fam] @ to_be_bytes (of_nat (length block)) @ block @ rest)
    = bind_result (v2_addresses (drop_bit 4 fam) block) (\<lambda>a. Inr (a, rest))"
proof -
  let ?s = "V2_SIGNATURE @ [0x21, fam] @ to_be_bytes (of_nat (length block)) @ block @ rest"
  have s: "take 12 ?s = V2_SIGNATURE" "?s ! 12 = 0x21" "?s ! 13 = fam" "drop 16 ?s = block @ rest"
    "from_be_bytes (?s ! 14) (?s ! 15) = of_nat (length block)" "\<not> length ?s < 16"
    by (simp_all add: V2_SIGNATURE_def to_be_bytes_def from_to_be_bytes)
  have l: "unat (of_nat (length block) :: u16) = length block" using assms by (simp add: unat_of_nat)
  show ?thesis
    unfolding parse_v2_header_def s Let_def l using s(6) by simp
qed

lemma v2_inet:
  "v2_addresses 1 (octets_of 4 (unat s) @ octets_of 4 (unat d) @ to_be_bytes sp @ to_be_bytes dp)
     = Inr (Some ((V4 s, sp), (V4 d, dp)))"
  by (simp add: v2_addresses_def to_be_bytes_def from_to_be_bytes value_octets_word nth_append)

lemma v2_inet6:
  "v2_addresses 2 (octets_of 16 (unat s) @ octets_of 16 (unat d) @ to_be_bytes sp @ to_be_bytes dp)
     = Inr (Some ((V6 s, sp), (V6 d, dp)))"
  by (simp add: v2_addresses_def to_be_bytes_def from_to_be_bytes value_octets_word nth_append)

lemma v2_roundtrip:
  "parse_v2_header (build_v2 src dst @ rest) =
     Inr (if same_family (fst src) (fst dst) then Some (src, dst) else None, rest)"
proof -
  obtain sip sp dip dp where a: "src = (sip, sp)" "dst = (dip, dp)" by (cases src, cases dst)
  have none: "parse_v2_header (V2_SIGNATURE @ [0x21, 0] @ to_be_bytes 0 @ rest) = Inr (None, rest)"
    using parse_v2_block[of "[]" 0 rest] by (simp add: v2_addresses_def)
  show ?thesis
  proof (cases sip)
    case s: (V4 x)
    show ?thesis
    proof (cases dip)
      case (V4 y)
      let ?b = "octets_of 4 (unat x) @ octets_of 4 (unat y) @ to_be_bytes sp @ to_be_bytes dp"
      have "parse_v2_header (V2_SIGNATURE @ [0x21, 0x11] @ to_be_bytes 12 @ ?b @ rest) = Inr (Some (src, dst), rest)"
        using parse_v2_block[of ?b "0x11" rest] v2_inet[of x y sp dp] s V4 a by (simp add: to_be_bytes_def)
      then show ?thesis using s V4 a by (simp add: build_v2_def same_family_def)
    qed (use s a none in \<open>simp add: build_v2_def same_family_def\<close>)
  next
    case s: (V6 x)
    show ?thesis
    proof (cases dip)
      case (V6 y)
      let ?b = "octets_of 16 (unat x) @ octets_of 16 (unat y) @ to_be_bytes sp @ to_be_bytes dp"
      have "parse_v2_header (V2_SIGNATURE @ [0x21, 0x21] @ to_be_bytes 36 @ ?b @ rest) = Inr (Some (src, dst), rest)"
        using parse_v2_block[of ?b "0x21" rest] v2_inet6[of x y sp dp] s V6 a by (simp add: to_be_bytes_def)
      then show ?thesis using s V6 a by (simp add: build_v2_def same_family_def)
    qed (use s a none in \<open>simp add: build_v2_def same_family_def\<close>)
  qed
qed

subsection \<open>Version 1\<close>

lemma read_line_step:
  assumes "0x0D \<notin> set buf"
  shows "read_line (Suc k) buf (b # s) = read_line k (buf @ [b]) s"
proof -
  have "\<not> (2 \<le> length (buf @ [b]) \<and> (buf @ [b]) ! (length (buf @ [b]) - 2) = 0x0D
      \<and> (buf @ [b]) ! (length (buf @ [b]) - 1) = 0x0A)"
    using assms by (cases buf rule: rev_cases) (auto simp: nth_append)
  then show ?thesis unfolding read_line.simps Let_def by (rule if_not_P)
qed

lemma read_line_stop: "read_line (Suc k) (buf @ [0x0D]) (0x0A # s) = Inr (buf, s)"
  by (simp add: nth_append)

lemma read_line_until:
  assumes "0x0D \<notin> set buf" "0x0D \<notin> set line" "length line + 2 \<le> k"
  shows "read_line k buf (line @ [0x0D, 0x0A] @ rest) = Inr (buf @ line, rest)"
  using assms
proof (induction line arbitrary: k buf)
  case Nil
  then obtain j where k: "k = Suc (Suc j)" by (cases k; cases "k - 1") auto
  have "read_line k buf ([0x0D, 0x0A] @ rest) = read_line (Suc j) (buf @ [0x0D]) (0x0A # rest)"
    using read_line_step[OF Nil.prems(1), of "Suc j" "0x0D" "0x0A # rest"] k by simp
  also have "\<dots> = Inr (buf, rest)" by (rule read_line_stop)
  finally show ?case by simp
next
  case (Cons b line)
  then obtain j where k: "k = Suc j" by (cases k) auto
  have "0x0D \<notin> set (buf @ [b])" "0x0D \<notin> set line" "length line + 2 \<le> j" using Cons.prems k by auto
  from Cons.IH[OF this] read_line_step[OF Cons.prems(1), of j b] k show ?case by simp
qed

lemma show_nat_length: "n < 65536 \<Longrightarrow> length (show_nat n) \<le> 5"
  using show_radix_length[of 10 n 5] by (simp add: show_radix_10)

text \<open>The text of a header has printable ASCII only, and fits the buffer.\<close>

definition v1_text :: "socket_addr \<Rightarrow> socket_addr \<Rightarrow> string" where
  "v1_text src dst =
     ''PROXY '' @ (case fst src of V4 _ \<Rightarrow> ''TCP4'' | V6 _ \<Rightarrow> ''TCP6'') @ '' '' @ show_ip (fst src) @ '' ''
     @ show_ip (fst dst) @ '' '' @ show_nat (unat (snd src)) @ '' '' @ show_nat (unat (snd dst))"

lemma digit_code: "c \<in> set (show_nat n) \<Longrightarrow> 46 \<le> (of_char c :: nat) \<and> (of_char c :: nat) < 128"
  using show_nat_digits[of n] by (fastforce simp: is_ascii_digit_def Let_def)

lemma v1_text_chars: "c \<in> set (v1_text src dst) \<Longrightarrow> 32 \<le> (of_char c :: nat) \<and> (of_char c :: nat) < 128"
  unfolding v1_text_def set_append
  using ip_char_code show_ip_chars digit_code
  by (elim UnE) (fastforce split: ip_addr.splits)+

lemma v1_text_length: "length (v1_text src dst) \<le> 106"
proof -
  have p: "length (show_nat (unat (w :: u16))) \<le> 5" for w
    using unsigned_less[of w, where 'a = nat] by (intro show_nat_length) simp
  show ?thesis
    using show_ip_length[of "fst src"] show_ip_length[of "fst dst"] p[of "snd src"] p[of "snd dst"]
    unfolding v1_text_def by (cases "fst src") simp_all
qed

lemma bytes_of_code:
  assumes "b \<in> set (bytes_of s)" "\<And>c. c \<in> set s \<Longrightarrow> 32 \<le> (of_char c :: nat) \<and> (of_char c :: nat) < 128"
  shows "32 \<le> b \<and> b < 0x80"
proof -
  obtain c where c: "c \<in> set s" "b = of_char c" using assms(1) by (auto simp: bytes_of_def)
  then have "unat b = of_char c" by simp
  then show ?thesis using assms(2)[OF c(1)] by (simp add: word_le_nat_alt word_less_nat_alt)
qed

lemma v1_line: "parse_v1_header (build_v1 src dst @ rest) =
   bind_result (parse_line (v1_text src dst)) (\<lambda>a. Inr (a, rest))"
proof -
  let ?b = "bytes_of (v1_text src dst)"
  have c: "32 \<le> b \<and> b < 0x80" if "b \<in> set ?b" for b
    using bytes_of_code[OF that] v1_text_chars by blast
  have "0x0D \<notin> set ?b" using c[of "0x0D"] by (auto simp: word_le_nat_alt)
  then have "read_line 108 [] (?b @ [0x0D, 0x0A] @ rest) = Inr ([] @ ?b, rest)"
    using v1_text_length[of src dst] by (intro read_line_until) auto
  moreover have "utf8_valid ?b" using c by (intro utf8_ascii) blast
  moreover have "build_v1 src dst @ rest = ?b @ [0x0D, 0x0A] @ rest"
    by (simp add: build_v1_def v1_text_def Let_def split: ip_addr.splits)
  ultimately show ?thesis by (simp add: parse_v1_header_def)
qed

lemma space_not_ip: "CHR '' '' \<notin> set (show_ip a)" "CHR '' '' \<notin> set (show_nat n)"
  using ip_char_code[OF show_ip_chars, of "CHR '' ''" a] digit_code[of "CHR '' ''" n] by auto

lemma splitn_six:
  assumes "\<forall>p \<in> {a, b, c, d, e}. CHR '' '' \<notin> set p"
  shows "splitn_on 6 CHR '' '' (a @ CHR '' '' # b @ CHR '' '' # c @ CHR '' '' # d @ CHR '' '' # e @ CHR '' '' # f)
    = [a, b, c, d, e, f]"
  using assms by (simp add: numeral_eq_Suc split_once_append)

lemma parse_line_text:
  "parse_line (v1_text (s, sp) (d, dp)) =
     bind_result (v1_addresses (case s of V4 _ \<Rightarrow> ''TCP4'' | V6 _ \<Rightarrow> ''TCP6'') (show_ip s) (show_ip d) (unat sp) (unat dp))
       (\<lambda>a. Inr (Some a))"
proof -
  let ?p = "case s of V4 _ \<Rightarrow> ''TCP4'' | V6 _ \<Rightarrow> ''TCP6''"
  let ?ps = "[''PROXY'', ?p, show_ip s, show_ip d, show_nat (unat sp), show_nat (unat dp)]"
  have t: "v1_text (s, sp) (d, dp) = ''PROXY'' @ CHR '' '' # ?p @ CHR '' '' # show_ip s @ CHR '' '' # show_ip d
      @ CHR '' '' # show_nat (unat sp) @ CHR '' '' # show_nat (unat dp)" by (simp add: v1_text_def)
  have p: "CHR '' '' \<notin> set ?p" "?p \<noteq> ''UNKNOWN''" by (simp_all split: ip_addr.splits)
  have "splitn_on 6 CHR '' '' (v1_text (s, sp) (d, dp)) = ?ps"
    unfolding t using p(1) space_not_ip by (intro splitn_six) auto
  moreover have "parse_uint u16_max (show_nat (unat w)) = Some (unat w)" for w :: u16
    using unsigned_less[of w, where 'a = nat] by (intro parse_show_nat) simp
  ultimately show ?thesis
    using p(2) unfolding parse_line_def by (simp add: part_def or_bad_def)
qed

lemma v1_roundtrip:
  "parse_v1_header (build_v1 src dst @ rest) =
     (if same_family (fst src) (fst dst) then Inr (Some (src, dst), rest) else Inl Bad_v1)"
proof -
  obtain sip sp dip dp where a: "src = (sip, sp)" "dst = (dip, dp)" by (cases src, cases dst)
  show ?thesis
    unfolding v1_line a parse_line_text
    by (cases sip; cases dip)
      (simp_all add: v1_addresses_def show_ip_def or_bad_def parse_show_v4 parse_show_v6 parse_v4_of_v6
        parse_v6_of_v4 same_family_def)
qed

section \<open>Properties\<close>

text \<open>
  C26. A PROXY header that the server builds is read back: for addresses of one family the parser
  returns both addresses and ports and leaves exactly the bytes that follow the header. For
  addresses of different families version 2 is read as a header without addresses, and the
  version 1 header is rejected as malformed.
\<close>

theorem proxy_header_roundtrip:
  "parse_incoming v (build_header v src dst @ rest) =
     (if same_family (fst src) (fst dst) then Inr (Some (src, dst), rest)
      else case v of PV1 \<Rightarrow> Inl Bad_v1 | PV2 \<Rightarrow> Inr (None, rest))"
  by (cases v) (simp_all add: parse_incoming_def build_header_def v1_roundtrip v2_roundtrip)

lemma length_unix_slot [simp]: "length (unix_slot p) = 108"
  by (cases p) (auto simp: unix_slot_def Let_def min_def)

text \<open>The headers without Internet addresses keep the peer address and consume only themselves.\<close>

lemma unknown_headers:
  "parse_v1_header (build_v1_unknown @ rest) = Inr (None, rest)"
  "parse_v2_header (build_v2_unspec @ rest) = Inr (None, rest)"
  "parse_v2_header (build_v2_unix a b @ rest) = Inr (None, rest)"
proof -
  have "read_line 108 [] (bytes_of ''PROXY UNKNOWN'' @ [0x0D, 0x0A] @ rest) = Inr ([] @ bytes_of ''PROXY UNKNOWN'', rest)"
    by (rule read_line_until) (simp_all add: bytes_of_def)
  moreover have "utf8_valid (bytes_of ''PROXY UNKNOWN'')" by (rule utf8_ascii) (simp add: bytes_of_def)
  moreover have "parse_line ''PROXY UNKNOWN'' = Inr None" by (simp add: parse_line_def numeral_eq_Suc)
  ultimately show "parse_v1_header (build_v1_unknown @ rest) = Inr (None, rest)"
    by (simp add: parse_v1_header_def build_v1_unknown_def)
  show "parse_v2_header (build_v2_unspec @ rest) = Inr (None, rest)"
    using parse_v2_block[of "[]" 0 rest] by (simp add: build_v2_unspec_def v2_addresses_def)
  show "parse_v2_header (build_v2_unix a b @ rest) = Inr (None, rest)"
    using parse_v2_block[of "unix_slot a @ unix_slot b" "0x31" rest]
    by (simp add: build_v2_unix_def v2_addresses_def)
qed

end
