(* ===== verification/Replies.thy ===== *)
theory Replies
  imports Http
begin

text \<open>
  The responses that the server makes itself (\<open>error.rs\<close>): a status, the headers in the order the
  builder adds them, and a body that is either in memory or read from a file while it is sent.
  Custom error pages are looked up per status; reading a page from disk is an argument.
\<close>

section \<open>Replies\<close>

datatype reply_body =
    BytesBody string
  | FileSlice string nat "nat option"

record reply =
  rp_status :: nat
  rp_headers :: "(string \<times> string) list"
  rp_body :: reply_body

definition html_response :: "nat \<Rightarrow> string \<Rightarrow> reply" where
  "html_response status body =
     \<lparr>rp_status = status, rp_headers = [(''Content-Type'', ''text/html; charset=utf-8'')],
      rp_body = BytesBody body\<rparr>"

definition response_400 :: reply where
  "response_400 = html_response 400 ''<h1>400 Bad Request</h1>''"

definition response_403 :: reply where
  "response_403 = html_response 403 ''<h1>403 Forbidden</h1>''"

definition NO_INDEX_403_BODY :: string where
  "NO_INDEX_403_BODY =
     ''<!doctype html><html lang=\"en\"><head><meta charset=\"utf-8\"><meta name=\"viewport\" content=\"'' @
     ''width=device-width, initial-scale=1\"><title>403 - nothing to serve here</title><style>body'' @
     ''{font-family:system-ui,sans-serif;max-width:40rem;margin:4rem auto;padding:0 1rem;line-hei'' @
     ''ght:1.5;color:#222}h1{font-size:1.4rem}code{background:#f3f3f3;padding:.1em .35em;border-r'' @
     ''adius:4px}ul{padding-left:1.2rem}footer{margin-top:2rem;color:#888;font-size:.85rem}</styl'' @
     ''e></head><body><h1>403 &mdash; nothing to serve here</h1><p>This location maps to a direct'' @
     ''ory that has no index file, and directory listing is disabled.</p><p>To serve content, do '' @
     ''one of:</p><ul><li>add an <code>index.html</code> (or <code>index.htm</code>) to the direc'' @
     ''tory;</li><li>enable a listing with <code>directory-listing=#true</code>;</li><li>redirect'' @
     '' elsewhere with <code>fallback-redirect=\"&hellip;\"</code>.</li></ul><footer>hypershunt</fo'' @
     ''oter></body></html>''"

definition response_403_no_index :: reply where
  "response_403_no_index = html_response 403 NO_INDEX_403_BODY"

definition response_404 :: reply where
  "response_404 = html_response 404 ''<h1>404 Not Found</h1>''"

definition response_413 :: reply where
  "response_413 = html_response 413 ''<h1>413 Content Too Large</h1>''"

definition response_500 :: reply where
  "response_500 = html_response 500 ''<h1>500 Internal Server Error</h1>''"

definition response_502 :: reply where
  "response_502 = html_response 502 ''<h1>502 Bad Gateway</h1>''"

definition response_416 :: "nat \<Rightarrow> reply" where
  "response_416 total_len =
     \<lparr>rp_status = 416, rp_headers = [(''Content-Range'', ''bytes */'' @ show_nat total_len)],
      rp_body = BytesBody ''<h1>416 Range Not Satisfiable</h1>''\<rparr>"

definition response_429 :: "nat \<Rightarrow> reply" where
  "response_429 secs =
     \<lparr>rp_status = 429,
      rp_headers = [(''Retry-After'', show_nat secs), (''Content-Type'', ''text/html; charset=utf-8'')],
      rp_body = BytesBody ''<h1>429 Too Many Requests</h1>''\<rparr>"

definition response_503_retry :: "nat \<Rightarrow> reply" where
  "response_503_retry secs =
     \<lparr>rp_status = 503,
      rp_headers = [(''Retry-After'', show_nat secs), (''Content-Type'', ''text/html; charset=utf-8'')],
      rp_body = BytesBody ''<h1>503 Service Unavailable</h1>''\<rparr>"

section \<open>Error pages\<close>

datatype error_page = PageFile string | PageInline string

type_synonym error_pages = "nat \<rightharpoonup> error_page"

definition get_page :: "(string \<Rightarrow> string option) \<Rightarrow> error_pages \<Rightarrow> nat \<Rightarrow> string option" where
  "get_page read pages code =
     (case pages code of
        None \<Rightarrow> None
      | Some (PageInline b) \<Rightarrow> Some b
      | Some (PageFile path) \<Rightarrow> read path)"

definition page_body :: "(string \<Rightarrow> string option) \<Rightarrow> error_pages option \<Rightarrow> nat \<Rightarrow> string \<Rightarrow> string" where
  "page_body read pages code fallback =
     (case Option.bind pages (\<lambda>p. get_page read p code) of Some b \<Rightarrow> b | None \<Rightarrow> fallback)"

text \<open>\<open>StatusCode::from_u16\<close> accepts 100 to 999; the builder fails on any other code.\<close>

definition valid_status :: "nat \<Rightarrow> bool" where
  "valid_status code \<longleftrightarrow> 100 \<le> code \<and> code < 1000"

definition response_status :: "(string \<Rightarrow> string option) \<Rightarrow> nat \<Rightarrow> error_pages option \<Rightarrow> reply" where
  "response_status read code pages =
     (if valid_status code
      then html_response code (page_body read pages code (''<h1>'' @ show_nat code @ ''</h1>''))
      else html_response 403 ''<h1>403 Forbidden</h1>'')"

text \<open>
  A header value the builder accepts (\<open>HeaderValue::from_str\<close>): no control characters but the tab.
  The two responses below carry text from elsewhere and \<open>expect\<close> that it is such a value; \<open>None\<close> is
  the panic.
\<close>

definition header_text :: "string \<Rightarrow> bool" where
  "header_text v \<longleftrightarrow> list_all (\<lambda>c. (32 \<le> (of_char c :: nat) \<and> (of_char c :: nat) \<noteq> 127) \<or> c = CHR 0x09) v"

fun escape_chars :: "char set \<Rightarrow> string \<Rightarrow> string" where
  "escape_chars cs [] = []"
| "escape_chars cs (c # s) = (if c \<in> cs then [CHR 0x5C, c] else [c]) @ escape_chars cs s"

definition quote_realm :: "string \<Rightarrow> string" where
  "quote_realm realm = escape_chars {CHR 0x22} (escape_chars {CHR 0x5C} realm)"

definition response_www_auth ::
  "(string \<Rightarrow> string option) \<Rightarrow> string \<Rightarrow> error_pages option \<Rightarrow> reply option" where
  "response_www_auth read realm pages =
     (let v = ''Basic realm='' @ [CHR 0x22] @ quote_realm realm @ [CHR 0x22] in
      if header_text v
      then Some \<lparr>rp_status = 401,
             rp_headers = [(''WWW-Authenticate'', v), (''Content-Type'', ''text/html; charset=utf-8'')],
             rp_body = BytesBody (page_body read pages 401 ''<h1>401 Unauthorized</h1>'')\<rparr>
      else None)"

definition response_redirect :: "string \<Rightarrow> nat \<Rightarrow> reply option" where
  "response_redirect to code =
     (if valid_status code \<and> header_text to
      then Some \<lparr>rp_status = code, rp_headers = [(''Location'', to)], rp_body = BytesBody []\<rparr>
      else None)"

section \<open>The realm survives quoting\<close>

text \<open>Reading a quoted-string: a backslash stands for the character after it.\<close>

fun unquote :: "string \<Rightarrow> string" where
  "unquote [] = []"
| "unquote [c] = [c]"
| "unquote (c # d # s) = (if c = CHR 0x5C then d # unquote s else c # unquote (d # s))"

text \<open>The two replacements in sequence are one that escapes both characters.\<close>

lemma quote_realm_both: "quote_realm s = escape_chars {CHR 0x22, CHR 0x5C} s"
  unfolding quote_realm_def by (induction s) auto

lemma unquote_Cons: "c \<noteq> CHR 0x5C \<Longrightarrow> unquote (c # s) = c # unquote s"
  by (cases s) auto

lemma unquote_escape: "unquote (escape_chars {CHR 0x22, CHR 0x5C} s) = s"
  by (induction s) (auto simp: unquote_Cons)

lemma quote_realm_closed:
  "unquote (quote_realm s) = s"
  "\<forall>a b. quote_realm s = a @ CHR 0x22 # b \<longrightarrow> (\<exists>a'. a = a' @ [CHR 0x5C])"
proof -
  show "unquote (quote_realm s) = s" by (simp add: quote_realm_both unquote_escape)
  have "\<exists>a'. a = a' @ [CHR 0x5C]" if "escape_chars {CHR 0x22, CHR 0x5C} s = a @ CHR 0x22 # b" for a b
    using that
  proof (induction s arbitrary: a)
    case (Cons c s)
    show ?case
    proof (cases "c \<in> {CHR 0x22, CHR 0x5C}")
      case True
      with Cons.prems consider "a = [CHR 0x5C]" | a' where "a = CHR 0x5C # c # a'" "escape_chars {CHR 0x22, CHR 0x5C} s = a' @ CHR 0x22 # b"
        by (auto simp: Cons_eq_append_conv)
      then show ?thesis using Cons.IH by cases force+
    next
      case False
      with Cons.prems obtain a' where "a = c # a'" "escape_chars {CHR 0x22, CHR 0x5C} s = a' @ CHR 0x22 # b"
        by (auto simp: Cons_eq_append_conv)
      then show ?thesis using Cons.IH by force
    qed
  qed simp
  then show "\<forall>a b. quote_realm s = a @ CHR 0x22 # b \<longrightarrow> (\<exists>a'. a = a' @ [CHR 0x5C])"
    by (simp add: quote_realm_both)
qed

end
