(* ===== verification/Static_Files.thy ===== *)
theory Static_Files
  imports Router Replies Utf8
begin

text \<open>
  The static file handler (\<open>handler/static_files.rs\<close>): joining the request path to the root,
  the checks on the canonical path, index files, try-files, user directories, conditional and
  range requests, the directory listing and the body that streams a file.

  The file system, the user database and the MIME table are arguments: the records \<open>fs_ops\<close> and
  \<open>user_db\<close> and the function \<open>mime\<close>. A request sees one state of the file system. The text of a
  size in the listing (\<open>format_size\<close>, a floating-point format) is an argument too.
\<close>

section \<open>Paths\<close>

text \<open>\<open>Path::join\<close>: an absolute second part replaces the first.\<close>

definition path_join :: "string \<Rightarrow> string \<Rightarrow> string" where
  "path_join a b =
     (if starts_with b ''/'' then b
      else if a \<noteq> [] \<and> last a \<noteq> CHR ''/'' then a @ ''/'' @ b
      else a @ b)"

text \<open>\<open>Path::components\<close>: repeated separators and inner \<open>.\<close> disappear, \<open>..\<close> stays.\<close>

definition plain_segments :: "string list \<Rightarrow> string list" where
  "plain_segments ss = filter (\<lambda>s. s \<noteq> [] \<and> s \<noteq> ''.'') ss"

definition components :: "string \<Rightarrow> string list" where
  "components p =
     (if starts_with p ''/'' then ''/'' # plain_segments (split_on CHR ''/'' p)
      else case split_on CHR ''/'' p of
             [] \<Rightarrow> []
           | s # ss \<Rightarrow> (if s = ''.'' then [s] else plain_segments [s]) @ plain_segments ss)"

definition path_starts_with :: "string \<Rightarrow> string \<Rightarrow> bool" where
  "path_starts_with p base = starts_with (components p) (components base)"

definition below :: "string \<Rightarrow> string \<Rightarrow> string list" where
  "below p base =
     (case strip_prefix (components base) (components p) of Some r \<Rightarrow> r | None \<Rightarrow> components p)"

section \<open>Decoding and encoding\<close>

definition hex_nibble :: "byte \<Rightarrow> byte option" where
  "hex_nibble b =
     (if 0x30 \<le> b \<and> b \<le> 0x39 then Some (b - 0x30)
      else if 0x61 \<le> b \<and> b \<le> 0x66 then Some (b - 0x61 + 10)
      else if 0x41 \<le> b \<and> b \<le> 0x46 then Some (b - 0x41 + 10)
      else None)"

text \<open>The loop of \<open>percent_decode\<close> on the bytes that are left.\<close>

fun decode_bytes :: "byte list \<Rightarrow> byte list" where
  "decode_bytes (b # x # y # r) =
     (if b = 0x25 then
        (case (hex_nibble x, hex_nibble y) of
           (Some h, Some l) \<Rightarrow> or (push_bit 4 h) l # decode_bytes r
         | _ \<Rightarrow> b # decode_bytes (x # y # r))
      else b # decode_bytes (x # y # r))"
| "decode_bytes (b # r) = b # decode_bytes r"
| "decode_bytes [] = []"

definition percent_decode :: "string \<Rightarrow> string" where
  "percent_decode s = string_of_bytes (utf8_lossy (decode_bytes (bytes_of s)))"

definition unreserved :: "byte \<Rightarrow> bool" where
  "unreserved b \<longleftrightarrow>
     (0x41 \<le> b \<and> b \<le> 0x5A) \<or> (0x61 \<le> b \<and> b \<le> 0x7A) \<or> (0x30 \<le> b \<and> b \<le> 0x39)
     \<or> b \<in> {0x2D, 0x5F, 0x2E, 0x7E}"

definition upper_hex :: "byte \<Rightarrow> byte" where
  "upper_hex d = (if d < 10 then 0x30 + d else 0x37 + d)"

definition url_encode_segment :: "string \<Rightarrow> string" where
  "url_encode_segment s =
     string_of_bytes (concat (map (\<lambda>b. if unreserved b then [b]
        else [0x25, upper_hex (drop_bit 4 b), upper_hex (and b 0x0F)]) (bytes_of s)))"

fun html_char :: "char \<Rightarrow> string" where
  "html_char c =
     (if c = CHR ''&'' then ''&amp;''
      else if c = CHR ''<'' then ''&lt;''
      else if c = CHR ''>'' then ''&gt;''
      else if c = CHR 0x22 then ''&quot;''
      else if c = CHR 0x27 then ''&#39;''
      else [c])"

definition html_escape :: "string \<Rightarrow> string" where
  "html_escape s = concat (map html_char s)"

definition safe_join :: "string \<Rightarrow> string \<Rightarrow> string option" where
  "safe_join base up =
     (if CHR 0x00 \<in> set up then None
      else
        let decoded = percent_decode up in
        if ''..'' \<in> set (split_on CHR ''/'' decoded) then None
        else Some (path_join base (trim_start_char CHR ''/'' decoded)))"

section \<open>Files\<close>

record file_meta =
  md_is_dir :: bool
  md_is_file :: bool
  md_len :: nat
  md_mtime :: "nat option"

record fs_ops =
  fs_canonicalize :: "string \<Rightarrow> string option"
  fs_metadata :: "string \<Rightarrow> file_meta option"
  fs_open :: "string \<Rightarrow> bool"
  fs_seek :: "string \<Rightarrow> nat \<Rightarrow> bool"
  fs_read_dir :: "string \<Rightarrow> (string \<times> file_meta option) list option"

type_synonym user_db = "string \<rightharpoonup> nat \<times> string"

definition compute_etag :: "file_meta \<Rightarrow> string" where
  "compute_etag m =
     [CHR 0x22] @ show_nat (case md_mtime m of Some t \<Rightarrow> t | None \<Rightarrow> 0) @ ''-'' @ show_nat (md_len m) @ [CHR 0x22]"

definition is_not_modified :: "'h header_ops \<Rightarrow> 'h \<Rightarrow> string \<Rightarrow> bool" where
  "is_not_modified H h etag = (case hm_get_str H h ''if-none-match'' of Some v \<Rightarrow> v = etag | None \<Rightarrow> False)"

definition check_range :: "nat \<Rightarrow> unit + nat \<times> nat \<Rightarrow> unit + nat \<times> nat" where
  "check_range file_len r =
     (case r of
        Inl _ \<Rightarrow> Inl ()
      | Inr (start, e) \<Rightarrow> if e < start \<or> file_len \<le> e then Inl () else Inr (start, e))"

text \<open>The outer option: is there a range to serve; the sum: is it satisfiable.\<close>

definition parse_range_header :: "'h header_ops \<Rightarrow> 'h \<Rightarrow> nat \<Rightarrow> (unit + nat \<times> nat) option" where
  "parse_range_header H h file_len =
     Option.bind (hm_get_str H h ''range'') (\<lambda>value.
     Option.bind (strip_prefix ''bytes='' value) (\<lambda>bytes.
       if CHR '','' \<in> set bytes then None
       else
         map_option (check_range file_len)
           (case strip_prefix ''-'' bytes of
              Some suffix \<Rightarrow>
                map_option (\<lambda>n. if n = 0 \<or> file_len = 0 then Inl () else Inr (file_len - n, file_len - 1))
                  (parse_uint u64_max suffix)
            | None \<Rightarrow>
                (case splitn_on 2 CHR ''-'' bytes of
                   [a, b] \<Rightarrow>
                     Option.bind (parse_uint u64_max a) (\<lambda>start.
                       if b = [] then (if file_len = 0 then Some (Inl ()) else Some (Inr (start, file_len - 1)))
                       else map_option (\<lambda>e. Inr (start, e)) (parse_uint u64_max b))
                 | _ \<Rightarrow> None))))"

section \<open>The listing\<close>

text \<open>Howard Hinnant's conversion of days since the epoch; the code's integers do not overflow here.\<close>

definition days_to_ymd :: "int \<Rightarrow> int \<times> int \<times> int" where
  "days_to_ymd days =
     (let z = days + 719468;
          era = (if 0 \<le> z then z else z - 146096) div 146097;
          doe = z - era * 146097;
          yoe = (doe - doe div 1460 + doe div 36524 - doe div 146096) div 365;
          y = yoe + era * 400;
          doy = doe - (365 * yoe + yoe div 4 - yoe div 100);
          mp = (5 * doy + 2) div 153;
          d = doy - (153 * mp + 2) div 5 + 1;
          m = (if mp < 10 then mp + 3 else mp - 9)
      in (if m \<le> 2 then y + 1 else y, m, d))"

definition pad :: "nat \<Rightarrow> string \<Rightarrow> string" where
  "pad n s = replicate (n - length s) CHR ''0'' @ s"

text \<open>The cast to a signed integer makes a time beyond 2^63 seconds negative.\<close>

definition format_mtime :: "nat \<Rightarrow> string" where
  "format_mtime secs =
     (if 9223372036854775808 \<le> secs then ''-'' else
      let rem = secs mod 86400;
          (y, mo, d) = days_to_ymd (int (secs div 86400))
      in pad 4 (show_nat (nat y)) @ ''-'' @ pad 2 (show_nat (nat mo)) @ ''-'' @ pad 2 (show_nat (nat d)) @ '' ''
         @ pad 2 (show_nat (rem div 3600)) @ '':'' @ pad 2 (show_nat (rem mod 3600 div 60)) @ '':''
         @ pad 2 (show_nat (rem mod 60)) @ '' UTC'')"

type_synonym listing_entry = "string \<times> bool \<times> nat \<times> nat option"

definition STYLE :: string where
  "STYLE =
     ''body{font-family:sans-serif;margin:2em}'' @ ''table{border-collapse:collapse;width:100%}''
     @ ''th,td{padding:0.25em 0.75em;text-align:left}'' @ ''th{border-bottom:1px solid #ccc}''
     @ ''tr:hover td{background:#f4f4f4}''
     @ ''td.size,td.mtime{font-variant-numeric:tabular-nums;color:#666}'' @ ''a{text-decoration:none}''"

definition listing_row :: "(nat \<Rightarrow> string) \<Rightarrow> listing_entry \<Rightarrow> string" where
  "listing_row size_text e =
     (case e of (name, is_dir, len, mtime) \<Rightarrow>
        let slash = (if is_dir then ''/'' else [])
        in ''<tr><td><a href=\"'' @ url_encode_segment name @ slash @ ''\">'' @ html_escape name @ slash @ ''</a></td>''
           @ ''<td class=\"size\">'' @ (if is_dir then ''-'' else size_text len) @ ''</td>''
           @ ''<td class=\"mtime\">'' @ (case mtime of Some t \<Rightarrow> format_mtime t | None \<Rightarrow> ''-'') @ ''</td></tr>'')"

definition render_listing_html :: "(nat \<Rightarrow> string) \<Rightarrow> string \<Rightarrow> listing_entry list \<Rightarrow> string" where
  "render_listing_html size_text url_path es =
     (let title = html_escape url_path
      in ''<!doctype html>'' @ [CHR 0x0A] @ ''<html><head><meta charset=\"utf-8\">''
         @ ''<title>Index of '' @ title @ ''</title><style>'' @ STYLE @ ''</style></head><body>''
         @ ''<h1>Index of '' @ title @ ''</h1>''
         @ ''<table><thead><tr><th>Name</th><th>Size</th><th>Modified</th></tr></thead><tbody>''
         @ (if url_path \<noteq> ''/''
            then ''<tr><td><a href=\"../\">../</a></td><td class=\"size\">-</td><td class=\"mtime\">-</td></tr>''
            else [])
         @ concat (map (listing_row size_text) es)
         @ ''</tbody></table></body></html>'' @ [CHR 0x0A])"

text \<open>Directories first, then by name; the order of strings is that of their bytes.\<close>

definition listing_entries :: "(string \<times> file_meta option) list \<Rightarrow> listing_entry list" where
  "listing_entries ds =
     concat (map (\<lambda>(name, md).
       if \<not> utf8_valid (bytes_of name) \<or> starts_with name ''.'' then []
       else case md of None \<Rightarrow> [] | Some m \<Rightarrow> [(name, md_is_dir m, md_len m, md_mtime m)]) ds)"

fun byte_less :: "string \<Rightarrow> string \<Rightarrow> bool" where
  "byte_less [] [] = False"
| "byte_less [] (_ # _) = True"
| "byte_less (_ # _) [] = False"
| "byte_less (a # s) (b # t) =
     (if (of_char a :: nat) < of_char b then True else if (of_char b :: nat) < of_char a then False else byte_less s t)"

definition entry_before :: "listing_entry \<Rightarrow> listing_entry \<Rightarrow> bool" where
  "entry_before a b =
     (case (fst (snd a), fst (snd b)) of
        (True, False) \<Rightarrow> True
      | (False, True) \<Rightarrow> False
      | _ \<Rightarrow> \<not> byte_less (fst b) (fst a))"

fun insert_entry :: "listing_entry \<Rightarrow> listing_entry list \<Rightarrow> listing_entry list" where
  "insert_entry e [] = [e]"
| "insert_entry e (x # xs) = (if entry_before e x then e # x # xs else x # insert_entry e xs)"

definition sort_entries :: "listing_entry list \<Rightarrow> listing_entry list" where
  "sort_entries es = foldr insert_entry es []"

definition render_directory_listing :: "fs_ops \<Rightarrow> (nat \<Rightarrow> string) \<Rightarrow> string \<Rightarrow> string \<Rightarrow> reply" where
  "render_directory_listing F size_text dir url_path =
     (if \<not> ends_with_char url_path CHR ''/''
      then \<lparr>rp_status = 301, rp_headers = [(''Location'', url_path @ ''/'')], rp_body = BytesBody []\<rparr>
      else case fs_read_dir F dir of
             None \<Rightarrow> response_500
           | Some ds \<Rightarrow>
               let html = render_listing_html size_text url_path (sort_entries (listing_entries ds))
               in \<lparr>rp_status = 200,
                   rp_headers = [(''Content-Type'', ''text/html; charset=utf-8''),
                                 (''Content-Length'', show_nat (length html)), (''Cache-Control'', ''no-cache'')],
                   rp_body = BytesBody html\<rparr>)"

section \<open>The handler\<close>

record static_config =
  stc_root :: "string option"
  stc_index_files :: "string list"
  stc_strip_prefix :: bool
  stc_try_files :: "string list"
  stc_directory_listing :: bool
  stc_fallback_redirect :: "string option"
  stc_userdir :: "string option"
  stc_userdir_allowlist :: "string list"
  stc_userdir_min_uid :: nat

record static_handler =
  sh_root :: "string option"
  sh_index_files :: "string list"
  sh_strip_prefix :: bool
  sh_try_files :: "template list"
  sh_directory_listing :: bool
  sh_fallback_redirect :: "template option"
  sh_userdir :: "string option"
  sh_userdir_allowlist :: "string list"
  sh_userdir_min_uid :: nat

definition new_static ::
  "'h header_ops \<Rightarrow> 're var_table \<Rightarrow> static_config \<Rightarrow> var_needs \<Rightarrow>
   'he router_error + (static_handler \<times> var_needs)" where
  "new_static H T cfg nd =
     bind_result (collect_needs (compile_absorb H T) (stc_try_files cfg) nd) (\<lambda>(tries, nd1).
     bind_result
       (case stc_fallback_redirect cfg of
          None \<Rightarrow> Inr (None, nd1)
        | Some s \<Rightarrow> bind_result (compile_absorb H T s nd1) (\<lambda>(t, nd2). Inr (Some t, nd2)))
       (\<lambda>(fallback, nd2).
          Inr (\<lparr>sh_root = stc_root cfg, sh_index_files = stc_index_files cfg,
                sh_strip_prefix = stc_strip_prefix cfg, sh_try_files = tries,
                sh_directory_listing = stc_directory_listing cfg, sh_fallback_redirect = fallback,
                sh_userdir = stc_userdir cfg, sh_userdir_allowlist = stc_userdir_allowlist cfg,
                sh_userdir_min_uid = stc_userdir_min_uid cfg\<rparr>, nd2)))"

record static_metrics =
  static_not_modified_total :: u64
  static_range_total :: u64
  static_bytes_served_total :: u64

text \<open>The handler does not answer: the \<open>expect\<close> on the root fails, or a template has no value.\<close>

datatype static_fault = No_root | No_value

definition resolve_index :: "fs_ops \<Rightarrow> static_handler \<Rightarrow> string \<Rightarrow> string option" where
  "resolve_index F sh dir = find (\<lambda>c. fs_metadata F c \<noteq> None) (map (path_join dir) (sh_index_files sh))"

definition fallback_reply :: "string \<Rightarrow> reply" where
  "fallback_reply url =
     (if header_text url
      then \<lparr>rp_status = 302,
             rp_headers = [(''location'', url), (''content-length'', ''0''), (''cache-control'', ''no-store'')],
             rp_body = BytesBody []\<rparr>
      else response_500)"

text \<open>Each candidate is rendered in turn, so the memo slots of the request are passed on.\<close>

fun try_files_resolve ::
  "fs_ops \<Rightarrow> 're regex_ops \<Rightarrow> 're var_table option \<Rightarrow> request_context \<Rightarrow> string \<Rightarrow> template list \<Rightarrow> slots \<Rightarrow>
   (string option \<times> slots) option" where
  "try_files_resolve F R T cx base [] sl = Some (None, sl)"
| "try_files_resolve F R T cx base (t # ts) sl =
     (case render R T cx t sl of
        None \<Rightarrow> None
      | Some (cand, sl') \<Rightarrow>
          (case Option.bind (safe_join base cand) (fs_metadata F) of
             Some m \<Rightarrow> if md_is_file m then Some (Some cand, sl') else try_files_resolve F R T cx base ts sl'
           | None \<Rightarrow> try_files_resolve F R T cx base ts sl'))"

definition user_char :: "char \<Rightarrow> bool" where
  "user_char c \<longleftrightarrow> is_ascii_digit c \<or> (let n = (of_char c :: nat) in (65 \<le> n \<and> n \<le> 90) \<or> (97 \<le> n \<and> n \<le> 122))
     \<or> c = CHR ''_'' \<or> c = CHR ''-''"

definition resolve_userdir ::
  "user_db \<Rightarrow> static_handler \<Rightarrow> string \<Rightarrow> string \<Rightarrow> reply + (string \<times> string)" where
  "resolve_userdir users sh relative subdir =
     (let path = (case strip_prefix ''/'' relative of Some r \<Rightarrow> r | None \<Rightarrow> relative) in
      case strip_prefix ''~'' path of
        None \<Rightarrow> Inl response_404
      | Some p \<Rightarrow>
          (let (username, rest) = (case split_once CHR ''/'' p of Some (u, r) \<Rightarrow> (u, r) | None \<Rightarrow> (p, []))
           in if username = [] then Inl response_404
              else if \<not> list_all user_char username then Inl response_404
              else if sh_userdir_allowlist sh \<noteq> [] \<and> username \<notin> set (sh_userdir_allowlist sh) then Inl response_404
              else case users username of
                     None \<Rightarrow> Inl response_404
                   | Some (uid, dir) \<Rightarrow>
                       if uid < sh_userdir_min_uid sh then Inl response_404
                       else Inr (path_join dir subdir, ''/'' @ rest)))"

text \<open>The tail of the handler, for a file or an index file that has been found.\<close>

definition serve_file ::
  "fs_ops \<Rightarrow> (string \<Rightarrow> string option) \<Rightarrow> 'h header_ops \<Rightarrow> 'h \<Rightarrow> string \<Rightarrow> static_metrics \<Rightarrow> reply \<times> static_metrics" where
  "serve_file F mime H h target m =
     (case fs_metadata F target of
        None \<Rightarrow> (response_404, m)
      | Some md \<Rightarrow>
          let etag = compute_etag md; file_len = md_len md;
              content_type = (case mime target of Some t \<Rightarrow> t | None \<Rightarrow> ''application/octet-stream'')
          in if is_not_modified H h etag
             then (\<lparr>rp_status = 304, rp_headers = [(''ETag'', etag)], rp_body = BytesBody []\<rparr>,
                   m\<lparr>static_not_modified_total := static_not_modified_total m + 1\<rparr>)
             else case parse_range_header H h file_len of
                    Some (Inr (start, e)) \<Rightarrow>
                      if \<not> fs_open F target \<or> \<not> fs_seek F target start then (response_500, m)
                      else
                        let len = e - start + 1
                        in (\<lparr>rp_status = 206,
                              rp_headers = [(''Content-Type'', content_type), (''Content-Length'', show_nat len),
                                (''Content-Range'', ''bytes '' @ show_nat start @ ''-'' @ show_nat e @ ''/'' @ show_nat file_len),
                                (''ETag'', etag), (''Accept-Ranges'', ''bytes'')],
                              rp_body = FileSlice target start (Some len)\<rparr>,
                            m\<lparr>static_range_total := static_range_total m + 1,
                              static_bytes_served_total := static_bytes_served_total m + of_nat len\<rparr>)
                  | Some (Inl _) \<Rightarrow> (response_416 file_len, m)
                  | None \<Rightarrow>
                      if \<not> fs_open F target then (response_500, m)
                      else (\<lparr>rp_status = 200,
                              rp_headers = [(''Content-Type'', content_type), (''Content-Length'', show_nat file_len),
                                (''ETag'', etag), (''Accept-Ranges'', ''bytes'')],
                              rp_body = FileSlice target 0 None\<rparr>,
                            m\<lparr>static_bytes_served_total := static_bytes_served_total m + of_nat file_len\<rparr>))"

definition has_dotfile :: "string list \<Rightarrow> bool" where
  "has_dotfile cs = list_ex (\<lambda>c. utf8_valid (bytes_of c) \<and> starts_with c ''.'') cs"

text \<open>From the joined path to a file, or to an answer; the last argument renders a template.\<close>

definition locate ::
  "fs_ops \<Rightarrow> (nat \<Rightarrow> string) \<Rightarrow> static_handler \<Rightarrow> string \<Rightarrow> string \<Rightarrow> string \<Rightarrow> slots \<Rightarrow>
   (template \<Rightarrow> slots \<Rightarrow> (string \<times> slots) option) \<Rightarrow> (static_fault + ((reply + string) \<times> slots))" where
  "locate F size_text sh base relative url_path sl rend =
     (case safe_join base relative of
        None \<Rightarrow> Inr (Inl response_400, sl)
      | Some file_path \<Rightarrow>
     (case fs_canonicalize F base of
        None \<Rightarrow> Inr (Inl response_500, sl)
      | Some canonical_root \<Rightarrow>
     (case fs_canonicalize F file_path of
        None \<Rightarrow> Inr (Inl response_404, sl)
      | Some canonical_path \<Rightarrow>
          if \<not> path_starts_with canonical_path canonical_root then Inr (Inl response_403, sl)
          else if has_dotfile (below canonical_path canonical_root) then Inr (Inl response_404, sl)
          else
     (case fs_metadata F canonical_path of
        None \<Rightarrow> Inr (Inl response_404, sl)
      | Some md \<Rightarrow>
          if \<not> md_is_dir md then Inr (Inr canonical_path, sl)
          else
     (case resolve_index F sh canonical_path of
        Some p \<Rightarrow> Inr (Inr p, sl)
      | None \<Rightarrow>
          if sh_directory_listing sh
          then Inr (Inl (render_directory_listing F size_text canonical_path url_path), sl)
          else
     (case sh_fallback_redirect sh of
        None \<Rightarrow> Inr (Inl response_403_no_index, sl)
      | Some t \<Rightarrow> (case rend t sl of None \<Rightarrow> Inl No_value | Some (url, sl') \<Rightarrow> Inr (Inl (fallback_reply url), sl'))))))))"

definition effective_root ::
  "user_db \<Rightarrow> static_handler \<Rightarrow> string \<Rightarrow> static_fault + (reply + string \<times> string)" where
  "effective_root users sh relative =
     (case sh_userdir sh of
        Some subdir \<Rightarrow> Inr (resolve_userdir users sh relative subdir)
      | None \<Rightarrow> (case sh_root sh of Some r \<Rightarrow> Inr (Inr (r, relative)) | None \<Rightarrow> Inl No_root))"

definition effective_path ::
  "fs_ops \<Rightarrow> 're regex_ops \<Rightarrow> 're var_table option \<Rightarrow> static_handler \<Rightarrow> request_context \<Rightarrow> string \<Rightarrow> string \<Rightarrow> slots \<Rightarrow>
   static_fault + (string option \<times> slots)" where
  "effective_path F R T sh cx base rel sl =
     (if sh_try_files sh = [] then Inr (Some rel, sl)
      else case try_files_resolve F R T (cx\<lparr>cx_path := rel\<rparr>) base (sh_try_files sh) sl of
             None \<Rightarrow> Inl No_value
           | Some r \<Rightarrow> Inr r)"

definition relative_path :: "static_handler \<Rightarrow> string \<Rightarrow> string \<Rightarrow> string" where
  "relative_path sh matched_prefix url =
     (if sh_strip_prefix sh then (case strip_prefix matched_prefix url of Some r \<Rightarrow> r | None \<Rightarrow> url) else url)"

definition static_handle ::
  "fs_ops \<Rightarrow> user_db \<Rightarrow> (string \<Rightarrow> string option) \<Rightarrow> (nat \<Rightarrow> string) \<Rightarrow> 'h header_ops \<Rightarrow> 'u uri_ops \<Rightarrow>
   're regex_ops \<Rightarrow> 're var_table option \<Rightarrow> static_handler \<Rightarrow> ('h, 'u) routed_request \<Rightarrow> string \<Rightarrow> request_context \<Rightarrow>
   slots \<Rightarrow> static_metrics \<Rightarrow> static_fault + (reply \<times> static_metrics \<times> slots)" where
  "static_handle F users mime size_text H U R T sh req matched_prefix cx sl m =
     (let url = uri_path U (rr_uri req) in
      bind_result (effective_root users sh (relative_path sh matched_prefix url)) (\<lambda>found. case found of
        Inl reply \<Rightarrow> Inr (reply, m, sl)
      | Inr (base, rel) \<Rightarrow>
          bind_result (effective_path F R T sh cx base rel sl) (\<lambda>(target, sl1). case target of
            None \<Rightarrow> Inr (response_404, m, sl1)
          | Some rel' \<Rightarrow>
              bind_result (locate F size_text sh base rel' url sl1 (render R T cx)) (\<lambda>(l, sl2). case l of
                Inl reply \<Rightarrow> Inr (reply, m, sl2)
              | Inr file \<Rightarrow>
                  (let (reply, m') = serve_file F mime H (rr_headers req) file m
                   in Inr (reply, m', sl2))))))"

section \<open>The body of a file\<close>

definition CHUNK :: nat where
  "CHUNK = 65536"

record file_body =
  fb_rest :: string
  fb_remaining :: "nat option"
  fb_done :: bool

definition new_body :: "string \<Rightarrow> nat option \<Rightarrow> file_body" where
  "new_body rest limit = \<lparr>fb_rest = rest, fb_remaining = limit, fb_done = False\<rparr>"

text \<open>What the file answers to one read: not yet, an error, or at most so many bytes.\<close>

datatype read_event = ReadPending | ReadError | ReadUpTo nat

datatype frame = FramePending | FrameEnd | FrameError | FrameData string

definition poll_frame :: "read_event \<Rightarrow> file_body \<Rightarrow> frame \<times> file_body" where
  "poll_frame ev b =
     (if fb_done b then (FrameEnd, b)
      else if fb_remaining b = Some 0 then (FrameEnd, b\<lparr>fb_done := True\<rparr>)
      else
        let want = (case fb_remaining b of Some r \<Rightarrow> min r CHUNK | None \<Rightarrow> CHUNK) in
        case ev of
          ReadPending \<Rightarrow> (FramePending, b)
        | ReadError \<Rightarrow> (FrameError, b\<lparr>fb_done := True\<rparr>)
        | ReadUpTo k \<Rightarrow>
            (let d = take (min k want) (fb_rest b) in
             if d = [] then (FrameEnd, b\<lparr>fb_done := True\<rparr>)
             else (FrameData d, b\<lparr>fb_rest := drop (length d) (fb_rest b),
                                  fb_remaining := map_option (\<lambda>r. r - length d) (fb_remaining b)\<rparr>)))"

fun poll_frames :: "read_event list \<Rightarrow> file_body \<Rightarrow> frame list" where
  "poll_frames [] b = []"
| "poll_frames (e # es) b = (let (f, b') = poll_frame e b in f # poll_frames es b')"

section \<open>Joined paths stay below the base\<close>

lemma split_slash: "split_on CHR ''/'' (a @ CHR ''/'' # b) = split_on CHR ''/'' a @ split_on CHR ''/'' b"
  by (induction a) (auto split: list.splits)

lemma components_join:
  assumes "a \<noteq> []"
  shows "components (a @ CHR ''/'' # t) = components a @ plain_segments (split_on CHR ''/'' t)"
proof -
  have h: "starts_with (a @ CHR ''/'' # t) ''/'' \<longleftrightarrow> starts_with a ''/''"
    using assms by (cases a) (auto simp: starts_with_def)
  obtain s ss where s: "split_on CHR ''/'' a = s # ss" by (cases "split_on CHR ''/'' a") auto
  show ?thesis unfolding components_def h split_slash s
    by (simp add: plain_segments_def)
qed

lemma components_slash: "components (''/'' @ t) = ''/'' # plain_segments (split_on CHR ''/'' t)"
  by (simp add: components_def starts_with_def plain_segments_def)

lemma components_path_join:
  assumes "\<not> starts_with t ''/''" "a \<noteq> []"
  shows "components (path_join a t) = components a @ plain_segments (split_on CHR ''/'' t)"
proof (cases "last a = CHR ''/''")
  case False
  then show ?thesis using assms components_join by (simp add: path_join_def)
next
  case True
  then obtain b where a: "a = b @ ''/''" using assms(2) by (metis append_butlast_last_id)
  show ?thesis
  proof (cases "b = []")
    case True
    then show ?thesis
      using assms(1) a components_slash[of t] components_slash[of "[]"]
      by (simp add: path_join_def plain_segments_def)
  next
    case False
    then show ?thesis
      using assms(1) a components_join[of b t] components_join[of b "[]"]
      by (simp add: path_join_def plain_segments_def)
  qed
qed

lemma trim_slashes: "\<not> starts_with (trim_start_char CHR ''/'' s) ''/''"
  by (induction s) (auto simp: trim_start_char_def starts_with_def)

lemma trim_segments: "set (split_on CHR ''/'' (trim_start_char CHR ''/'' s)) \<subseteq> set (split_on CHR ''/'' s)"
  by (induction s) (auto simp: trim_start_char_def)

lemma components_set: "set (components p) \<subseteq> {''/''} \<union> set (split_on CHR ''/'' p)"
  by (cases "split_on CHR ''/'' p") (auto simp: components_def plain_segments_def)

lemma safe_join_below:
  assumes "safe_join base p = Some q"
  shows "\<exists>rel. components q = components base @ rel \<and> ''..'' \<notin> set rel"
proof -
  let ?t = "trim_start_char CHR ''/'' (percent_decode p)"
  have q: "q = path_join base ?t" "''..'' \<notin> set (split_on CHR ''/'' (percent_decode p))"
    using assms by (auto simp: safe_join_def Let_def split: if_splits)
  then have t: "''..'' \<notin> set (split_on CHR ''/'' ?t)" using trim_segments by blast
  show ?thesis
  proof (cases "base = []")
    case True
    then have "q = ?t" using q(1) by (simp add: path_join_def)
    moreover have "''..'' \<notin> set (components ?t)" using t components_set[of ?t] by auto
    ultimately show ?thesis using True by (simp add: components_def starts_with_def plain_segments_def)
  next
    case False
    then show ?thesis
      using components_path_join[OF trim_slashes False, of "percent_decode p"] q(1) t
      by (auto simp: plain_segments_def)
  qed
qed

section \<open>What is served\<close>

text \<open>A file the handler may serve for a base directory and a joined path.\<close>

definition servable :: "fs_ops \<Rightarrow> static_handler \<Rightarrow> string \<Rightarrow> string \<Rightarrow> string \<Rightarrow> bool" where
  "servable F sh base q file \<longleftrightarrow>
     (\<exists>top c. fs_canonicalize F base = Some top \<and> fs_canonicalize F q = Some c \<and>
        starts_with (components c) (components top) \<and> \<not> has_dotfile (below c top) \<and>
        (file = c \<or> (\<exists>n \<in> set (sh_index_files sh). file = path_join c n)))"

lemma resolve_index_joined: "resolve_index F sh dir = Some p \<Longrightarrow> \<exists>n \<in> set (sh_index_files sh). p = path_join dir n"
  unfolding resolve_index_def by (drule find_snd) auto

lemma locate_servable:
  assumes "locate F size_text sh base rel url sl rend = Inr (Inr file, sl')"
  shows "\<exists>q. safe_join base rel = Some q \<and> servable F sh base q file"
  using assms unfolding locate_def servable_def path_starts_with_def
  by (auto split: option.splits if_splits prod.splits dest!: resolve_index_joined)

lemma serve_file_target:
  "serve_file F mime H h target m = (r, m') \<Longrightarrow> rp_body r = FileSlice f a b \<Longrightarrow> f = target"
  by (auto simp: serve_file_def Let_def html_response_def response_404_def response_500_def response_416_def
      split: option.splits sum.splits prod.splits if_splits)

text \<open>Where the base directory and the path below it come from.\<close>

definition base_of :: "user_db \<Rightarrow> static_handler \<Rightarrow> string \<Rightarrow> bool" where
  "base_of users sh base \<longleftrightarrow>
     (case sh_userdir sh of
        None \<Rightarrow> sh_root sh = Some base
      | Some subdir \<Rightarrow>
          (\<exists>u uid dir. users u = Some (uid, dir) \<and> sh_userdir_min_uid sh \<le> uid
             \<and> (sh_userdir_allowlist sh = [] \<or> u \<in> set (sh_userdir_allowlist sh)) \<and> base = path_join dir subdir))"

lemma resolve_userdir_base:
  "sh_userdir sh = Some subdir \<Longrightarrow> resolve_userdir users sh rel subdir = Inr (base, r) \<Longrightarrow> base_of users sh base"
  by (fastforce simp: resolve_userdir_def base_of_def Let_def split: option.splits prod.splits if_splits)

lemma error_replies_bytes:
  "rp_body response_400 \<noteq> FileSlice f a b" "rp_body response_403 \<noteq> FileSlice f a b"
  "rp_body response_404 \<noteq> FileSlice f a b" "rp_body response_500 \<noteq> FileSlice f a b"
  "rp_body response_403_no_index \<noteq> FileSlice f a b" "rp_body (fallback_reply url) \<noteq> FileSlice f a b"
  "rp_body (render_directory_listing F st d u) \<noteq> FileSlice f a b"
  by (simp_all add: response_400_def response_403_def response_404_def response_500_def response_403_no_index_def
      fallback_reply_def render_directory_listing_def html_response_def Let_def split: option.splits)

lemma locate_reply_bytes:
  "locate F size_text sh base rel url sl rend = Inr (Inl r, sl') \<Longrightarrow> rp_body r \<noteq> FileSlice f a b"
  unfolding locate_def using error_replies_bytes by (auto split: option.splits if_splits prod.splits)

lemma userdir_reply_bytes: "resolve_userdir users sh rel subdir = Inl r \<Longrightarrow> rp_body r \<noteq> FileSlice f a b"
  using error_replies_bytes(3) by (auto simp: resolve_userdir_def Let_def split: option.splits prod.splits if_splits)


text \<open>A small file system: a root with a page, and an index page that is a link out of the root.\<close>

definition plain_meta :: "bool \<Rightarrow> file_meta" where
  "plain_meta dir = \<lparr>md_is_dir = dir, md_is_file = \<not> dir, md_len = 10, md_mtime = Some 7\<rparr>"

definition sample_fs :: fs_ops where
  "sample_fs =
     \<lparr>fs_canonicalize = map_of [(''/srv'', ''/srv''), (''/srv/'', ''/srv''), (''/srv/a'', ''/srv/a''),
        (''/srv/index.html'', ''/etc/shadow'')],
      fs_metadata = map_of [(''/srv'', plain_meta True), (''/srv/a'', plain_meta False),
        (''/srv/index.html'', plain_meta False)],
      fs_open = (\<lambda>_. True), fs_seek = (\<lambda>_ _. True), fs_read_dir = (\<lambda>_. None)\<rparr>"

definition sample_static :: static_handler where
  "sample_static =
     \<lparr>sh_root = Some ''/srv'', sh_index_files = [''index.html''], sh_strip_prefix = False, sh_try_files = [],
      sh_directory_listing = False, sh_fallback_redirect = None, sh_userdir = None,
      sh_userdir_allowlist = [], sh_userdir_min_uid = 1000\<rparr>"

definition no_metrics :: static_metrics where
  "no_metrics = \<lparr>static_not_modified_total = 0, static_range_total = 0, static_bytes_served_total = 0\<rparr>"

abbreviation sample_get :: "static_handler \<Rightarrow> 're var_table option \<Rightarrow> 're regex_ops \<Rightarrow> string \<Rightarrow> (string \<times> string) list \<Rightarrow>
    string \<Rightarrow> request_context \<Rightarrow> slots \<Rightarrow> static_fault + (reply \<times> static_metrics \<times> slots)" where
  "sample_get sh T R url hs prefix cx sl \<equiv>
     static_handle sample_fs Map.empty Map.empty show_nat list_headers plain_uri R T sh
       \<lparr>rr_method = ''GET'', rr_uri = (url, None), rr_headers = hs\<rparr> prefix cx sl no_metrics"



section \<open>Ranges\<close>

abbreviation frame_data :: "frame list \<Rightarrow> string" where
  "frame_data fs \<equiv> concat (map (\<lambda>f. case f of FrameData d \<Rightarrow> d | _ \<Rightarrow> []) fs)"

definition fair_read :: "read_event \<Rightarrow> bool" where
  "fair_read e \<longleftrightarrow> (case e of ReadPending \<Rightarrow> True | ReadUpTo k \<Rightarrow> 0 < k | ReadError \<Rightarrow> False)"

abbreviation reads :: "read_event list \<Rightarrow> nat" where
  "reads es \<equiv> length (filter (\<lambda>e. e \<noteq> ReadPending) es)"

lemma done_frames: "fb_done b \<Longrightarrow> poll_frames es b = replicate (length es) FrameEnd"
  by (induction es) (simp_all add: poll_frame_def)

lemma body_slice:
  assumes "\<forall>e \<in> set es. fair_read e" "r \<le> length s"
  shows "(FrameEnd \<in> set (poll_frames es (new_body s (Some r))) \<longrightarrow>
      frame_data (poll_frames es (new_body s (Some r))) = take r s)
    \<and> (r < reads es \<longrightarrow> FrameEnd \<in> set (poll_frames es (new_body s (Some r))))"
  using assms
proof (induction es arbitrary: r s)
  case (Cons e es)
  let ?b = "new_body s (Some r)"
  show ?case
  proof (cases "r = 0")
    case True
    then have "poll_frame e ?b = (FrameEnd, ?b\<lparr>fb_done := True\<rparr>)" by (simp add: poll_frame_def new_body_def)
    then show ?thesis using True by (simp add: done_frames)
  next
    case False
    show ?thesis
    proof (cases e)
      case ReadPending
      then have "poll_frame e ?b = (FramePending, ?b)" using False by (simp add: poll_frame_def new_body_def)
      then show ?thesis using Cons ReadPending by simp
    next
      case ReadError
      then show ?thesis using Cons.prems by (simp add: fair_read_def)
    next
      case (ReadUpTo k)
      define n where "n = min k (min r CHUNK)"
      have n: "0 < n" "n \<le> r" "n \<le> length s"
        using False Cons.prems ReadUpTo by (auto simp: fair_read_def CHUNK_def n_def)
      let ?fs = "poll_frames es (new_body (drop n s) (Some (r - n)))"
      have "poll_frame e ?b = (FrameData (take n s), new_body (drop n s) (Some (r - n)))"
        using n ReadUpTo False by (auto simp: poll_frame_def new_body_def Let_def n_def[symmetric])
      then have fs: "poll_frames (e # es) ?b = FrameData (take n s) # ?fs" by simp
      have t: "take r s = take n s @ take (r - n) (drop n s)" using take_add[of n "r - n" s] n(2) by simp
      have "r - n \<le> length (drop n s)" using Cons.prems(2) by simp
      from Cons.IH[OF _ this] Cons.prems(1) have
        "FrameEnd \<in> set ?fs \<Longrightarrow> frame_data ?fs = take (r - n) (drop n s)" "r - n < reads es \<Longrightarrow> FrameEnd \<in> set ?fs"
        by simp_all
      moreover have "r < Suc (reads es) \<Longrightarrow> r - n < reads es" using n(1) False by arith
      ultimately show ?thesis unfolding fs t using ReadUpTo by simp
    qed
  qed
qed simp

lemma check_range_within: "check_range len r = Inr (a, e) \<Longrightarrow> a \<le> e \<and> e < len"
  by (auto simp: check_range_def split: sum.splits prod.splits if_splits)

lemma range_within:
  assumes "parse_range_header H h len = Some (Inr (a, e))"
  shows "a \<le> e \<and> e < len"
proof -
  from assms obtain r where "check_range len r = Inr (a, e)"
    unfolding parse_range_header_def by (auto simp: bind_eq_Some_conv simp del: strip_prefix_Some split: if_splits)
  then show ?thesis by (rule check_range_within)
qed

text \<open>
  C28. A range response is exact: its bounds lie within the file, the announced length is theirs,
  and whatever sizes the reads of the file return, the body that has ended is exactly that slice
  of the file; it does end once there have been more reads than bytes.
\<close>

theorem range_body_exact:
  assumes "serve_file F mime H h target m = (r, m')" "rp_body r = FileSlice f start (Some len)"
    "fs_metadata F target = Some md" "length content = md_len md" "\<forall>e \<in> set es. fair_read e"
  shows "0 < len \<and> start + len \<le> length content
    \<and> parse_range_header H h (md_len md) = Some (Inr (start, start + len - 1))
    \<and> (''Content-Length'', show_nat len) \<in> set (rp_headers r)
    \<and> (FrameEnd \<in> set (poll_frames es (new_body (drop start content) (Some len))) \<longrightarrow>
         frame_data (poll_frames es (new_body (drop start content) (Some len))) = take len (drop start content))
    \<and> (len < reads es \<longrightarrow> FrameEnd \<in> set (poll_frames es (new_body (drop start content) (Some len))))"
proof -
  obtain e where e: "parse_range_header H h (md_len md) = Some (Inr (start, e))" "len = e - start + 1"
    "(''Content-Length'', show_nat len) \<in> set (rp_headers r)"
    using assms(1-3)
    by (auto simp: serve_file_def Let_def html_response_def response_500_def response_416_def
        split: option.splits sum.splits prod.splits if_splits)
  have w: "start \<le> e" "e < md_len md" using range_within[OF e(1)] by auto
  then have "0 < len" "start + len \<le> length content" "e = start + len - 1" using e(2) assms(4) by auto
  moreover have "len \<le> length (drop start content)" using calculation(2) by simp
  ultimately show ?thesis using e(1,3) body_slice[OF assms(5), of len "drop start content"] by blast
qed

theorem range_body_exact_witness:
  "\<exists>r m'. serve_file sample_fs Map.empty list_headers [(''range'', ''bytes=2-4'')] ''/srv/a'' no_metrics = (r, m')
     \<and> rp_body r = FileSlice ''/srv/a'' 2 (Some 3)
     \<and> frame_data (poll_frames [ReadUpTo 2, ReadPending, ReadUpTo 9, ReadUpTo 1, ReadUpTo 1] (new_body (drop 2 ''0123456789'') (Some 3)))
         = ''234''"
proof -
  let ?es = "[ReadUpTo 2, ReadPending, ReadUpTo 9, ReadUpTo 1, ReadUpTo 1]"
  let ?r = "serve_file sample_fs Map.empty list_headers [(''range'', ''bytes=2-4'')] ''/srv/a'' no_metrics"
  have h: "hm_get_str list_headers [(''range'', ''bytes=2-4'')] ''range'' = Some ''bytes=2-4''"
    "hm_get_str list_headers [(''range'', ''bytes=2-4'')] ''if-none-match'' = None" by code_simp+
  have "parse_range_header list_headers [(''range'', ''bytes=2-4'')] 10 = Some (Inr (2, 4))"
    by (simp add: parse_range_header_def h numeral_2_eq_2 parse_uint_def is_ascii_digit_def check_range_def)
  then have b: "rp_body (fst ?r) = FileSlice ''/srv/a'' 2 (Some 3)"
    by (simp add: serve_file_def sample_fs_def plain_meta_def is_not_modified_def h)
  have md: "fs_metadata sample_fs ''/srv/a'' = Some (plain_meta False)" by (simp add: sample_fs_def)
  have "length ''0123456789'' = md_len (plain_meta False)" "\<forall>e \<in> set ?es. fair_read e"
    by (simp_all add: plain_meta_def fair_read_def)
  note x = range_body_exact[OF prod.collapse[symmetric] b md this]
  moreover have "3 < reads ?es" by simp
  ultimately have "frame_data (poll_frames ?es (new_body (drop 2 ''0123456789'') (Some 3))) = take 3 (drop 2 ''0123456789'')"
    by blast
  then show ?thesis using b by (intro exI[of _ "fst ?r"] exI[of _ "snd ?r"]) simp
qed

section \<open>Links of the listing\<close>

lemma decode_plain: "b \<noteq> 0x25 \<Longrightarrow> decode_bytes (b # r) = b # decode_bytes r"
  by (cases r rule: remdups_adj.cases) simp_all

lemma nibble_upper_hex:
  assumes "d < 16"
  shows "hex_nibble (upper_hex d) = Some d"
proof -
  have all: "list_all (\<lambda>n. hex_nibble (upper_hex (of_nat n)) = Some (of_nat n)) [0..<16]" by code_simp
  have "unat d < 16" using assms by (simp add: word_less_nat_alt)
  then have "unat d \<in> set [0..<16]" by simp
  with all have "hex_nibble (upper_hex (of_nat (unat d))) = Some (of_nat (unat d))" unfolding list_all_iff by blast
  then show ?thesis by simp
qed

lemma byte_nibbles: "or (push_bit 4 (drop_bit 4 b)) (and b 0x0F) = (b :: byte)"
proof -
  have "and b 0x0F = take_bit 4 b" by (simp add: take_bit_eq_mask mask_eq_exp_minus_1)
  then show ?thesis by (intro bit_word_eqI) (auto simp: bit_simps)
qed

lemma nibbles_less: "drop_bit 4 b < (16 :: byte)" "and b 0x0F < (16 :: byte)"
proof -
  have "drop_bit 4 (unat b) < 16" using unsigned_less[of b, where 'a = nat] by (simp add: drop_bit_eq_div)
  then have "unat (drop_bit 4 b) < 16" unfolding unat_drop_bit_eq .
  then show "drop_bit 4 b < 16" by (simp add: word_less_nat_alt)
  have "and b 0x0F = take_bit 4 b" by (simp add: take_bit_eq_mask mask_eq_exp_minus_1)
  then have "and b 0x0F = b mod 16" by (simp add: take_bit_eq_mod)
  then show "and b 0x0F < 16" using word_mod_less_divisor[of 16 b] by simp
qed

lemma decode_encoded:
  "decode_bytes (concat (map (\<lambda>b. if unreserved b then [b]
     else [0x25, upper_hex (drop_bit 4 b), upper_hex (and b 0x0F)]) bs)) = bs"
proof (induction bs)
  case (Cons b bs)
  have "unreserved b \<Longrightarrow> b \<noteq> 0x25" by (auto simp: unreserved_def)
  then show ?case using Cons by (auto simp: decode_plain nibble_upper_hex nibbles_less byte_nibbles)
qed simp

lemma of_char_byte: "(of_char (char_of (unat b)) :: byte) = b"
proof -
  have "unat (of_char (char_of (unat b)) :: byte) = unat b"
    using unsigned_less[of b, where 'a = nat] by simp
  then show ?thesis by (rule word_unat_eq_iff[THEN iffD2])
qed

lemma bytes_string: "bytes_of (string_of_bytes bs) = bs"
  by (simp add: bytes_of_def string_of_bytes_def map_idI of_char_byte)

text \<open>A link of the listing leads back to the entry: its text decodes to the name.\<close>

lemma listing_link_decodes:
  assumes "utf8_valid (bytes_of name)"
  shows "percent_decode (url_encode_segment name) = name"
  unfolding percent_decode_def url_encode_segment_def bytes_string
  by (simp add: decode_encoded utf8_lossy_valid[OF assms])

end
