(* ===== verification/Cgi.thy ===== *)
theory Cgi
  imports Static_Files Proxy_Proto
begin

text \<open>
  The CGI family of handlers (\<open>handler/cgi_util.rs\<close>, \<open>handler/fcgi.rs\<close>, \<open>handler/scgi.rs\<close>,
  \<open>handler/cgi.rs\<close>): the environment of a script, the encodings of a FastCGI and an SCGI request,
  the readers of what the application sends back, and the three handlers with their counters.

  The exchange with the application is an argument: a connection takes the bytes of the request
  and returns those of the response or fails, and a process takes a path, an environment and its
  input. The headers that carry the trace context (\<open>otel::inject_current\<close>) are an argument too.
\<close>

section \<open>The environment\<close>

type_synonym cgi_env = "(string \<times> string) list"

definition rsplit_once :: "char \<Rightarrow> string \<Rightarrow> (string \<times> string) option" where
  "rsplit_once c s = map_option (\<lambda>(a, b). (rev b, rev a)) (split_once c (rev s))"

definition split_host_port :: "string \<Rightarrow> string \<times> string" where
  "split_host_port host =
     (case (if starts_with host ''['' then split_once CHR '']'' host else None) of
        Some (a, rest) \<Rightarrow> (a @ '']'', case strip_prefix '':'' rest of Some p \<Rightarrow> p | None \<Rightarrow> ''80'')
      | None \<Rightarrow> (case rsplit_once CHR '':'' host of Some (h, p) \<Rightarrow> (h, p) | None \<Rightarrow> (host, ''80'')))"

definition cgi_name :: "string \<Rightarrow> string" where
  "cgi_name n = ''HTTP_'' @ map (\<lambda>c. if c = CHR ''-'' then CHR ''_'' else c) (to_ascii_uppercase n)"

definition header_vars :: "'h header_ops \<Rightarrow> (string \<Rightarrow> bool) \<Rightarrow> 'h \<Rightarrow> cgi_env" where
  "header_vars H skip h =
     concat (map (\<lambda>(n, v). if skip n then []
        else case hv_to_str H v of Some s \<Rightarrow> [(cgi_name n, s)] | None \<Rightarrow> []) (hm_iter H h))"

definition script_name :: "string \<Rightarrow> string option \<Rightarrow> string" where
  "script_name path index =
     (if ends_with_char path CHR ''/'' then (case index of Some idx \<Rightarrow> path @ idx | None \<Rightarrow> path) else path)"

definition build_cgi_env ::
  "'h header_ops \<Rightarrow> 'u uri_ops \<Rightarrow> 'h \<Rightarrow> ('h, 'u) routed_request \<Rightarrow> string \<Rightarrow> string option \<Rightarrow> byte list \<Rightarrow> cgi_env" where
  "build_cgi_env H U trace req base index body =
     (let path = uri_path U (rr_uri req);
          query = (case uri_query U (rr_uri req) of Some q \<Rightarrow> q | None \<Rightarrow> []);
          script = script_name path index;
          (server_name, server_port) =
            split_host_port (case hm_get_str H (rr_headers req) ''host'' of Some s \<Rightarrow> s | None \<Rightarrow> []);
          traced = hm_iter H trace \<noteq> []
      in [(''GATEWAY_INTERFACE'', ''CGI/1.1''), (''SERVER_SOFTWARE'', ''hypershunt/0.1.0''),
          (''SERVER_PROTOCOL'', ''HTTP/1.1''), (''REQUEST_METHOD'', rr_method req),
          (''REQUEST_URI'', if query = [] then path else path @ ''?'' @ query),
          (''SCRIPT_NAME'', script),
          (''SCRIPT_FILENAME'', trim_end_char CHR ''/'' base @ ''/'' @ trim_start_char CHR ''/'' script),
          (''PATH_INFO'', []), (''QUERY_STRING'', query),
          (''CONTENT_TYPE'', case hm_get_str H (rr_headers req) ''content-type'' of Some s \<Rightarrow> s | None \<Rightarrow> []),
          (''CONTENT_LENGTH'', show_nat (length body)),
          (''SERVER_NAME'', server_name), (''SERVER_PORT'', server_port), (''REMOTE_ADDR'', ''0.0.0.0'')]
         @ header_vars H (\<lambda>_. False) trace
         @ header_vars H (\<lambda>n. n = ''content-type'' \<or> n = ''content-length''
             \<or> (traced \<and> (n = ''traceparent'' \<or> n = ''tracestate''))) (rr_headers req))"

section \<open>The response of a script\<close>

fun find_subsequence :: "byte list \<Rightarrow> byte list \<Rightarrow> nat option" where
  "find_subsequence [] needle = (if needle = [] then Some 0 else None)"
| "find_subsequence (b # s) needle =
     (if starts_with (b # s) needle then Some 0 else map_option Suc (find_subsequence s needle))"

definition find_header_boundary :: "byte list \<Rightarrow> (byte list \<times> byte list) option" where
  "find_header_boundary data =
     (case find_subsequence data [0x0D, 0x0A, 0x0D, 0x0A] of
        Some i \<Rightarrow> Some (take i data, drop (i + 4) data)
      | None \<Rightarrow>
          (case find_subsequence data [0x0A, 0x0A] of
             Some i \<Rightarrow> Some (take i data, drop (i + 2) data)
           | None \<Rightarrow> None))"

text \<open>\<open>str::lines\<close>: the pieces that end with a newline, without it and a carriage return before it, and a last one unless it is empty.\<close>

definition strip_cr :: "string \<Rightarrow> string" where
  "strip_cr s = (if s \<noteq> [] \<and> last s = CHR 0x0D then butlast s else s)"

definition str_lines :: "string \<Rightarrow> string list" where
  "str_lines s =
     (let ps = split_on CHR 0x0A s
      in map strip_cr (butlast ps) @ (if last ps = [] then [] else [last ps]))"

text \<open>\<open>split_whitespace().next()\<close>.\<close>

fun until_space :: "string \<Rightarrow> string" where
  "until_space [] = []"
| "until_space (c # s) = (if first_strip ws_codes (c # s) \<noteq> None then [] else c # until_space s)"

definition first_word :: "string \<Rightarrow> string option" where
  "first_word s = (let t = trim_start s in if t = [] then None else Some (until_space t))"

datatype cgi_error =
    No_separator
  | Headers_not_utf8
  | Malformed_line string
  | Malformed_status string
  | Invalid_status nat

text \<open>The builder: the status so far, and the headers unless one was refused.\<close>

definition cgi_header ::
  "'h header_ops \<Rightarrow> string \<Rightarrow> nat \<times> 'h option \<Rightarrow> cgi_error + (nat \<times> 'h option)" where
  "cgi_header H line st =
     (if line = [] then Inr st
      else case split_once CHR '':'' line of
        None \<Rightarrow> Inl (Malformed_line line)
      | Some (k, v) \<Rightarrow>
          (let key = trim k; val = trim v in
           if eq_ignore_ascii_case key ''status'' then
             (case Option.bind (first_word val) (parse_uint u16_max) of
                None \<Rightarrow> Inl (Malformed_status val)
              | Some code \<Rightarrow> if valid_status code then Inr (code, snd st) else Inl (Invalid_status code))
           else
             Inr (fst st,
               case (snd st, hn_from_bytes H key, hv_from_str H val) of
                 (Some h, Some n, Some w) \<Rightarrow> Some (hm_append H h n w)
               | _ \<Rightarrow> None)))"

fun cgi_headers ::
  "'h header_ops \<Rightarrow> string list \<Rightarrow> nat \<times> 'h option \<Rightarrow> cgi_error + (nat \<times> 'h option)" where
  "cgi_headers H [] st = Inr st"
| "cgi_headers H (l # ls) st = bind_result (cgi_header H (trim l) st) (cgi_headers H ls)"

text \<open>The inner option is \<open>None\<close> when the \<open>expect\<close> on the builder panics.\<close>

definition parse_cgi_response :: "'h header_ops \<Rightarrow> byte list \<Rightarrow> cgi_error + 'h http_response option" where
  "parse_cgi_response H stdout =
     (case find_header_boundary stdout of
        None \<Rightarrow> Inl No_separator
      | Some (hb, body) \<Rightarrow>
          if \<not> utf8_valid hb then Inl Headers_not_utf8
          else
            bind_result (cgi_headers H (str_lines (string_of_bytes hb)) (200, Some (hm_empty H))) (\<lambda>(status, hs).
              Inr (map_option (\<lambda>h. \<lparr>rs_status = status, rs_headers = h, rs_body = Some (string_of_bytes body)\<rparr>) hs)))"

section \<open>FastCGI\<close>

definition FCGI_VERSION :: byte where "FCGI_VERSION = 1"
definition FCGI_BEGIN_REQUEST :: byte where "FCGI_BEGIN_REQUEST = 1"
definition FCGI_END_REQUEST :: byte where "FCGI_END_REQUEST = 3"
definition FCGI_PARAMS :: byte where "FCGI_PARAMS = 4"
definition FCGI_STDIN :: byte where "FCGI_STDIN = 5"
definition FCGI_STDOUT :: byte where "FCGI_STDOUT = 6"
definition FCGI_RESPONDER :: u16 where "FCGI_RESPONDER = 1"
definition REQUEST_ID :: u16 where "REQUEST_ID = 1"

definition build_record :: "byte \<Rightarrow> byte list \<Rightarrow> byte list" where
  "build_record ty content =
     (let len = length content; padding = (8 - len mod 8) mod 8
      in [FCGI_VERSION, ty] @ to_be_bytes REQUEST_ID @ to_be_bytes (of_nat len) @ [of_nat padding, 0]
         @ content @ replicate padding 0)"

definition encode_length :: "nat \<Rightarrow> byte list" where
  "encode_length n =
     (if n < 128 then [of_nat n] else octets_of 4 (unat (or (of_nat n) 0x80000000 :: u32)))"

definition encode_params :: "cgi_env \<Rightarrow> byte list" where
  "encode_params vars =
     concat (map (\<lambda>(n, v). encode_length (length n) @ encode_length (length v) @ bytes_of n @ bytes_of v) vars)"

definition build_fcgi_request :: "cgi_env \<Rightarrow> byte list \<Rightarrow> byte list" where
  "build_fcgi_request env body =
     build_record FCGI_BEGIN_REQUEST (to_be_bytes FCGI_RESPONDER @ [0, 0, 0, 0, 0, 0])
     @ build_record FCGI_PARAMS (encode_params env) @ build_record FCGI_PARAMS []
     @ build_record FCGI_STDIN body @ build_record FCGI_STDIN []"

text \<open>The loop over the records that are left; \<open>None\<close> is a truncated record. \<open>FCGI_STDERR\<close> is only logged.\<close>

function parse_fcgi_stdout :: "byte list \<Rightarrow> byte list option" where
  "parse_fcgi_stdout data =
     (if length data < 8 then Some []
      else
        let ty = data ! 1;
            content_len = unat (from_be_bytes (data ! 4) (data ! 5));
            end = 8 + content_len + unat (data ! 6)
        in if length data < end then None
           else if ty = FCGI_END_REQUEST then Some []
           else map_option (\<lambda>r. (if ty = FCGI_STDOUT then take content_len (drop 8 data) else []) @ r)
                  (parse_fcgi_stdout (drop end data)))"
  by pat_completeness auto
termination
  by (relation "measure length") auto

declare parse_fcgi_stdout.simps [simp del]

section \<open>SCGI\<close>

definition append_pair :: "string \<Rightarrow> string \<Rightarrow> byte list" where
  "append_pair k v = bytes_of k @ [0] @ bytes_of v @ [0]"

definition build_scgi_request :: "cgi_env \<Rightarrow> byte list \<Rightarrow> byte list" where
  "build_scgi_request env body =
     (let block = append_pair ''CONTENT_LENGTH'' (show_nat (length body))
            @ concat (map (\<lambda>(k, v). if k \<noteq> ''CONTENT_LENGTH'' then append_pair k v else []) env)
      in bytes_of (show_nat (length block)) @ [0x3A] @ block @ [0x2C] @ body)"

section \<open>Handlers\<close>

record backend_metrics =
  bm_requests_total :: u64
  bm_in_flight :: "64 word"
  bm_errors_total :: u64
  bm_spawn_failures_total :: u64

definition guard_new :: "backend_metrics \<Rightarrow> backend_metrics" where
  "guard_new m = m\<lparr>bm_in_flight := bm_in_flight m + 1\<rparr>"

definition guard_drop :: "backend_metrics \<Rightarrow> backend_metrics" where
  "guard_drop m = m\<lparr>bm_in_flight := bm_in_flight m - 1\<rparr>"

definition count_error :: "backend_metrics \<Rightarrow> backend_metrics" where
  "count_error m = m\<lparr>bm_errors_total := bm_errors_total m + 1\<rparr>"

text \<open>A reply of the server or the response of the application; \<open>Panicked\<close> unwinds out of the handler.\<close>

datatype 'h backend_reply = Own reply | App "'h http_response" | Panicked

record socket_ops =
  unix_exchange :: "string \<Rightarrow> byte list \<Rightarrow> byte list option"
  tcp_exchange :: "string \<Rightarrow> byte list \<Rightarrow> byte list option"

definition socket_roundtrip :: "socket_ops \<Rightarrow> string \<Rightarrow> byte list \<Rightarrow> byte list option" where
  "socket_roundtrip S socket request =
     (case strip_prefix ''unix:'' socket of
        Some path \<Rightarrow> unix_exchange S path request
      | None \<Rightarrow>
          (case strip_prefix ''tcp:'' socket of
             Some addr \<Rightarrow> tcp_exchange S addr request
           | None \<Rightarrow> None))"

definition collect_body :: "byte list option \<Rightarrow> backend_metrics \<Rightarrow> (reply + byte list) \<times> backend_metrics" where
  "collect_body body m = (case body of Some b \<Rightarrow> (Inr b, m) | None \<Rightarrow> (Inl response_502, count_error m))"

definition finish_cgi ::
  "'h header_ops \<Rightarrow> byte list \<Rightarrow> backend_metrics \<Rightarrow> 'h backend_reply \<times> backend_metrics" where
  "finish_cgi H stdout m =
     (case parse_cgi_response H stdout of
        Inl _ \<Rightarrow> (Own response_502, count_error m)
      | Inr None \<Rightarrow> (Panicked, m)
      | Inr (Some r) \<Rightarrow> (App r, m))"

record socket_handler =
  so_socket :: string
  so_root :: string
  so_index :: "string option"

definition fcgi_handle ::
  "socket_ops \<Rightarrow> 'h header_ops \<Rightarrow> 'u uri_ops \<Rightarrow> 'h \<Rightarrow> socket_handler \<Rightarrow> ('h, 'u) routed_request \<Rightarrow> byte list option \<Rightarrow>
   backend_metrics \<Rightarrow> 'h backend_reply \<times> backend_metrics" where
  "fcgi_handle S H U trace so req body m0 =
     (let m1 = guard_new (m0\<lparr>bm_requests_total := bm_requests_total m0 + 1\<rparr>);
          (r, m2) =
            (case collect_body body m1 of
               (Inl resp, m2) \<Rightarrow> (Own resp, m2)
             | (Inr b, m2) \<Rightarrow>
                 let env = build_cgi_env H U trace req (so_root so) (so_index so) b in
                 (case socket_roundtrip S (so_socket so) (build_fcgi_request env b) of
                    None \<Rightarrow> (Own response_502, count_error m2)
                  | Some raw \<Rightarrow>
                      (case parse_fcgi_stdout raw of
                         Some stdout \<Rightarrow> finish_cgi H stdout m2
                       | None \<Rightarrow> (Own response_502, count_error m2))))
      in (r, guard_drop m2))"

definition scgi_handle ::
  "socket_ops \<Rightarrow> 'h header_ops \<Rightarrow> 'u uri_ops \<Rightarrow> 'h \<Rightarrow> socket_handler \<Rightarrow> ('h, 'u) routed_request \<Rightarrow> byte list option \<Rightarrow>
   backend_metrics \<Rightarrow> 'h backend_reply \<times> backend_metrics" where
  "scgi_handle S H U trace so req body m0 =
     (let m1 = guard_new (m0\<lparr>bm_requests_total := bm_requests_total m0 + 1\<rparr>);
          (r, m2) =
            (case collect_body body m1 of
               (Inl resp, m2) \<Rightarrow> (Own resp, m2)
             | (Inr b, m2) \<Rightarrow>
                 let env = build_cgi_env H U trace req (so_root so) (so_index so) b in
                 (case socket_roundtrip S (so_socket so) (build_scgi_request env b) of
                    None \<Rightarrow> (Own response_502, count_error m2)
                  | Some raw \<Rightarrow> finish_cgi H raw m2))
      in (r, guard_drop m2))"

text \<open>What running a script gives.\<close>

datatype run_result = SpawnFailed | StdinFailed | WaitFailed | Output "byte list"

definition resolve_script :: "(string \<Rightarrow> bool) \<Rightarrow> string \<Rightarrow> string \<Rightarrow> string option" where
  "resolve_script exists base path =
     (case safe_join base path of None \<Rightarrow> None | Some c \<Rightarrow> if exists c then Some c else None)"

definition cgi_handle ::
  "(string \<Rightarrow> cgi_env \<Rightarrow> byte list \<Rightarrow> run_result) \<Rightarrow> (string \<Rightarrow> bool) \<Rightarrow> 'h header_ops \<Rightarrow> 'u uri_ops \<Rightarrow> 'h \<Rightarrow> string \<Rightarrow>
   ('h, 'u) routed_request \<Rightarrow> byte list option \<Rightarrow> backend_metrics \<Rightarrow> 'h backend_reply \<times> backend_metrics" where
  "cgi_handle run exists H U trace base req body m0 =
     (let m1 = guard_new (m0\<lparr>bm_requests_total := bm_requests_total m0 + 1\<rparr>);
          path = uri_path U (rr_uri req);
          (r, m2) =
            (if ends_with_char path CHR ''/'' then (Own response_404, m1)
             else (case resolve_script exists base path of
               None \<Rightarrow> (Own response_404, m1)
             | Some script \<Rightarrow>
                 (case collect_body body m1 of
                    (Inl resp, m2) \<Rightarrow> (Own resp, m2)
                  | (Inr b, m2) \<Rightarrow>
                      (case run script (build_cgi_env H U trace req base None b) b of
                         SpawnFailed \<Rightarrow>
                           (Own response_502,
                            count_error (m2\<lparr>bm_spawn_failures_total := bm_spawn_failures_total m2 + 1\<rparr>))
                       | StdinFailed \<Rightarrow> (Own response_502, count_error m2)
                       | WaitFailed \<Rightarrow> (Own response_502, count_error m2)
                       | Output out \<Rightarrow> finish_cgi H out m2))))
      in (r, guard_drop m2))"

section \<open>What the application reads\<close>

text \<open>A FastCGI responder: records one after the other, streams that end with an empty record.\<close>

definition read_record :: "byte list \<Rightarrow> ((byte \<times> byte list) \<times> byte list) option" where
  "read_record s =
     (if length s < 8 then None
      else
        let n = unat (from_be_bytes (s ! 4) (s ! 5)); p = unat (s ! 6) in
        if length s < 8 + n + p then None else Some ((s ! 1, take n (drop 8 s)), drop (8 + n + p) s))"

lemma read_record_shorter: "read_record s = Some (c, r) \<Longrightarrow> length r < length s"
  by (auto simp: read_record_def Let_def split: if_splits)

function read_stream :: "byte \<Rightarrow> byte list \<Rightarrow> (byte list \<times> byte list) option" where
  "read_stream ty s =
     (case read_record s of
        None \<Rightarrow> None
      | Some ((t, c), r) \<Rightarrow>
          if t \<noteq> ty then None
          else if c = [] then Some ([], r)
          else map_option (\<lambda>(d, r'). (c @ d, r')) (read_stream ty r))"
  by pat_completeness auto
termination
  by (relation "measure (\<lambda>(ty, s). length s)") (auto dest: read_record_shorter)

declare read_stream.simps [simp del]

definition decode_length :: "byte list \<Rightarrow> (nat \<times> byte list) option" where
  "decode_length s =
     (case s of
        [] \<Rightarrow> None
      | b # r \<Rightarrow>
          if b < 0x80 then Some (unat b, r)
          else if length s < 4 then None
          else Some (value_of (take 4 s) - 2147483648, drop 4 s))"

lemma decode_length_shorter: "decode_length s = Some (n, r) \<Longrightarrow> length r < length s"
  by (auto simp: decode_length_def split: list.splits if_splits)

function decode_params :: "byte list \<Rightarrow> (byte list \<times> byte list) list option" where
  "decode_params s =
     (if s = [] then Some []
      else
        case decode_length s of
          None \<Rightarrow> None
        | Some (n, r) \<Rightarrow>
            (case decode_length r of
               None \<Rightarrow> None
             | Some (m, t) \<Rightarrow>
                 if length t < n + m then None
                 else map_option (Cons (take n t, take m (drop n t))) (decode_params (drop (n + m) t))))"
  by pat_completeness auto
termination
  by (relation "measure length") (auto dest!: decode_length_shorter)

declare decode_params.simps [simp del]

definition fcgi_receive :: "byte list \<Rightarrow> ((byte list \<times> byte list) list \<times> byte list) option" where
  "fcgi_receive s =
     Option.bind (read_record s) (\<lambda>((t, c), r).
       if t \<noteq> FCGI_BEGIN_REQUEST \<or> take 2 c \<noteq> to_be_bytes FCGI_RESPONDER then None
       else
         Option.bind (read_stream FCGI_PARAMS r) (\<lambda>(ps, r1).
         Option.bind (decode_params ps) (\<lambda>env.
         Option.bind (read_stream FCGI_STDIN r1) (\<lambda>(body, _). Some (env, body)))))"

text \<open>An SCGI server: a netstring of null-terminated pairs, then the body.\<close>

fun pairs_of :: "'a list \<Rightarrow> ('a \<times> 'a) list option" where
  "pairs_of [] = Some []"
| "pairs_of [_] = None"
| "pairs_of (k # v # r) = map_option (Cons (k, v)) (pairs_of r)"

definition scgi_receive :: "byte list \<Rightarrow> ((byte list \<times> byte list) list \<times> byte list) option" where
  "scgi_receive s =
     Option.bind (split_once 0x3A s) (\<lambda>(d, r).
     Option.bind (parse_uint u64_max (string_of_bytes d)) (\<lambda>n.
       if length r \<le> n \<or> r ! n \<noteq> 0x2C \<or> n = 0 \<or> r ! (n - 1) \<noteq> 0 then None
       else map_option (\<lambda>ps. (ps, drop (Suc n) r)) (pairs_of (butlast (split_on 0 (take n r))))))"

section \<open>Lemmas\<close>

lemma read_record_build:
  "read_record (build_record ty c @ r) =
     (let n = length c mod 65536; p = (8 - length c mod 8) mod 8;
          s = c @ replicate p 0 @ r
      in Some ((ty, take n c), drop (n + p) s))"
proof -
  let ?p = "(8 - length c mod 8) mod 8"
  let ?s = "build_record ty c @ r"
  have s: "?s = [FCGI_VERSION, ty] @ to_be_bytes REQUEST_ID @ to_be_bytes (of_nat (length c)) @ [of_nat ?p, 0]
      @ (c @ replicate ?p 0 @ r)" by (simp add: build_record_def Let_def)
  have h: "?s ! 1 = ty" "?s ! 6 = of_nat ?p" "drop 8 ?s = c @ replicate ?p 0 @ r"
    "from_be_bytes (?s ! 4) (?s ! 5) = of_nat (length c)" "length ?s = 8 + length c + ?p + length r"
    unfolding s by (simp_all add: to_be_bytes_def from_to_be_bytes)
  have l: "unat (of_nat (length c) :: u16) = length c mod 65536" "unat (of_nat ?p :: byte) = ?p"
    by (simp_all add: unat_of_nat)
  have "take (length c mod 65536) (c @ replicate ?p 0 @ r) = take (length c mod 65536) c" by simp
  moreover have "drop (8 + a + b) xs = drop (a + b) (drop 8 xs)" for a b and xs :: "byte list"
    unfolding drop_drop by (simp add: ac_simps)
  then have "drop (8 + length c mod 65536 + ?p) ?s = drop (length c mod 65536 + ?p) (drop 8 ?s)" .
  ultimately show ?thesis
    unfolding read_record_def h(1-4) l Let_def using h(3,5) mod_less_eq_dividend[of "length c" 65536] by auto
qed

lemma read_record_small:
  "length c < 65536 \<Longrightarrow> read_record (build_record ty c @ r) = Some ((ty, c), r)"
  by (simp add: read_record_build Let_def)

lemma read_stream_one:
  assumes "length c < 65536"
  shows "read_stream ty (build_record ty c @ build_record ty [] @ r) = (if c = [] then Some ([], build_record ty [] @ r) else Some (c, r))"
proof -
  have e: "read_stream ty (build_record ty [] @ r) = Some ([], r)"
    by (subst read_stream.simps) (simp add: read_record_small)
  show ?thesis by (subst read_stream.simps) (simp add: read_record_small[OF assms] e)
qed

lemma high_bit_or:
  assumes "n < 2147483648"
  shows "unat (or (of_nat n) 0x80000000 :: u32) = n + 2147483648"
proof -
  have a: "and (of_nat n :: u32) 0x80000000 = 0"
  proof -
    have e: "(0x80000000 :: u32) = push_bit 31 1" by (simp add: push_bit_eq_mult)
    have b: "\<not> bit n 31" using assms by (simp add: bit_iff_odd)
    show ?thesis
      unfolding e
    proof (rule bit_word_eqI)
      fix m assume "m < LENGTH(32)"
      show "bit (and (of_nat n :: u32) (push_bit 31 1)) m = bit (0 :: u32) m"
        using b by (cases "m = 31") (simp_all only: bit_and_iff bit_push_bit_iff bit_1_iff bit_of_nat_iff, auto)
    qed
  qed
  have "or (of_nat n :: u32) 0x80000000 = of_nat n + 0x80000000" using disjunctive_add_eq_or[OF a] by simp
  also have "\<dots> = of_nat (n + 2147483648)" by simp
  finally show ?thesis using assms by (simp only: unat_of_nat) simp
qed

lemma decode_encode_length:
  assumes "n < 2147483648"
  shows "decode_length (encode_length n @ r) = Some (n, r)"
proof (cases "n < 128")
  case True
  then have "unat (of_nat n :: byte) = n" by (simp add: unat_of_nat)
  then show ?thesis using True by (simp add: encode_length_def decode_length_def word_less_nat_alt)
next
  case False
  let ?x = "n + 2147483648"
  have e: "encode_length n = octets_of 4 ?x" using False high_bit_or[OF assms] by (simp add: encode_length_def)
  have "?x < 256 ^ 4" using assms by simp
  then have v: "value_of (octets_of 4 ?x) = ?x" by (simp add: value_octets)
  define b :: byte where "b = of_nat (?x div 16777216 mod 256)"
  have o': "octets_of 4 ?x = b # octets_of 3 ?x"
    using be_digits_Suc[of 256 3 ?x] unfolding octets_of_def b_def by simp
  have "128 \<le> ?x div 16777216" "?x div 16777216 < 256" using assms by linarith+
  then have "128 \<le> unat b" unfolding b_def by (simp only: unat_of_nat) simp
  then have nb: "\<not> b < 0x80" by (simp add: word_less_nat_alt)
  have "take 4 (b # octets_of 3 ?x @ r) = octets_of 4 ?x" "drop 4 (b # octets_of 3 ?x @ r) = r"
    unfolding o' by simp_all
  then show ?thesis using v nb unfolding e o' by (simp add: decode_length_def)
qed

lemma decode_encode_params:
  assumes "\<forall>(n, v) \<in> set env. length n < 2147483648 \<and> length v < 2147483648"
  shows "decode_params (encode_params env) = Some (map (\<lambda>(n, v). (bytes_of n, bytes_of v)) env)"
  using assms
proof (induction env)
  case Nil
  then show ?case by (subst decode_params.simps) (simp add: encode_params_def)
next
  case (Cons p env)
  obtain n v where p: "p = (n, v)" by (cases p)
  have "encode_length (length n) \<noteq> []" by (simp add: encode_length_def octets_of_def be_digits_def)
  moreover have "encode_params (p # env) = encode_length (length n) @ encode_length (length v) @ bytes_of n @ bytes_of v @ encode_params env"
    by (simp add: encode_params_def p)
  ultimately show ?case
    using Cons p by (subst decode_params.simps) (simp add: decode_encode_length)
qed

lemma encode_params_empty: "encode_params env = [] \<longleftrightarrow> env = []"
  by (cases env) (auto simp: encode_params_def encode_length_def octets_of_def be_digits_def split: prod.splits)

lemma begin_record:
  "read_record (build_record FCGI_BEGIN_REQUEST (to_be_bytes FCGI_RESPONDER @ [0, 0, 0, 0, 0, 0]) @ r)
    = Some ((FCGI_BEGIN_REQUEST, to_be_bytes FCGI_RESPONDER @ [0, 0, 0, 0, 0, 0]), r)"
  by (rule read_record_small) (simp add: to_be_bytes_def)

text \<open>An environment FastCGI can carry in one record.\<close>

definition fcgi_fits :: "cgi_env \<Rightarrow> bool" where
  "fcgi_fits env \<longleftrightarrow> env \<noteq> [] \<and> length (encode_params env) < 65536"

lemma encode_params_length: "(n, v) \<in> set env \<Longrightarrow> length n + length v \<le> length (encode_params env)"
  by (induction env) (auto simp: encode_params_def)

lemma fits_lengths: "fcgi_fits env \<Longrightarrow> \<forall>(n, v) \<in> set env. length n < 2147483648 \<and> length v < 2147483648"
  using encode_params_length by (fastforce simp: fcgi_fits_def)

lemma fcgi_receive_params:
  assumes "fcgi_fits env"
  shows "fcgi_receive (build_fcgi_request env body) =
    map_option (\<lambda>(b, _). (map (\<lambda>(n, v). (bytes_of n, bytes_of v)) env, b))
      (read_stream FCGI_STDIN (build_record FCGI_STDIN body @ build_record FCGI_STDIN []))"
proof -
  let ?r = "build_record FCGI_STDIN body @ build_record FCGI_STDIN []"
  have "read_stream FCGI_PARAMS (build_record FCGI_PARAMS (encode_params env) @ build_record FCGI_PARAMS [] @ ?r)
      = Some (encode_params env, ?r)"
    using assms read_stream_one[of "encode_params env" FCGI_PARAMS ?r]
    by (simp add: fcgi_fits_def encode_params_empty)
  moreover have "take 2 (to_be_bytes FCGI_RESPONDER @ [0, 0, 0, 0, 0, 0]) = to_be_bytes FCGI_RESPONDER"
    by (simp add: to_be_bytes_def)
  ultimately show ?thesis
    unfolding fcgi_receive_def build_fcgi_request_def append_assoc
    by (simp add: begin_record decode_encode_params[OF fits_lengths[OF assms]] split: option.splits)
      (simp add: map_option_case split: option.splits prod.splits)
qed

subsection \<open>SCGI\<close>

lemma bytes_no_zero: "CHR 0x00 \<notin> set s \<Longrightarrow> 0 \<notin> set (bytes_of s)"
proof
  assume s: "CHR 0x00 \<notin> set s" and "0 \<in> set (bytes_of s)"
  then obtain c where c: "c \<in> set s" "(of_char c :: byte) = 0" by (auto simp: bytes_of_def)
  then have "(of_char c :: nat) = 0" using unat_of_char[of c] by simp
  moreover have "of_char (CHR 0x00) = (0 :: nat)" by simp
  ultimately have "c = CHR 0x00" by (metis of_char_eq_iff)
  then show False using c s by simp
qed

lemma split_pairs:
  assumes "\<forall>(k, v) \<in> set ps. CHR 0x00 \<notin> set k \<and> CHR 0x00 \<notin> set v"
  shows "pairs_of (butlast (split_on 0 (concat (map (\<lambda>(k, v). append_pair k v) ps))))
    = Some (map (\<lambda>(k, v). (bytes_of k, bytes_of v)) ps)"
  using assms
proof (induction ps)
  case (Cons p ps)
  obtain k v where p: "p = (k, v)" by (cases p)
  have "0 \<notin> set (bytes_of k)" "0 \<notin> set (bytes_of v)" using Cons.prems p bytes_no_zero by auto
  then show ?case using Cons p by (simp add: append_pair_def split_on_append)
qed simp

definition scgi_vars :: "cgi_env \<Rightarrow> byte list \<Rightarrow> cgi_env" where
  "scgi_vars env body =
     (''CONTENT_LENGTH'', show_nat (length body)) # filter (\<lambda>(k, _). k \<noteq> ''CONTENT_LENGTH'') env"

lemma scgi_block:
  "append_pair ''CONTENT_LENGTH'' (show_nat (length body))
     @ concat (map (\<lambda>(k, v). if k \<noteq> ''CONTENT_LENGTH'' then append_pair k v else []) env)
   = concat (map (\<lambda>(k, v). append_pair k v) (scgi_vars env body))"
proof -
  have "concat (map (\<lambda>(k, v). if k \<noteq> ''CONTENT_LENGTH'' then append_pair k v else []) env)
      = concat (map (\<lambda>(k, v). append_pair k v) (filter (\<lambda>(k, _). k \<noteq> ''CONTENT_LENGTH'') env))"
    by (induction env) auto
  then show ?thesis by (simp add: scgi_vars_def)
qed

lemma show_nat_zero_free: "CHR 0x00 \<notin> set (show_nat n)"
  by (rule show_nat_no_char) (simp add: is_ascii_digit_def)

lemma append_pairs_last: "ps \<noteq> [] \<Longrightarrow> \<exists>b. concat (map (\<lambda>(k, v). append_pair k v) ps) = b @ [0]"
  by (induction ps rule: rev_induct) (auto simp: append_pair_def split: prod.splits)

section \<open>Properties\<close>

text \<open>
  C30. A FastCGI responder recovers the request: for an environment that fits one record and a body
  of fewer than 65536 bytes, the records that are sent read back as exactly the environment, in
  order, and the body.
\<close>

theorem fcgi_request_received:
  assumes "fcgi_fits env" "length body < 65536"
  shows "fcgi_receive (build_fcgi_request env body) = Some (map (\<lambda>(n, v). (bytes_of n, bytes_of v)) env, body)"
  using fcgi_receive_params[OF assms(1)] read_stream_one[OF assms(2), of FCGI_STDIN "[]"] by simp

theorem fcgi_request_received_witness:
  "fcgi_receive (build_fcgi_request [(''A'', ''b'')] [1, 2]) = Some ([([0x41], [0x62])], [1, 2])"
proof -
  have "fcgi_fits [(''A'', ''b'')]" by (simp add: fcgi_fits_def encode_params_def encode_length_def)
  from fcgi_request_received[OF this, of "[1, 2]"] show ?thesis by (simp add: bytes_of_def)
qed

text \<open>
  C31. A larger body is lost: the 16-bit length of the single record wraps, so a body of exactly
  65536 bytes is announced as empty, which ends the input stream, while the environment still
  says its full length.
\<close>

theorem fcgi_body_wraps:
  assumes "fcgi_fits env" "length body = 65536"
  shows "fcgi_receive (build_fcgi_request env body) = Some (map (\<lambda>(n, v). (bytes_of n, bytes_of v)) env, [])"
proof -
  have "read_stream FCGI_STDIN (build_record FCGI_STDIN body @ build_record FCGI_STDIN [])
      = Some ([], drop 0 (body @ build_record FCGI_STDIN []))"
    using assms(2) by (subst read_stream.simps) (simp add: read_record_build Let_def)
  then show ?thesis using fcgi_receive_params[OF assms(1), of body] by simp
qed

theorem fcgi_body_wraps_witness:
  "fcgi_receive (build_fcgi_request [(''A'', ''b'')] (replicate 65536 7)) = Some ([([0x41], [0x62])], [])"
proof -
  have "fcgi_fits [(''A'', ''b'')]" by (simp add: fcgi_fits_def encode_params_def encode_length_def)
  from fcgi_body_wraps[OF this, of "replicate 65536 7"] show ?thesis by (simp add: bytes_of_def)
qed

text \<open>
  C32. An SCGI server recovers the request: for an environment without null characters it reads the
  content length first, then every other variable in order, and the body, of any length.
\<close>

theorem scgi_request_received:
  assumes "\<forall>(k, v) \<in> set env. CHR 0x00 \<notin> set k \<and> CHR 0x00 \<notin> set v"
    "length (build_scgi_request env body) \<le> u64_max"
  shows "scgi_receive (build_scgi_request env body) =
    Some (map (\<lambda>(k, v). (bytes_of k, bytes_of v)) (scgi_vars env body), body)"
proof -
  define block where "block = concat (map (\<lambda>(k, v). append_pair k v) (scgi_vars env body))"
  have req: "build_scgi_request env body = bytes_of (show_nat (length block)) @ [0x3A] @ block @ [0x2C] @ body"
    unfolding build_scgi_request_def scgi_block block_def Let_def ..
  have "0x3A \<notin> set (bytes_of (show_nat n))" for n
  proof
    assume "0x3A \<in> set (bytes_of (show_nat n))"
    then obtain c where c: "c \<in> set (show_nat n)" "(of_char c :: byte) = 0x3A" by (auto simp: bytes_of_def)
    then have "(of_char c :: nat) = 58" using unat_of_char[of c] by simp
    then show False using show_nat_digits[of n] c(1) by (auto simp: is_ascii_digit_def Let_def)
  qed
  then have s: "split_once 0x3A (build_scgi_request env body) = Some (bytes_of (show_nat (length block)), block @ [0x2C] @ body)"
    unfolding req by (simp add: split_once_append)
  have n: "parse_uint u64_max (show_nat (length block)) = Some (length block)"
    using assms(2) unfolding req by (intro parse_show_nat) simp
  obtain b where b: "block = b @ [0]" using append_pairs_last[of "scgi_vars env body"] by (auto simp: block_def scgi_vars_def)
  have "\<forall>(k, v) \<in> set (scgi_vars env body). CHR 0x00 \<notin> set k \<and> CHR 0x00 \<notin> set v"
    using assms(1) show_nat_zero_free by (auto simp: scgi_vars_def)
  from split_pairs[OF this] show ?thesis
    unfolding scgi_receive_def s using n b by (simp add: block_def[symmetric] nth_append)
qed

theorem scgi_request_received_witness:
  "scgi_receive (build_scgi_request [(''A'', ''b''), (''CONTENT_LENGTH'', ''9'')] [7, 8]) =
     Some ([(bytes_of ''CONTENT_LENGTH'', [0x32]), ([0x41], [0x62])], [7, 8])"
proof -
  let ?env = "[(''A'', ''b''), (''CONTENT_LENGTH'', ''9'')]"
  have "length (build_scgi_request ?env [7, 8]) \<le> 100" by code_simp
  then have len: "length (build_scgi_request ?env [7, 8]) \<le> u64_max" by simp
  have two: "bytes_of (show_nat (length [7 :: byte, 8])) = [0x32]" by code_simp
  have "\<forall>(k, v) \<in> set ?env. CHR 0x00 \<notin> set k \<and> CHR 0x00 \<notin> set v" by simp
  from scgi_request_received[OF this len] show ?thesis
    unfolding scgi_vars_def list.map prod.case filter.simps two by (simp add: bytes_of_def)
qed

definition counted :: "backend_metrics \<Rightarrow> 'h backend_reply \<times> backend_metrics \<Rightarrow> bool" where
  "counted m0 p \<longleftrightarrow>
     bm_requests_total (snd p) = bm_requests_total m0 + 1 \<and> bm_in_flight (snd p) = bm_in_flight m0
     \<and> bm_errors_total (snd p) = bm_errors_total m0 + (if fst p = Own response_502 then 1 else 0)"

text \<open>
  C33. The counters of the three handlers are exact on every path, also when the handler panics: one
  request is counted, the gauge of requests in flight returns to its value, and an error is
  counted exactly when the server answers 502 itself.
\<close>

theorem backend_counters_exact:
  "counted m0 (fcgi_handle S H U trace so req body m0) \<and> counted m0 (scgi_handle S H U trace so req body m0)
   \<and> counted m0 (cgi_handle run exists H U trace base req body m0)"
proof -
  have "response_404 \<noteq> response_502" by (simp add: response_404_def response_502_def html_response_def)
  then have "counted m0 (fcgi_handle S H U trace so req body m0)" "counted m0 (scgi_handle S H U trace so req body m0)"
    "counted m0 (cgi_handle run exists H U trace base req body m0)"
    by (auto simp: counted_def fcgi_handle_def scgi_handle_def cgi_handle_def guard_new_def guard_drop_def
        collect_body_def count_error_def finish_cgi_def Let_def
        split: option.splits sum.splits prod.splits run_result.splits)
  then show ?thesis by simp
qed

lemma cgi_header_status: "cgi_header H l st = Inr st' \<Longrightarrow> valid_status (fst st) \<Longrightarrow> valid_status (fst st')"
  by (auto simp: cgi_header_def Let_def split: if_splits option.splits prod.splits)

lemma cgi_headers_status: "cgi_headers H ls st = Inr st' \<Longrightarrow> valid_status (fst st) \<Longrightarrow> valid_status (fst st')"
proof (induction ls arbitrary: st)
  case (Cons l ls)
  then show ?case using cgi_header_status[of H "trim l" st] by (cases "cgi_header H (trim l) st") auto
qed simp

lemma find_subsequence_split:
  "find_subsequence s needle = Some i \<Longrightarrow> s = take i s @ needle @ drop (i + length needle) s"
proof (induction s arbitrary: i)
  case (Cons b s)
  show ?case
  proof (cases "starts_with (b # s) needle")
    case True
    then obtain y where "b # s = needle @ y" by (auto simp: starts_with_def)
    moreover have "i = 0" using True Cons.prems by simp
    ultimately show ?thesis by simp
  next
    case False
    then show ?thesis using Cons by auto
  qed
qed (auto split: if_splits)

lemma boundary_split:
  assumes "find_header_boundary s = Some (hb, body)"
  shows "\<exists>sep \<in> {[0x0D, 0x0A, 0x0D, 0x0A], [0x0A, 0x0A]}. s = hb @ sep @ body"
proof (cases "find_subsequence s [0x0D, 0x0A, 0x0D, 0x0A]")
  case None
  then obtain i where "find_subsequence s [0x0A, 0x0A] = Some i" "hb = take i s" "body = drop (i + 2) s"
    using assms by (auto simp: find_header_boundary_def split: option.splits)
  then show ?thesis using find_subsequence_split[of s "[0x0A, 0x0A]" i] by auto
next
  case (Some i)
  then have "hb = take i s" "body = drop (i + 4) s" using assms by (auto simp: find_header_boundary_def)
  moreover have "s = take i s @ [0x0D, 0x0A, 0x0D, 0x0A] @ drop (i + 4) s"
    using find_subsequence_split[OF Some] by (simp add: numeral_eq_Suc)
  ultimately show ?thesis by auto
qed

text \<open>
  C34. A response that is taken from a script is well formed: its status is one of the three-digit
  codes, and the script's output is a block of UTF-8 headers, an empty line and exactly the body.
\<close>

theorem cgi_response_typed:
  assumes "finish_cgi H stdout m = (App r, m')"
  shows "valid_status (rs_status r) \<and> m' = m \<and>
    (\<exists>hb body. utf8_valid hb \<and> rs_body r = Some (string_of_bytes body) \<and>
      (stdout = hb @ [0x0D, 0x0A, 0x0D, 0x0A] @ body \<or> stdout = hb @ [0x0A, 0x0A] @ body))"
proof -
  obtain hb body where b: "find_header_boundary stdout = Some (hb, body)" and u: "utf8_valid hb"
    using assms by (auto simp: finish_cgi_def parse_cgi_response_def split: option.splits sum.splits if_splits)
  then obtain st where st: "cgi_headers H (str_lines (string_of_bytes hb)) (200, Some (hm_empty H)) = Inr st"
    using assms
    by (cases "cgi_headers H (str_lines (string_of_bytes hb)) (200, Some (hm_empty H))")
      (auto simp: finish_cgi_def parse_cgi_response_def split: option.splits sum.splits)
  then have r: "rs_status r = fst st" "rs_body r = Some (string_of_bytes body)" "m' = m"
    using assms b u by (auto simp: finish_cgi_def parse_cgi_response_def split: option.splits prod.splits)
  then show ?thesis using cgi_headers_status[OF st] boundary_split[OF b] u by (auto simp: valid_status_def)
qed

theorem cgi_response_typed_witness:
  "\<exists>r m. finish_cgi list_headers (bytes_of ''a: b'' @ [10, 10, 65]) m = (App r, m) \<and> valid_status (rs_status r)"
proof -
  have "parse_cgi_response list_headers (bytes_of ''a: b'' @ [10, 10, 65])
      = Inr (Some \<lparr>rs_status = 200, rs_headers = [(''a'', ''b'')], rs_body = Some ''A''\<rparr>)"
    by code_simp
  then obtain r m where "finish_cgi list_headers (bytes_of ''a: b'' @ [10, 10, 65]) m = (App r, m)"
    by (auto simp: finish_cgi_def)
  with cgi_response_typed[OF this] show ?thesis by blast
qed

end
