(* ===== verification/Websocket.thy ===== *)
theory Websocket
  imports Proxy_Proto "HOL-Library.Sublist"
begin

text \<open>
  The translator of WebSocket frame masking (\<open>handler/proxy/upgrade/ws.rs\<close>) that bridges an
  HTTP/1.1 client and an HTTP/2 backend, or the reverse: the frame header codec and the streaming
  loop. The loop reads whatever chunks the transport delivers, so a header or a payload may be
  split anywhere; the reader is the list of what its reads return, the end of the list is the end
  of the stream, and the writer says how many bytes of a write it takes before it fails. The
  random keys are an argument. Payload lengths and offsets are natural numbers: the parser refuses
  lengths of 2^63 and more, so no 64-bit arithmetic of the loop wraps.
\<close>

unbundle bit_operations_syntax

section \<open>Frame headers\<close>

type_synonym key4 = "byte \<times> byte \<times> byte \<times> byte"

fun key_list :: "key4 \<Rightarrow> byte list" where
  "key_list (a, b, c, d) = [a, b, c, d]"

definition key_of :: "byte list \<Rightarrow> key4" where
  "key_of bs = (bs ! 0, bs ! 1, bs ! 2, bs ! 3)"

datatype mask_mode = Unmask | Mask

record frame_header =
  fin_rsv_opcode :: byte
  masked :: bool
  mask_key :: key4
  payload_len :: nat
  header_len :: nat

datatype ws_error = High_bit_length | Partial_header | Truncated_payload | Io_error

text \<open>The decoded length and the index after it; \<open>None\<close> asks for more bytes.\<close>

definition parse_length :: "byte list \<Rightarrow> ws_error + (nat \<times> nat) option" where
  "parse_length buf =
     (let len7 = buf ! 1 AND 0x7F in
      if len7 = 126 then
        Inr (if length buf < 4 then None else Some (value_of (take 2 (drop 2 buf)), 4))
      else if len7 = 127 then
        (if length buf < 10 then Inr None
         else
           let l = value_of (take 8 (drop 2 buf)) in
           if bit l 63 then Inl High_bit_length else Inr (Some (l, 10)))
      else Inr (Some (unat len7, 2)))"

definition parse_header :: "byte list \<Rightarrow> ws_error + frame_header option" where
  "parse_header buf =
     (if length buf < 2 then Inr None
      else
        let b0 = buf ! 0; msk = buf ! 1 AND 0x80 \<noteq> 0 in
        bind_result (parse_length buf) (\<lambda>r.
          case r of
            None \<Rightarrow> Inr None
          | Some (l, idx) \<Rightarrow>
              if msk then
                (if length buf < idx + 4 then Inr None
                 else Inr (Some \<lparr>fin_rsv_opcode = b0, masked = msk, mask_key = key_of (take 4 (drop idx buf)),
                                 payload_len = l, header_len = idx + 4\<rparr>))
              else Inr (Some \<lparr>fin_rsv_opcode = b0, masked = msk, mask_key = (0, 0, 0, 0),
                              payload_len = l, header_len = idx\<rparr>)))"

definition emit_header :: "byte \<Rightarrow> nat \<Rightarrow> key4 option \<Rightarrow> byte list" where
  "emit_header b0 n key =
     (let mask_bit = (if key \<noteq> None then 0x80 else 0) in
      [b0]
      @ (if n < 126 then [mask_bit OR of_nat n]
         else if n \<le> u16_max then (mask_bit OR 126) # octets_of 2 n
         else (mask_bit OR 127) # octets_of 8 n)
      @ (case key of Some k \<Rightarrow> key_list k | None \<Rightarrow> []))"

section \<open>The streaming loop\<close>

datatype ws_state = Header | Payload nat key4 nat

datatype ws_read = Got "byte list" | Failed

definition eff_key :: "key4 option \<Rightarrow> key4 option \<Rightarrow> key4" where
  "eff_key i o' =
     (let x = (case i of Some k \<Rightarrow> k | None \<Rightarrow> (0, 0, 0, 0)); y = (case o' of Some k \<Rightarrow> k | None \<Rightarrow> (0, 0, 0, 0))
      in key_of (map2 (XOR) (key_list x) (key_list y)))"

definition out_key :: "mask_mode \<Rightarrow> (nat \<Rightarrow> key4) \<Rightarrow> nat \<Rightarrow> key4 option" where
  "out_key mode ks n = (case mode of Mask \<Rightarrow> Some (ks n) | Unmask \<Rightarrow> None)"

definition in_key :: "frame_header \<Rightarrow> key4 option" where
  "in_key h = (if masked h then Some (mask_key h) else None)"

text \<open>The XOR pass over a chunk that starts at the given offset of its payload.\<close>

definition xor_from :: "nat \<Rightarrow> key4 \<Rightarrow> byte list \<Rightarrow> byte list" where
  "xor_from off k chunk = map2 (\<lambda>p b. b XOR key_list k ! (p mod 4)) [off..<off + length chunk] chunk"

text \<open>\<open>write_all\<close>: what has been written then, and whether it succeeded.\<close>

definition write_all :: "(byte list \<Rightarrow> byte list \<Rightarrow> nat) \<Rightarrow> byte list \<Rightarrow> byte list \<Rightarrow> byte list \<times> bool" where
  "write_all wr out x = (out @ take (wr out x) x, length x \<le> wr out x)"

lemma parse_header_len:
  assumes "parse_header buf = Inr (Some h)"
  shows "2 \<le> header_len h" "header_len h \<le> length buf"
  using assms by (auto simp: parse_header_def parse_length_def Let_def res_simps split: if_splits option.splits)

lemma parse_header_shorter: "parse_header buf = Inr (Some h) \<Longrightarrow> length buf - header_len h < length buf"
  using parse_header_len[of buf h] by linarith

function translate_masking ::
  "mask_mode \<Rightarrow> (byte list \<Rightarrow> byte list \<Rightarrow> nat) \<Rightarrow> (nat \<Rightarrow> key4) \<Rightarrow> ws_read list \<Rightarrow> byte list \<Rightarrow> ws_state \<Rightarrow> nat \<Rightarrow> byte list \<Rightarrow>
   (ws_error + unit) \<times> byte list" where
  "translate_masking mode wr ks reads acc Header n out =
     (case parse_header acc of
        Inl e \<Rightarrow> (Inl e, out)
      | Inr (Some h) \<Rightarrow>
          let ok = out_key mode ks n;
              (out', fin) = write_all wr out (emit_header (fin_rsv_opcode h) (payload_len h) ok)
          in if fin then
               translate_masking mode wr ks reads (drop (header_len h) acc)
                 (Payload (payload_len h) (eff_key (in_key h) ok) 0) (Suc n) out'
             else (Inl Io_error, out')
      | Inr None \<Rightarrow>
          (case reads of
             [] \<Rightarrow> (if acc = [] then Inr () else Inl Partial_header, out)
           | Failed # _ \<Rightarrow> (Inl Io_error, out)
           | Got x # rs \<Rightarrow>
               if x = [] then (if acc = [] then Inr () else Inl Partial_header, out)
               else translate_masking mode wr ks rs (acc @ x) Header n out))"
| "translate_masking mode wr ks reads acc (Payload remaining eff off) n out =
     (if remaining = 0 then translate_masking mode wr ks reads acc Header n out
      else if acc = [] then
        (case reads of
           [] \<Rightarrow> (Inl Truncated_payload, out)
         | Failed # _ \<Rightarrow> (Inl Io_error, out)
         | Got x # rs \<Rightarrow>
             if x = [] then (Inl Truncated_payload, out)
             else translate_masking mode wr ks rs x (Payload remaining eff off) n out)
      else
        let cnt = min remaining (length acc);
            chunk = take cnt acc;
            chunk' = (if eff \<noteq> (0, 0, 0, 0) then xor_from off eff chunk else chunk);
            (out', fin) = write_all wr out chunk'
        in if fin then
             translate_masking mode wr ks reads (drop cnt acc) (Payload (remaining - cnt) eff (off + cnt)) n out'
           else (Inl Io_error, out'))"
  by pat_completeness auto

termination
  by (relation "inv_image (less_than <*lex*> less_than <*lex*> less_than)
      (\<lambda>(mode, wr, ks, reads, acc, st, n, out). (length reads, length acc, case st of Header \<Rightarrow> 0 | Payload _ _ _ \<Rightarrow> 1))")
    (auto intro: parse_header_shorter)

declare translate_masking.simps [simp del]

section \<open>The same on a whole buffer\<close>

text \<open>What has arrived when the stream ends or fails, and whether it ends without a failure.\<close>

fun arrived :: "ws_read list \<Rightarrow> byte list" where
  "arrived (Got x # rs) = (if x = [] then [] else x @ arrived rs)"
| "arrived _ = []"

fun clean :: "ws_read list \<Rightarrow> bool" where
  "clean [] = True"
| "clean (Failed # _) = False"
| "clean (Got x # rs) = (x = [] \<or> clean rs)"

text \<open>The frames of a buffer with new keys, one header and one pass of its payload at a time.\<close>

function reframe :: "mask_mode \<Rightarrow> (nat \<Rightarrow> key4) \<Rightarrow> nat \<Rightarrow> byte list \<Rightarrow> (ws_error + unit) \<times> byte list" where
  "reframe mode ks n s =
     (case parse_header s of
        Inl e \<Rightarrow> (Inl e, [])
      | Inr None \<Rightarrow> (if s = [] then Inr () else Inl Partial_header, [])
      | Inr (Some h) \<Rightarrow>
          let rest = drop (header_len h) s;
              ok = out_key mode ks n;
              hdr = emit_header (fin_rsv_opcode h) (payload_len h) ok;
              body = xor_from 0 (eff_key (in_key h) ok) (take (payload_len h) rest)
          in if length rest < payload_len h then (Inl Truncated_payload, hdr @ body)
             else (case reframe mode ks (Suc n) (drop (payload_len h) rest) of (r, o') \<Rightarrow> (r, hdr @ body @ o')))"
  by pat_completeness auto

termination
proof (relation "measure (\<lambda>(_, _, _, s). length s)", goal_cases)
  case (2 mode ks n s h h' rest ok hdr body)
  then show ?case using parse_header_len[of s h'] by simp
qed simp

declare reframe.simps [simp del]

definition resume :: "mask_mode \<Rightarrow> (nat \<Rightarrow> key4) \<Rightarrow> ws_state \<Rightarrow> nat \<Rightarrow> byte list \<Rightarrow> (ws_error + unit) \<times> byte list" where
  "resume mode ks st n s =
     (case st of
        Header \<Rightarrow> reframe mode ks n s
      | Payload remaining eff off \<Rightarrow>
          if length s < remaining then (Inl Truncated_payload, xor_from off eff s)
          else (case reframe mode ks n (drop remaining s) of
            (r, o') \<Rightarrow> (r, xor_from off eff (take remaining s) @ o')))"

lemma xor_from_length [simp]: "length (xor_from off k s) = length s"
  by (simp add: xor_from_def)

lemma xor_from_Nil [simp]: "xor_from off k [] = []"
  by (simp add: xor_from_def)

lemma xor_from_nth: "i < length s \<Longrightarrow> xor_from off k s ! i = s ! i XOR key_list k ! ((off + i) mod 4)"
  by (simp add: xor_from_def)

lemma xor_from_append: "xor_from off k (s @ t) = xor_from off k s @ xor_from (off + length s) k t"
  by (rule nth_equalityI) (auto simp: xor_from_nth nth_append add.assoc)

lemma key_list_zero: "key_list (0, 0, 0, 0) ! (p mod 4) = 0"
proof -
  have "p mod 4 \<in> {0, 1, 2, 3}" by auto
  then show ?thesis by auto
qed

lemma xor_from_zero: "xor_from off (0, 0, 0, 0) s = s"
  by (rule nth_equalityI) (simp_all add: xor_from_nth key_list_zero del: key_list.simps)

text \<open>More bytes do not change a header that has been read.\<close>

lemma parse_length_more:
  assumes "2 \<le> length s" "parse_length s \<noteq> Inr None"
  shows "parse_length (s @ t) = parse_length s"
  using assms by (auto simp: parse_length_def Let_def nth_append split: if_splits)

lemma parse_length_index: "parse_length s = Inr (Some (l, i)) \<Longrightarrow> 2 \<le> length s \<Longrightarrow> i \<le> length s"
  by (auto simp: parse_length_def Let_def split: if_splits)

lemma parse_header_more:
  assumes "parse_header s \<noteq> Inr None"
  shows "parse_header (s @ t) = parse_header s"
proof -
  have s: "2 \<le> length s" "parse_length s \<noteq> Inr None"
    using assms by (auto simp: parse_header_def Let_def split: if_splits)
  then have l: "parse_length (s @ t) = parse_length s" by (rule parse_length_more)
  show ?thesis
  proof (cases "parse_length s")
    case (Inr r)
    then obtain n i where r: "r = Some (n, i)" using s by (cases r) auto
    then show ?thesis using assms l s Inr parse_length_index[of s n i]
      by (auto simp: parse_header_def Let_def nth_append split: if_splits)
  qed (use s l in \<open>simp add: parse_header_def Let_def nth_append\<close>)
qed

lemma reframe_more:
  assumes "parse_header s \<noteq> Inr None"
  shows "reframe mode ks n (s @ t) =
    (case parse_header s of
       Inl e \<Rightarrow> (Inl e, [])
     | Inr (Some h) \<Rightarrow>
         (case resume mode ks (Payload (payload_len h) (eff_key (in_key h) (out_key mode ks n)) 0) (Suc n)
             (drop (header_len h) s @ t) of
           (r, o') \<Rightarrow> (r, emit_header (fin_rsv_opcode h) (payload_len h) (out_key mode ks n) @ o')))"
  using assms parse_header_more[OF assms, of t] parse_header_len[of s]
  by (subst reframe.simps)
    (auto simp: Let_def resume_def split: sum.splits option.splits prod.splits)

lemma resume_step:
  assumes "c \<le> length s" "c \<le> remaining"
  shows "resume mode ks (Payload remaining eff off) n (s @ t) =
    (case resume mode ks (Payload (remaining - c) eff (off + c)) n (drop c s @ t) of
       (r, o') \<Rightarrow> (r, xor_from off eff (take c s) @ o'))"
proof -
  have s: "s @ t = take c s @ (drop c s @ t)" by simp
  have x: "xor_from off eff (take c s @ u) = xor_from off eff (take c s) @ xor_from (off + c) eff u" for u
    using xor_from_append[of off eff "take c s" u] assms(1) by simp
  have d: "drop remaining (s @ t) = drop (remaining - c) (drop c s @ t)"
    "take remaining (s @ t) = take c s @ take (remaining - c) (drop c s @ t)"
    using assms by (subst s, simp)+
  have "length (s @ t) < remaining \<longleftrightarrow> length (drop c s @ t) < remaining - c" using assms by auto
  then show ?thesis
    unfolding resume_def ws_state.case d x using x[of "drop c s @ t"] by (auto simp flip: s split: prod.splits)
qed

lemma reframe_incomplete:
  "parse_header s = Inr None \<Longrightarrow> reframe mode ks n s = (if s = [] then Inr () else Inl Partial_header, [])"
  by (subst reframe.simps) simp

lemma resume_done: "resume mode ks (Payload 0 eff off) n s = resume mode ks Header n s"
  by (simp add: resume_def split: prod.splits)

lemma resume_empty: "0 < remaining \<Longrightarrow> resume mode ks (Payload remaining eff off) n [] = (Inl Truncated_payload, [])"
  by (simp add: resume_def)

lemma pass_chunk: "(if eff \<noteq> (0, 0, 0, 0) then xor_from off eff c else c) = xor_from off eff c"
  by (auto simp: xor_from_zero)

lemma translate_error:
  "parse_header acc = Inl e \<Longrightarrow> translate_masking mode wr ks reads acc Header n out = (Inl e, out)"
  by (simp add: translate_masking.simps)

lemma translate_frame:
  "parse_header acc = Inr (Some h) \<Longrightarrow> translate_masking mode wr ks reads acc Header n out =
    (let ok = out_key mode ks n; x = emit_header (fin_rsv_opcode h) (payload_len h) ok in
     if length x \<le> wr out x then
       translate_masking mode wr ks reads (drop (header_len h) acc)
         (Payload (payload_len h) (eff_key (in_key h) ok) 0) (Suc n) (out @ x)
     else (Inl Io_error, out @ take (wr out x) x))"
  by (subst translate_masking.simps) (simp add: write_all_def Let_def)

lemma translate_chunk:
  "0 < remaining \<Longrightarrow> acc \<noteq> [] \<Longrightarrow> translate_masking mode wr ks reads acc (Payload remaining eff off) n out =
    (let cnt = min remaining (length acc); x = xor_from off eff (take cnt acc) in
     if length x \<le> wr out x then
       translate_masking mode wr ks reads (drop cnt acc) (Payload (remaining - cnt) eff (off + cnt)) n (out @ x)
     else (Inl Io_error, out @ take (wr out x) x))"
  by (subst translate_masking.simps) (simp add: write_all_def Let_def xor_from_zero)

text \<open>
  A run against the translation of the whole buffer: its output is a prefix of it, also when a
  write fails, and all of it with the same result when nothing fails.
\<close>

definition follows ::
  "(byte list \<Rightarrow> byte list \<Rightarrow> nat) \<Rightarrow> ws_read list \<Rightarrow> byte list \<Rightarrow> (ws_error + unit) \<times> byte list \<Rightarrow>
   (ws_error + unit) \<times> byte list \<Rightarrow> bool" where
  "follows wr reads out R T \<longleftrightarrow> prefix (snd T) (out @ snd R)
     \<and> ((\<forall>o' x. length x \<le> wr o' x) \<longrightarrow> snd T = out @ snd R \<and> (clean reads \<longrightarrow> fst T = fst R))"

lemma follows_write:
  assumes "length x \<le> wr out x \<Longrightarrow> follows wr reads (out @ x) R T"
  shows "follows wr reads out (fst R, x @ snd R)
    (if length x \<le> wr out x then T else (Inl Io_error, out @ take (wr out x) x))"
  using assms by (auto simp: follows_def take_is_prefix prefix_append)

lemma translate_follows:
  "follows wr reads out (resume mode ks st n (acc @ arrived reads)) (translate_masking mode wr ks reads acc st n out)"
proof (induction mode wr ks reads acc st n out rule: translate_masking.induct)
  case (1 mode wr ks reads acc n out)
  consider (error) e where "parse_header acc = Inl e" | (frame) h where "parse_header acc = Inr (Some h)"
    | (more) "parse_header acc = Inr None" by (metis option.exhaust sum.exhaust)
  then show ?case
  proof cases
    case error
    then show ?thesis using reframe_more[of acc mode ks n "arrived reads"] 
      by (simp add: translate_error resume_def follows_def)
  next
    case frame
    let ?ok = "out_key mode ks n"
    let ?x = "emit_header (fin_rsv_opcode h) (payload_len h) ?ok"
    let ?R = "resume mode ks (Payload (payload_len h) (eff_key (in_key h) ?ok) 0) (Suc n) (drop (header_len h) acc @ arrived reads)"
    have "resume mode ks Header n (acc @ arrived reads) = (fst ?R, ?x @ snd ?R)"
      using frame reframe_more[of acc mode ks n "arrived reads"] by (simp add: resume_def[of _ _ Header] split: prod.splits)
    moreover have "length ?x \<le> wr out ?x \<Longrightarrow> follows wr reads (out @ ?x) ?R
        (translate_masking mode wr ks reads (drop (header_len h) acc) (Payload (payload_len h) (eff_key (in_key h) ?ok) 0) (Suc n) (out @ ?x))"
      using 1(2)[OF frame refl refl] by (simp add: write_all_def)
    ultimately show ?thesis unfolding translate_frame[OF frame] Let_def by (metis follows_write)
  next
    case more
    show ?thesis
    proof (cases "\<exists>x rs. reads = Got x # rs \<and> x \<noteq> []")
      case True
      then obtain x rs where x: "reads = Got x # rs" "x \<noteq> []" by blast
      have "translate_masking mode wr ks reads acc Header n out = translate_masking mode wr ks rs (acc @ x) Header n out"
        using more x by (subst translate_masking.simps) simp
      then show ?thesis using 1(1)[OF more refl x(1) refl x(2)] x by (simp add: follows_def)
    next
      case False
      then show ?thesis using more reframe_incomplete[OF more, of mode ks n]
        by (subst translate_masking.simps) (auto simp: follows_def resume_def split: list.splits ws_read.splits)
    qed
  qed
next
  case (2 mode wr ks reads acc remaining eff off n out)
  consider (zero) "remaining = 0" | (read) "0 < remaining" "acc = []" | (chunk) "0 < remaining" "acc \<noteq> []" by blast
  then show ?case
  proof cases
    case zero
    then show ?thesis using 2(1) by (subst translate_masking.simps) (simp add: resume_done)
  next
    case read
    show ?thesis
    proof (cases "\<exists>x rs. reads = Got x # rs \<and> x \<noteq> []")
      case True
      then obtain x rs where x: "reads = Got x # rs" "x \<noteq> []" by blast
      have "translate_masking mode wr ks reads acc (Payload remaining eff off) n out
          = translate_masking mode wr ks rs x (Payload remaining eff off) n out"
        using read x by (subst translate_masking.simps) simp
      then show ?thesis using 2(2)[OF _ _ x(1) refl x(2)] read x by (simp add: follows_def)
    next
      case False
      then show ?thesis using read
        by (subst translate_masking.simps) (auto simp: follows_def resume_empty split: list.splits ws_read.splits)
    qed
  next
    case chunk
    let ?c = "min remaining (length acc)"
    let ?x = "xor_from off eff (take ?c acc)"
    let ?R = "resume mode ks (Payload (remaining - ?c) eff (off + ?c)) n (drop ?c acc @ arrived reads)"
    have "resume mode ks (Payload remaining eff off) n (acc @ arrived reads) = (fst ?R, ?x @ snd ?R)"
      using resume_step[of ?c acc remaining mode ks eff off n "arrived reads"] by (simp split: prod.splits)
    moreover have "length ?x \<le> wr out ?x \<Longrightarrow> follows wr reads (out @ ?x) ?R
        (translate_masking mode wr ks reads (drop ?c acc) (Payload (remaining - ?c) eff (off + ?c)) n (out @ ?x))"
      using 2(3)[OF _ _ refl refl refl] chunk by (simp add: write_all_def pass_chunk)
    ultimately show ?thesis unfolding translate_chunk[OF chunk] Let_def by (metis follows_write)
  qed
qed

section \<open>The codec\<close>

lemma bit_0x80: "bit (0x80 :: byte) i \<longleftrightarrow> i = 7"
proof -
  have "(0x80 :: byte) = push_bit 7 1" by (simp add: push_bit_eq_mult)
  show ?thesis unfolding \<open>0x80 = push_bit 7 1\<close> bit_push_bit_iff by (auto simp: bit_simps)
qed

lemma bit_0x7F: "bit (0x7F :: byte) i \<longleftrightarrow> i < 7"
proof -
  have "(0x7F :: byte) = mask 7" by (simp add: mask_eq_exp_minus_1)
  show ?thesis unfolding \<open>0x7F = mask 7\<close> by (auto simp: bit_simps)
qed

lemma small_bits: "unat (x :: byte) < 128 \<Longrightarrow> bit x i \<Longrightarrow> i < 7"
proof -
  assume "unat x < 128"
  then have "x = take_bit 7 x" by (simp add: word_unat_eq_iff unsigned_take_bit_eq take_bit_nat_eq_self)
  moreover assume "bit x i"
  ultimately show "i < 7" by (metis bit_take_bit_iff)
qed

lemma length_byte:
  assumes "unat (x :: byte) < 128"
  shows "((if m then 0x80 else 0) OR x) AND 0x80 \<noteq> 0 \<longleftrightarrow> m" "((if m then 0x80 else 0) OR x) AND 0x7F = x"
proof -
  have "(0x80 OR x) AND 0x80 = (0x80 :: byte)" by (rule bit_word_eqI) (auto simp: bit_simps bit_0x80)
  moreover have "x AND 0x80 = 0"
    by (rule bit_word_eqI) (use small_bits[OF assms] in \<open>auto simp only: bit_and_iff bit_0x80 bit_0_eq bot_apply bot_bool_def less_irrefl\<close>)
  ultimately show "((if m then 0x80 else 0) OR x) AND 0x80 \<noteq> 0 \<longleftrightarrow> m" by auto
  show "((if m then 0x80 else 0) OR x) AND 0x7F = x"
    by (rule bit_word_eqI)
      (use small_bits[OF assms] in \<open>auto simp only: bit_and_iff bit_or_iff bit_0x80 bit_0x7F bit_0_eq bot_apply bot_bool_def if_True if_False split: if_splits\<close>)
qed

lemma key_of_list [simp]: "key_of (key_list k) = k"
  by (cases k) (simp add: key_of_def)

lemma length_key_list [simp]: "length (key_list k) = 4"
  by (cases k) simp

lemma parse_emit_header:
  assumes "n < 2 ^ 63"
  shows "parse_header (emit_header b n key @ t) =
    Inr (Some \<lparr>fin_rsv_opcode = b, masked = key \<noteq> None,
               mask_key = (case key of Some k \<Rightarrow> k | None \<Rightarrow> (0, 0, 0, 0)),
               payload_len = n, header_len = length (emit_header b n key)\<rparr>)"
proof -
  define m where "m = (key \<noteq> None)"
  define x :: byte where "x = (if n < 126 then of_nat n else if n \<le> u16_max then 126 else 127)"
  define ext where "ext = (if n < 126 then [] else octets_of (if n \<le> u16_max then 2 else 8) n)"
  define ks where "ks = (case key of Some k \<Rightarrow> key_list k | None \<Rightarrow> [])"
  let ?b1 = "(if m then 0x80 else 0) OR x"
  have e: "emit_header b n key = b # ?b1 # ext @ ks"
    unfolding emit_header_def m_def x_def ext_def ks_def by (simp add: Let_def)
  have "unat x < 128" by (simp add: x_def unat_of_nat)
  note y = length_byte[OF this, of m]
  have small: "n < 126 \<Longrightarrow> unat x = n" by (simp add: x_def unat_of_nat)
  have v: "n \<le> u16_max \<Longrightarrow> value_of (octets_of 2 n) = n" "value_of (octets_of 8 n) = n" "\<not> bit n 63"
    using assms by (simp_all add: value_octets bit_iff_odd)
  have l: "parse_length (emit_header b n key @ t) = Inr (Some (n, 2 + length ext))"
  proof (cases "n < 126")
    case True
    then have "x \<noteq> 126 \<and> x \<noteq> 127" using small by auto
    then show ?thesis using True small y by (simp add: e parse_length_def Let_def ext_def)
  next
    case False
    then show ?thesis using y v by (simp add: e parse_length_def Let_def ext_def x_def)
  qed
  show ?thesis
    unfolding parse_header_def l unfolding e using y
    by (cases key) (simp_all add: Let_def m_def ks_def)
qed

section \<open>What the receiver reads\<close>

record ws_frame =
  fr_head :: byte
  fr_key :: "key4 option"
  fr_payload :: "byte list"

definition apply_key :: "key4 option \<Rightarrow> byte list \<Rightarrow> byte list" where
  "apply_key key p = (case key of Some k \<Rightarrow> xor_from 0 k p | None \<Rightarrow> p)"

text \<open>The frames of a whole stream with their payloads in the clear; \<open>None\<close> when it does not end with a frame.\<close>

function decode_frames :: "byte list \<Rightarrow> ws_frame list option" where
  "decode_frames s =
     (case parse_header s of
        Inl e \<Rightarrow> None
      | Inr None \<Rightarrow> (if s = [] then Some [] else None)
      | Inr (Some h) \<Rightarrow>
          let rest = drop (header_len h) s in
          if length rest < payload_len h then None
          else map_option (Cons \<lparr>fr_head = fin_rsv_opcode h, fr_key = in_key h,
                                 fr_payload = apply_key (in_key h) (take (payload_len h) rest)\<rparr>)
                 (decode_frames (drop (payload_len h) rest)))"
  by pat_completeness auto

termination
proof (relation "measure length", goal_cases)
  case (2 s h h' rest)
  then show ?case using parse_header_len[of s h'] by simp
qed simp

declare decode_frames.simps [simp del]

fun rekey :: "mask_mode \<Rightarrow> (nat \<Rightarrow> key4) \<Rightarrow> nat \<Rightarrow> ws_frame list \<Rightarrow> ws_frame list" where
  "rekey mode ks n [] = []"
| "rekey mode ks n (f # fs) = f\<lparr>fr_key := out_key mode ks n\<rparr> # rekey mode ks (Suc n) fs"

lemma eff_key_nth: "key_list (eff_key i o') ! (p mod 4) =
  key_list (case i of Some k \<Rightarrow> k | None \<Rightarrow> (0, 0, 0, 0)) ! (p mod 4) XOR
  key_list (case o' of Some k \<Rightarrow> k | None \<Rightarrow> (0, 0, 0, 0)) ! (p mod 4)"
proof -
  have k: "key_list (key_of s) ! j = s ! j" if "j < 4" for s j
    using that by (simp add: key_of_def less_Suc_eq numeral_eq_Suc) auto
  have "p mod 4 < 4" by simp
  then show ?thesis by (simp add: eff_key_def Let_def k del: key_list.simps)
qed

lemma apply_key_xor: "apply_key key p = xor_from 0 (case key of Some k \<Rightarrow> k | None \<Rightarrow> (0, 0, 0, 0)) p"
  by (simp add: apply_key_def xor_from_zero split: option.splits)

lemma apply_key_eff: "apply_key o' (xor_from 0 (eff_key i o') p) = apply_key i p"
  unfolding apply_key_xor
  by (rule nth_equalityI) (simp_all add: xor_from_nth eff_key_nth xor.assoc del: key_list.simps)

lemma value_of_less: "value_of bs < 256 ^ length bs"
proof (induction bs)
  case (Cons b bs)
  have "unat b < 256" using unsigned_less[of b, where 'a = nat] by simp
  then have "unat b * 256 ^ length bs \<le> 255 * 256 ^ length bs" by (intro mult_right_mono) simp_all
  moreover have "value_of (b # bs) = unat b * 256 ^ length bs + value_of bs" by (simp add: value_of_def be_value_Cons)
  moreover have "(256 :: nat) ^ length (b # bs) = 255 * 256 ^ length bs + 256 ^ length bs" by simp
  ultimately show ?case using Cons by linarith
qed (simp add: value_of_def)

lemma value_of_take: "value_of (take n bs) < 256 ^ n"
  by (rule less_le_trans[OF value_of_less]) (simp add: power_increasing)

lemma clear_high_bit:
  assumes "(l :: nat) < 2 ^ 64" "\<not> bit l 63"
  shows "l < 2 ^ 63"
proof (rule ccontr)
  assume "\<not> ?thesis"
  then have "l div 2 ^ 63 = 1" using assms(1) by (intro div_nat_eqI) simp_all
  then show False using assms(2) by (simp add: bit_iff_odd)
qed

lemma parse_length_bound:
  assumes "parse_length s = Inr (Some (n, i))"
  shows "n < 2 ^ 63"
proof -
  have "value_of (take 2 (drop 2 s)) < 2 ^ 63" using value_of_take[of 2 "drop 2 s"] by simp
  moreover have "\<not> bit (value_of (take 8 (drop 2 s))) 63 \<Longrightarrow> value_of (take 8 (drop 2 s)) < 2 ^ 63"
    using value_of_take[of 8 "drop 2 s"] by (intro clear_high_bit) simp_all
  moreover have "unat (s ! 1 AND 0x7F) < 2 ^ 63" using unsigned_less[of "s ! 1 AND 0x7F", where 'a = nat] by simp
  ultimately show ?thesis using assms by (auto simp: parse_length_def Let_def split: if_splits)
qed

lemma parse_header_bound: "parse_header s = Inr (Some h) \<Longrightarrow> payload_len h < 2 ^ 63"
  using parse_length_bound[of s]
  by (cases "parse_length s") (auto simp: parse_header_def Let_def split: if_splits option.splits)

lemma decode_frame:
  assumes "n < 2 ^ 63" "length p = n"
  shows "decode_frames (emit_header b n key @ p @ s) =
    map_option (Cons \<lparr>fr_head = b, fr_key = key, fr_payload = apply_key key p\<rparr>) (decode_frames s)"
  using parse_emit_header[OF assms(1), of b key "p @ s"] assms(2)
  by (subst decode_frames.simps) (cases key, simp_all add: in_key_def)

lemma reframe_decodes:
  "case decode_frames s of
     None \<Rightarrow> \<exists>e. fst (reframe mode ks n s) = Inl e
   | Some fs \<Rightarrow> fst (reframe mode ks n s) = Inr () \<and> decode_frames (snd (reframe mode ks n s)) = Some (rekey mode ks n fs)"
proof (induction s arbitrary: n rule: decode_frames.induct)
  case (1 s)
  show ?case
  proof (cases "\<exists>h. parse_header s = Inr (Some h) \<and> payload_len h \<le> length (drop (header_len h) s)")
    case True
    then obtain h where h: "parse_header s = Inr (Some h)" "payload_len h \<le> length (drop (header_len h) s)" by blast
    let ?rest = "drop (header_len h) s" and ?ok = "out_key mode ks n"
    let ?t = "drop (payload_len h) ?rest" and ?p = "xor_from 0 (eff_key (in_key h) ?ok) (take (payload_len h) ?rest)"
    have ih: "case decode_frames ?t of
       None \<Rightarrow> \<exists>e. fst (reframe mode ks (Suc n) ?t) = Inl e
     | Some fs \<Rightarrow> fst (reframe mode ks (Suc n) ?t) = Inr () \<and>
         decode_frames (snd (reframe mode ks (Suc n) ?t)) = Some (rekey mode ks (Suc n) fs)"
      using 1[OF h(1) refl refl] h(2) by simp
    have r: "reframe mode ks n s = (fst (reframe mode ks (Suc n) ?t),
        emit_header (fin_rsv_opcode h) (payload_len h) ?ok @ ?p @ snd (reframe mode ks (Suc n) ?t))"
      using h by (subst reframe.simps) (simp add: Let_def split: prod.splits)
    have d: "decode_frames s = map_option (Cons \<lparr>fr_head = fin_rsv_opcode h, fr_key = in_key h,
        fr_payload = apply_key (in_key h) (take (payload_len h) ?rest)\<rparr>) (decode_frames ?t)"
      using h by (subst decode_frames.simps) (simp add: Let_def)
    show ?thesis
      using ih h(2) unfolding r d
      by (auto simp: decode_frame[OF parse_header_bound[OF h(1)]] apply_key_eff split: option.splits)
  next
    case False
    then show ?thesis
      by (subst (1) decode_frames.simps, subst reframe.simps)
        (auto simp: Let_def decode_frames.simps[of "[]"] reframe.simps[of mode ks n "[]"] parse_header_def[of "[]"]
          split: sum.splits option.splits)
  qed
qed

section \<open>Properties\<close>

text \<open>The loop as it is called, with an empty buffer before the first header.\<close>

definition translate_stream ::
  "mask_mode \<Rightarrow> (byte list \<Rightarrow> byte list \<Rightarrow> nat) \<Rightarrow> (nat \<Rightarrow> key4) \<Rightarrow> ws_read list \<Rightarrow> (ws_error + unit) \<times> byte list" where
  "translate_stream mode wr ks reads = translate_masking mode wr ks reads [] Header 0 []"

text \<open>
  C35. The translation is exact however the transport cuts the stream into reads: when no read and no
  write fails, a stream of whole frames ends without an error and the other side decodes the
  same frames, with the same payloads, each with the key of the mode; any other stream ends with
  an error. Whatever fails, what has been written is a prefix of that translation.
\<close>

theorem ws_translation_exact:
  assumes "\<forall>o' x. length x \<le> ideal o' x" "clean reads'" "arrived reads' = arrived reads"
  shows "prefix (snd (translate_stream mode wr ks reads)) (snd (translate_stream mode ideal ks reads')) \<and>
    (case decode_frames (arrived reads') of
       None \<Rightarrow> \<exists>e. fst (translate_stream mode ideal ks reads') = Inl e
     | Some fs \<Rightarrow> fst (translate_stream mode ideal ks reads') = Inr ()
         \<and> decode_frames (snd (translate_stream mode ideal ks reads')) = Some (rekey mode ks 0 fs))"
proof -
  have a: "translate_stream mode ideal ks reads' = reframe mode ks 0 (arrived reads')"
    using translate_follows[of ideal reads' "[]" mode ks Header 0 "[]"] assms
    by (simp add: follows_def translate_stream_def resume_def prod_eq_iff)
  have "prefix (snd (translate_stream mode wr ks reads)) (snd (reframe mode ks 0 (arrived reads)))"
    using translate_follows[of wr reads "[]" mode ks Header 0 "[]"]
    by (simp add: follows_def translate_stream_def resume_def)
  then show ?thesis unfolding a using reframe_decodes[where s = "arrived reads'" and mode = mode and ks = ks and n = 0] assms(3) by simp
qed

theorem ws_translation_exact_witness:
  "decode_frames (snd (translate_stream Unmask (\<lambda>_ x. length x) (\<lambda>_. (0, 0, 0, 0))
     [Got [0x81, 0x83, 1], Got [2, 3, 4, 0x49], Got [0x6B, 0x22]]))
   = Some [\<lparr>fr_head = 0x81, fr_key = None, fr_payload = [0x48, 0x69, 0x21]\<rparr>]"
proof -
  let ?r = "[Got [0x81, 0x83, 1], Got [2, 3, 4, 0x49], Got [0x6B, 0x22]]"
  have "decode_frames (arrived ?r) = Some [\<lparr>fr_head = 0x81, fr_key = Some (1, 2, 3, 4), fr_payload = [0x48, 0x69, 0x21]\<rparr>]"
    by code_simp
  then show ?thesis
    using ws_translation_exact[of "\<lambda>_ x. length x" ?r ?r Unmask "\<lambda>_ _. 0" "\<lambda>_. (0, 0, 0, 0)"]
    by (simp add: out_key_def)
qed

end
