(* ===== verification/Forwarding.thy ===== *)
theory Forwarding
  imports Matcher Proxy_Proto Replies
begin

text \<open>
  What the reverse proxy sends upstream (\<open>handler/proxy.rs\<close>, \<open>handler/proxy/inner.rs\<close>): the headers
  and the URI of the backend request, the client of one upstream with its transports, and the
  HTTP/3 hint it learns from \<open>Alt-Svc\<close>.

  The accessors of a URI that only the proxy calls are the record \<open>backend_uri_ops\<close>. The exchange
  with the backend is the record \<open>transport\<close>: each entry is one of the client libraries the code
  calls, and says what its call returns. Log messages and spans are left out, except for the trace
  headers, which are what the propagator writes for the active span (\<open>None\<close> without one).
\<close>

section \<open>Headers\<close>

definition HOP_BY_HOP :: "string list" where
  "HOP_BY_HOP =
     [''connection'', ''keep-alive'', ''proxy-authenticate'', ''proxy-authorization'', ''te'',
      ''transfer-encoding'', ''upgrade'']"

definition te_accepts_trailers :: "string \<Rightarrow> bool" where
  "te_accepts_trailers v =
     list_ex (\<lambda>tok. eq_ignore_ascii_case (trim (hd (split_on CHR '';'' tok))) ''trailers'') (split_on CHR '','' v)"

definition connection_listed :: "'h header_ops \<Rightarrow> 'h \<Rightarrow> string list" where
  "connection_listed H h =
     (case hm_get_str H h ''connection'' of
        None \<Rightarrow> []
      | Some s \<Rightarrow> List.map_filter (\<lambda>p. hn_from_bytes H (trim p)) (split_on CHR '','' s))"

definition remove_all :: "'h header_ops \<Rightarrow> string list \<Rightarrow> 'h \<Rightarrow> 'h" where
  "remove_all H ns h = fold (\<lambda>n h. hm_remove H h n) ns h"

definition keep_te :: "'h header_ops \<Rightarrow> 'h \<Rightarrow> bool" where
  "keep_te H h = (case hm_get_str H h ''te'' of None \<Rightarrow> False | Some v \<Rightarrow> te_accepts_trailers v)"

definition strip_hop_by_hop :: "'h header_ops \<Rightarrow> 'h \<Rightarrow> 'h" where
  "strip_hop_by_hop H h =
     (let listed = connection_listed H h;
          keep = keep_te H h;
          h' = remove_all H listed (remove_all H HOP_BY_HOP h)
      in if keep then hm_insert H h' ''te'' ''trailers'' else h')"

definition new_xff :: "'h header_ops \<Rightarrow> 'h \<Rightarrow> string \<Rightarrow> string" where
  "new_xff H h ip =
     (case hm_get H h ''x-forwarded-for'' of
        Some existing \<Rightarrow> (case hv_to_str H existing of Some s \<Rightarrow> s @ '', '' @ ip | None \<Rightarrow> ip)
      | None \<Rightarrow> ip)"

definition insert_if_valid :: "'h header_ops \<Rightarrow> string \<Rightarrow> string \<Rightarrow> 'h \<Rightarrow> 'h" where
  "insert_if_valid H n s h = (case hv_from_str H s of Some v \<Rightarrow> hm_insert H h n v | None \<Rightarrow> h)"

definition set_forwarding_headers :: "'h header_ops \<Rightarrow> string option \<Rightarrow> 'h \<Rightarrow> 'h" where
  "set_forwarding_headers H peer_ip h =
     (case peer_ip of
        None \<Rightarrow> h
      | Some ip \<Rightarrow> insert_if_valid H ''x-real-ip'' ip (insert_if_valid H ''x-forwarded-for'' (new_xff H h ip) h))"

definition inject_current :: "'h header_ops \<Rightarrow> (string \<times> string) list option \<Rightarrow> 'h \<Rightarrow> 'h" where
  "inject_current H trace h =
     (case trace of
        None \<Rightarrow> h
      | Some ps \<Rightarrow>
          fold (\<lambda>(n, v) h. insert_if_valid H n v h) ps (hm_remove H (hm_remove H h ''traceparent'') ''tracestate''))"

definition convert_response :: "'h header_ops \<Rightarrow> 'h http_response \<Rightarrow> 'h http_response" where
  "convert_response H resp = resp\<lparr>rs_headers := strip_hop_by_hop H (rs_headers resp)\<rparr>"

definition content_length :: "'h header_ops \<Rightarrow> 'h \<Rightarrow> u64" where
  "content_length H h =
     (case Option.bind (hm_get_str H h ''content-length'') (parse_uint u64_max) of
        Some n \<Rightarrow> of_nat n
      | None \<Rightarrow> 0)"

section \<open>The backend request\<close>

record 'u backend_uri_ops =
  bu_parse :: "string \<Rightarrow> 'u option"
  bu_scheme :: "'u \<Rightarrow> string option"
  bu_authority :: "'u \<Rightarrow> string option"
  bu_host :: "'u \<Rightarrow> string option"
  bu_port :: "'u \<Rightarrow> nat option"
  bu_build :: "string \<Rightarrow> string \<Rightarrow> string \<Rightarrow> 'u option"

text \<open>A URI to evaluate with: an optional scheme and authority, a path and an optional query.\<close>

record full_uri =
  fu_scheme :: "string option"
  fu_authority :: "string option"
  fu_path :: string
  fu_query :: "string option"

definition full_pq :: "full_uri \<Rightarrow> string \<Rightarrow> full_uri option" where
  "full_pq u s =
     (if starts_with s ''/''
      then (case split_once CHR ''?'' s of
              None \<Rightarrow> Some (u\<lparr>fu_path := s, fu_query := None\<rparr>)
            | Some (p, q) \<Rightarrow> Some (u\<lparr>fu_path := p, fu_query := Some q\<rparr>))
      else None)"

definition full_uris :: "full_uri uri_ops" where
  "full_uris = \<lparr>uri_path = fu_path, uri_query = fu_query, uri_set_pq = full_pq,
     method_from_bytes = method_from_bytes plain_uri\<rparr>"

definition full_parse :: "string \<Rightarrow> string \<Rightarrow> full_uri option" where
  "full_parse sc rest =
     (let a = hd (split_on CHR ''/'' rest); p = drop (length a) rest
      in Some \<lparr>fu_scheme = Some sc, fu_authority = Some a, fu_path = (if p = [] then ''/'' else p), fu_query = None\<rparr>)"

definition full_backend :: "full_uri backend_uri_ops" where
  "full_backend =
     \<lparr>bu_parse = (\<lambda>s. case strip_prefix ''http://'' s of
                    Some rest \<Rightarrow> full_parse ''http'' rest
                  | None \<Rightarrow> Option.bind (strip_prefix ''https://'' s) (full_parse ''https'')),
      bu_scheme = fu_scheme, bu_authority = fu_authority,
      bu_host = (\<lambda>u. map_option (\<lambda>a. hd (split_on CHR '':'' a)) (fu_authority u)),
      bu_port = (\<lambda>u. Option.bind (Option.bind (fu_authority u) (split_once CHR '':'')) (\<lambda>p. parse_uint u16_max (snd p))),
      bu_build = (\<lambda>sc a pq. full_pq \<lparr>fu_scheme = Some sc, fu_authority = Some a, fu_path = [], fu_query = None\<rparr> pq)\<rparr>"

datatype backend_error = No_authority | Build_failed

definition forwarded_path :: "bool \<Rightarrow> string \<Rightarrow> string \<Rightarrow> string" where
  "forwarded_path strip prefix path =
     (if strip then (case strip_prefix prefix path of Some p \<Rightarrow> p | None \<Rightarrow> path) else path)"

definition combine_path :: "string \<Rightarrow> string \<Rightarrow> string" where
  "combine_path upstream_path path =
     (let base = trim_end_char CHR ''/'' upstream_path
      in if starts_with path ''/'' then base @ path else base @ ''/'' @ path)"

definition build_backend_uri ::
  "'u uri_ops \<Rightarrow> 'u backend_uri_ops \<Rightarrow> 'u \<Rightarrow> 'u \<Rightarrow> string \<Rightarrow> bool \<Rightarrow> backend_error + 'u" where
  "build_backend_uri U B up req_uri prefix strip =
     (let combined = combine_path (uri_path U up) (forwarded_path strip prefix (uri_path U req_uri));
          pq = (case uri_query U req_uri of Some q \<Rightarrow> combined @ ''?'' @ q | None \<Rightarrow> combined);
          scheme = (case bu_scheme B up of Some s \<Rightarrow> s | None \<Rightarrow> ''http'')
      in case bu_authority B up of
           None \<Rightarrow> Inl No_authority
         | Some a \<Rightarrow> (case bu_build B scheme a pq of Some u \<Rightarrow> Inr u | None \<Rightarrow> Inl Build_failed))"

definition prepare_backend_request_inner ::
  "'h header_ops \<Rightarrow> 'u uri_ops \<Rightarrow> 'u backend_uri_ops \<Rightarrow> (string \<times> string) list option \<Rightarrow> 'u \<Rightarrow> bool \<Rightarrow> ip_addr option \<Rightarrow>
   ('h, 'u) routed_request \<Rightarrow> string \<Rightarrow> bool \<Rightarrow> backend_error + ('h, 'u) routed_request" where
  "prepare_backend_request_inner H U B trace up strip peer req prefix is_upgrade =
     bind_result (build_backend_uri U B up (rr_uri req) prefix strip) (\<lambda>uri.
       let h1 = (if is_upgrade then rr_headers req else strip_hop_by_hop H (rr_headers req));
           h2 = inject_current H trace (set_forwarding_headers H (map_option show_ip peer) h1);
           h3 = (case bu_authority B up of Some a \<Rightarrow> insert_if_valid H ''host'' a h2 | None \<Rightarrow> h2)
       in Inr (req\<lparr>rr_uri := uri, rr_headers := h3\<rparr>))"

section \<open>The client of one upstream\<close>

datatype upstream_scheme = Auto | SchemeH3 | H2c

datatype client_kind = HttpClient | UnixClient | QuicClient

record 'u inner_client =
  ic_client :: client_kind
  ic_http2_only :: bool
  ic_upstream :: 'u
  ic_strip_prefix :: bool
  ic_proxy_protocol :: "proxy_version option"
  ic_unix_path :: "string option"
  ic_skip_verify :: bool
  ic_auto_h3_enabled :: bool
  ic_upgrade_scheme :: upstream_scheme

datatype inner_error = Static_uri | Invalid_url | Bad_scheme | No_host | H3_setup

text \<open>\<open>h3_new\<close> says whether a QUIC client can be set up for a URL; \<open>grpc\<close> whether that block is present.\<close>

definition new_inner ::
  "'u backend_uri_ops \<Rightarrow> (bool \<Rightarrow> 'u \<Rightarrow> bool) \<Rightarrow> string \<Rightarrow> bool \<Rightarrow> proxy_version option \<Rightarrow> upstream_scheme \<Rightarrow> bool \<Rightarrow> bool \<Rightarrow>
   inner_error + 'u inner_client" where
  "new_inner B h3_new upstream_str strip pp scheme skip_verify grpc =
     (let force_h2 = (grpc \<or> scheme = H2c) in
      case strip_prefix ''unix:'' upstream_str of
        Some path \<Rightarrow>
          (case bu_parse B ''http://localhost'' of
             None \<Rightarrow> Inl Static_uri
           | Some up \<Rightarrow>
               Inr \<lparr>ic_client = UnixClient, ic_http2_only = force_h2, ic_upstream = up, ic_strip_prefix = strip,
                    ic_proxy_protocol = pp, ic_unix_path = Some path, ic_skip_verify = False,
                    ic_auto_h3_enabled = False, ic_upgrade_scheme = scheme\<rparr>)
      | None \<Rightarrow>
          (case bu_parse B upstream_str of
             None \<Rightarrow> Inl Invalid_url
           | Some up \<Rightarrow>
               if bu_scheme B up \<notin> {Some ''http'', Some ''https''} then Inl Bad_scheme
               else if bu_authority B up = None then Inl No_host
               else if scheme = SchemeH3 then
                 (if h3_new skip_verify up
                  then Inr \<lparr>ic_client = QuicClient, ic_http2_only = force_h2, ic_upstream = up, ic_strip_prefix = strip,
                            ic_proxy_protocol = pp, ic_unix_path = None, ic_skip_verify = skip_verify,
                            ic_auto_h3_enabled = False, ic_upgrade_scheme = scheme\<rparr>
                  else Inl H3_setup)
               else Inr \<lparr>ic_client = HttpClient, ic_http2_only = force_h2, ic_upstream = up, ic_strip_prefix = strip,
                         ic_proxy_protocol = pp, ic_unix_path = None, ic_skip_verify = skip_verify,
                         ic_auto_h3_enabled = starts_with upstream_str ''https://'', ic_upgrade_scheme = scheme\<rparr>))"

subsection \<open>The HTTP/3 hint\<close>

definition MAX_ALT_SVC_MA_SECS :: nat where
  "MAX_ALT_SVC_MA_SECS = 24 * 3600"

text \<open>The last \<open>ma\<close> parameter decides, also when it does not parse.\<close>

definition alt_ma :: "string list \<Rightarrow> nat option" where
  "alt_ma params =
     fold (\<lambda>p ma. case strip_prefix ''ma='' p of Some r \<Rightarrow> parse_uint u64_max (trim r) | None \<Rightarrow> ma) params None"

fun alt_entries :: "string list \<Rightarrow> (nat \<times> nat) option" where
  "alt_entries [] = None"
| "alt_entries (entry # es) =
     (let parts = map trim (split_on CHR '';'' entry) in
      case split_once CHR ''='' (hd parts) of
        None \<Rightarrow> None
      | Some (proto, rest) \<Rightarrow>
          if trim proto \<noteq> ''h3'' then alt_entries es
          else
            let q = trim_char CHR 0x22 (trim rest);
                port_str = (case strip_prefix '':'' q of Some p \<Rightarrow> p | None \<Rightarrow> q)
            in case parse_uint u16_max port_str of
                 None \<Rightarrow> None
               | Some port \<Rightarrow>
                   (case alt_ma (tl parts) of
                      None \<Rightarrow> None
                    | Some ma \<Rightarrow> if ma = 0 then alt_entries es else Some (port, ma)))"

definition parse_alt_svc_h3 :: "string \<Rightarrow> (nat \<times> nat) option" where
  "parse_alt_svc_h3 v = alt_entries (split_on CHR '','' v)"

text \<open>The hint is a port with the second it expires; the lazy client is the URL it was built for.\<close>

record 'u h3_state =
  h3_hint :: "(nat \<times> nat) option"
  h3_lazy :: "'u option"

definition original_port :: "'u backend_uri_ops \<Rightarrow> 'u inner_client \<Rightarrow> nat" where
  "original_port B ic = (case bu_port B (ic_upstream ic) of Some p \<Rightarrow> p | None \<Rightarrow> 443)"

fun absorb_values :: "'h header_ops \<Rightarrow> nat \<Rightarrow> nat \<Rightarrow> string list \<Rightarrow> 'u h3_state \<Rightarrow> 'u h3_state" where
  "absorb_values H original now [] st = st"
| "absorb_values H original now (v # vs) st =
     (case Option.bind (hv_to_str H v) parse_alt_svc_h3 of
        None \<Rightarrow> absorb_values H original now vs st
      | Some (port, ma) \<Rightarrow>
          if port < 1024 \<and> port \<noteq> original then absorb_values H original now vs st
          else st\<lparr>h3_hint := Some (port, now + min ma MAX_ALT_SVC_MA_SECS)\<rparr>)"

definition absorb_alt_svc ::
  "'h header_ops \<Rightarrow> 'u backend_uri_ops \<Rightarrow> 'u inner_client \<Rightarrow> nat \<Rightarrow> 'h \<Rightarrow> 'u h3_state \<Rightarrow> 'u h3_state" where
  "absorb_alt_svc H B ic now h st = absorb_values H (original_port B ic) now (hm_get_all H h ''alt-svc'') st"

definition alt_url :: "string \<Rightarrow> nat \<Rightarrow> string" where
  "alt_url host port = ''https://'' @ host @ '':'' @ show_nat port @ ''/''"

definition try_upgrade_to_h3 ::
  "'u backend_uri_ops \<Rightarrow> (bool \<Rightarrow> 'u \<Rightarrow> bool) \<Rightarrow> 'u inner_client \<Rightarrow> nat \<Rightarrow> 'u h3_state \<Rightarrow> 'u option \<times> 'u h3_state" where
  "try_upgrade_to_h3 B h3_new ic now st =
     (case h3_hint st of
        None \<Rightarrow> (None, st)
      | Some (port, expires_at) \<Rightarrow>
          if expires_at \<le> now then (None, st\<lparr>h3_hint := None\<rparr>)
          else (case h3_lazy st of
            Some c \<Rightarrow> (Some c, st)
          | None \<Rightarrow>
              (case Option.bind (bu_host B (ic_upstream ic)) (\<lambda>host. bu_parse B (alt_url host port)) of
                 None \<Rightarrow> (None, st)
               | Some u \<Rightarrow>
                   if h3_new (ic_skip_verify ic) u then (Some u, st\<lparr>h3_lazy := Some u\<rparr>) else (None, st))))"

subsection \<open>One exchange\<close>

datatype 'h exchange = Answered "'h http_response" | ConnectFailed | RequestFailed

datatype raw_target = RawUnix string | RawTcp string | RawTls string string

text \<open>
  The pooled client, the QUIC client of a URL, and a fresh connection that is sent a PROXY header
  first. A failure to reach the backend is told apart from later ones.
\<close>

record ('h, 'u) transport =
  tp_pooled :: "('h, 'u) routed_request \<Rightarrow> string \<Rightarrow> 'h exchange"
  tp_h3 :: "'u \<Rightarrow> ('h, 'u) routed_request \<Rightarrow> string \<Rightarrow> 'h http_response option"
  tp_raw :: "raw_target \<Rightarrow> byte list \<Rightarrow> ('h, 'u) routed_request \<Rightarrow> string \<Rightarrow> 'h exchange"

datatype 'h proxy_reply = Local reply | Backend "'h http_response"

fun reply_status :: "'h proxy_reply \<Rightarrow> nat" where
  "reply_status (Local r) = rp_status r"
| "reply_status (Backend r) = rs_status r"

text \<open>The addresses a listener attaches to a request.\<close>

record peer_info =
  pi_src :: "socket_addr option"
  pi_dst :: "socket_addr option"
  pi_dst_unix :: "string option"

definition proxy_header :: "proxy_version \<Rightarrow> peer_info \<Rightarrow> byte list" where
  "proxy_header version pinfo =
     (case pi_src pinfo of
        Some src \<Rightarrow> build_header version src (case pi_dst pinfo of Some d \<Rightarrow> d | None \<Rightarrow> (V4 0, 0))
      | None \<Rightarrow>
          (case version of
             PV1 \<Rightarrow> build_v1_unknown
           | PV2 \<Rightarrow>
               (case pi_dst_unix pinfo of
                  Some p \<Rightarrow> build_v2_unix None (Some (bytes_of p))
                | None \<Rightarrow> build_v2_unspec)))"

text \<open>The \<open>expect\<close> on the authority holds for every client that \<open>new_inner\<close> returns.\<close>

definition raw_target_of :: "'u backend_uri_ops \<Rightarrow> 'u inner_client \<Rightarrow> raw_target" where
  "raw_target_of B ic =
     (case ic_unix_path ic of
        Some path \<Rightarrow> RawUnix path
      | None \<Rightarrow>
          let authority = the (bu_authority B (ic_upstream ic)) in
          if bu_scheme B (ic_upstream ic) = Some ''https''
          then RawTls authority (case bu_host B (ic_upstream ic) of Some h \<Rightarrow> h | None \<Rightarrow> [])
          else RawTcp authority)"

definition finish_exchange :: "'h header_ops \<Rightarrow> 'h exchange \<Rightarrow> u64 \<Rightarrow> 'h proxy_reply \<times> u64" where
  "finish_exchange H e errs =
     (case e of
        Answered resp \<Rightarrow> (Backend (convert_response H resp), errs)
      | ConnectFailed \<Rightarrow> (Local response_502, errs + 1)
      | RequestFailed \<Rightarrow> (Local response_502, errs))"

text \<open>
  One attempt on one upstream: the reply, the hint, and the counter of failed connections. The
  clock is read when the hint is tried and again when an answer arrives.
\<close>

definition serve ::
  "'h header_ops \<Rightarrow> 'u uri_ops \<Rightarrow> 'u backend_uri_ops \<Rightarrow> (bool \<Rightarrow> 'u \<Rightarrow> bool) \<Rightarrow> ('h, 'u) transport \<Rightarrow>
   (string \<times> string) list option \<Rightarrow> nat \<times> nat \<Rightarrow> 'u inner_client \<Rightarrow> peer_info \<Rightarrow> ('h, 'u) routed_request \<Rightarrow> string \<Rightarrow> string \<Rightarrow>
   'u h3_state \<Rightarrow> u64 \<Rightarrow> 'h proxy_reply \<times> 'u h3_state \<times> u64" where
  "serve H U B h3_new T trace clock ic pinfo req body prefix st errs =
     (case prepare_backend_request_inner H U B trace (ic_upstream ic) (ic_strip_prefix ic)
             (map_option fst (pi_src pinfo)) req prefix False of
        Inl _ \<Rightarrow> (Local response_502, st, errs)
      | Inr breq \<Rightarrow>
          (case ic_proxy_protocol ic of
             Some version \<Rightarrow>
               (case finish_exchange H (tp_raw T (raw_target_of B ic) (proxy_header version pinfo) breq body) errs of
                  (r, errs') \<Rightarrow> (r, st, errs'))
           | None \<Rightarrow>
               if ic_client ic = QuicClient then
                 (case tp_h3 T (ic_upstream ic) breq body of
                    Some resp \<Rightarrow> (Backend resp, st, errs)
                  | None \<Rightarrow> (Local response_502, st, errs))
               else
                 let (h3, st1) = (if ic_auto_h3_enabled ic then try_upgrade_to_h3 B h3_new ic (fst clock) st else (None, st)) in
                 case h3 of
                   Some c \<Rightarrow>
                     (case tp_h3 T c breq body of
                        Some resp \<Rightarrow> (Backend resp, st1, errs)
                      | None \<Rightarrow> (Local response_502, st1\<lparr>h3_hint := None\<rparr>, errs))
                 | None \<Rightarrow>
                     let e = tp_pooled T breq body;
                         st2 = (case e of
                                  Answered resp \<Rightarrow>
                                    if ic_auto_h3_enabled ic
                                    then absorb_alt_svc H B ic (snd clock) (rs_headers resp) st1 else st1
                                | _ \<Rightarrow> st1);
                         (r, errs') = finish_exchange H e errs
                     in (r, st2, errs')))"

section \<open>The headers a backend sees\<close>

lemma show_ip_visible: "c \<in> set (show_ip a) \<Longrightarrow> visible_ascii c"
  using show_ip_chars[of c a] by (auto simp: visible_ascii_def ip_char_def is_digit_of_def digit_val_def Let_def split: if_splits)

context header_map
begin

lemma get_all_remove_all: "hm_get_all H (remove_all H ns h) m = (if m \<in> set ns then [] else hm_get_all H h m)"
  unfolding remove_all_def by (induction ns arbitrary: h) (auto simp: get_all_remove)

lemma get_all_strip:
  "hm_get_all H (strip_hop_by_hop H h) m =
     (if m = ''te'' \<and> keep_te H h then [''trailers'']
      else if m \<in> set HOP_BY_HOP \<union> set (connection_listed H h) then [] else hm_get_all H h m)"
  by (auto simp: strip_hop_by_hop_def Let_def get_all_insert get_all_remove_all)

lemma get_all_insert_if_valid:
  "hm_get_all H (insert_if_valid H n s h) m =
     (if m = n \<and> hv_from_str H s \<noteq> None then [s] else hm_get_all H h m)"
  by (auto simp: insert_if_valid_def get_all_insert from_str_same split: option.splits)

lemma get_all_inject:
  assumes "\<forall>ps. trace = Some ps \<longrightarrow> fst ` set ps \<subseteq> {''traceparent'', ''tracestate''}"
    "m \<noteq> ''traceparent''" "m \<noteq> ''tracestate''"
  shows "hm_get_all H (inject_current H trace h) m = hm_get_all H h m"
proof (cases trace)
  case (Some ps)
  have "hm_get_all H (fold (\<lambda>(n, v) h. insert_if_valid H n v h) ps h') m = hm_get_all H h' m"
    if "fst ` set ps \<subseteq> {''traceparent'', ''tracestate''}" for h'
    using that assms(2,3)
    by (induction ps arbitrary: h') (auto simp: get_all_insert_if_valid)
  then show ?thesis using assms Some by (simp add: inject_current_def get_all_remove)
qed (simp add: inject_current_def)

lemma from_str_ip: "hv_from_str H (show_ip a) = Some (show_ip a)"
  by (rule visible_from_str) (use show_ip_visible in blast)

end

text \<open>The values of a header after the request has been stripped and the peer has been added.\<close>

definition forwarded_values :: "'h header_ops \<Rightarrow> ip_addr option \<Rightarrow> 'h \<Rightarrow> string \<Rightarrow> string list" where
  "forwarded_values H peer h n =
     (let kept = (if n = ''te'' \<and> keep_te H h then [''trailers'']
                  else if n \<in> set HOP_BY_HOP \<union> set (connection_listed H h) then [] else hm_get_all H h n)
      in case peer of
           None \<Rightarrow> kept
         | Some a \<Rightarrow>
             if n = ''x-real-ip'' then [show_ip a]
             else if n = ''x-forwarded-for'' then
               (case kept of
                  [] \<Rightarrow> [show_ip a]
                | v # _ \<Rightarrow>
                    (case hv_to_str H v of
                       None \<Rightarrow> [show_ip a]
                     | Some s \<Rightarrow> if hv_from_str H (s @ '', '' @ show_ip a) = None then kept
                                 else [s @ '', '' @ show_ip a]))
             else kept)"


definition demo_upstream :: full_uri where
  "demo_upstream = \<lparr>fu_scheme = Some ''http'', fu_authority = Some ''b:81'', fu_path = ''/api/'', fu_query = None\<rparr>"

definition demo_request :: "(header_list, full_uri) routed_request" where
  "demo_request =
     \<lparr>rr_method = ''GET'',
      rr_uri = \<lparr>fu_scheme = None, fu_authority = None, fu_path = ''/x/y'', fu_query = Some ''q''\<rparr>,
      rr_headers = [(''host'', ''h''), (''connection'', ''close, x-a''), (''x-a'', ''1''), (''te'', ''gzip, Trailers;q=1''),
                    (''x-forwarded-for'', ''10.0.0.9''), (''accept'', ''*'')]\<rparr>"


section \<open>The HTTP/3 upgrade\<close>

text \<open>A port that an upstream may redirect to: unprivileged, or the one it is configured with.\<close>

definition ok_port :: "'u backend_uri_ops \<Rightarrow> 'u inner_client \<Rightarrow> nat \<Rightarrow> bool" where
  "ok_port B ic port \<longleftrightarrow> 1024 \<le> port \<or> port = original_port B ic"

definition hint_ok :: "'u backend_uri_ops \<Rightarrow> 'u inner_client \<Rightarrow> nat \<Rightarrow> 'u h3_state \<Rightarrow> bool" where
  "hint_ok B ic now st \<longleftrightarrow>
     (case h3_hint st of None \<Rightarrow> True | Some (port, e) \<Rightarrow> ok_port B ic port \<and> e \<le> now + MAX_ALT_SVC_MA_SECS)
     \<and> (case h3_lazy st of
          None \<Rightarrow> True
        | Some u \<Rightarrow> \<exists>host port. bu_host B (ic_upstream ic) = Some host \<and> ok_port B ic port \<and>
            bu_parse B (alt_url host port) = Some u)"

lemma hint_ok_later: "hint_ok B ic now st \<Longrightarrow> now \<le> now' \<Longrightarrow> hint_ok B ic now' st"
  by (auto simp: hint_ok_def split: option.splits)

lemma hint_ok_evict: "hint_ok B ic now st \<Longrightarrow> hint_ok B ic now (st\<lparr>h3_hint := None\<rparr>)"
  by (simp add: hint_ok_def)

lemma absorb_values_ok: "hint_ok B ic now st \<Longrightarrow> hint_ok B ic now (absorb_values H (original_port B ic) now vs st)"
  by (induction vs) (auto simp: hint_ok_def ok_port_def split: option.splits prod.splits)

lemma absorb_ok: "hint_ok B ic now st \<Longrightarrow> hint_ok B ic now (absorb_alt_svc H B ic now h st)"
  unfolding absorb_alt_svc_def by (rule absorb_values_ok)

lemma try_ok: "hint_ok B ic now st \<Longrightarrow> hint_ok B ic now (snd (try_upgrade_to_h3 B h3_new ic now st))"
  by (auto simp: try_upgrade_to_h3_def hint_ok_def bind_eq_Some_conv split: option.splits prod.splits)

lemma try_returns_lazy: "fst (try_upgrade_to_h3 B h3_new ic now st) = Some u \<Longrightarrow>
  h3_lazy (snd (try_upgrade_to_h3 B h3_new ic now st)) = Some u"
  by (auto simp: try_upgrade_to_h3_def split: option.splits prod.splits if_splits)

lemma serve_hint_ok:
  assumes "hint_ok B ic (fst clock) st" "fst clock \<le> snd clock"
    "serve H U B h3_new T trace clock ic pinfo req body prefix st errs = (r, st', errs')"
  shows "hint_ok B ic (snd clock) st'"
proof -
  have keep: "hint_ok B ic (snd clock) st" using assms(1,2) by (rule hint_ok_later)
  let ?t = "if ic_auto_h3_enabled ic then try_upgrade_to_h3 B h3_new ic (fst clock) st else (None, st)"
  have "hint_ok B ic (fst clock) (snd ?t)" using assms(1) try_ok[OF assms(1)] by simp
  then have tried: "hint_ok B ic (snd clock) (snd ?t)" using assms(2) by (rule hint_ok_later)
  show ?thesis
    using assms(3) keep tried hint_ok_evict[OF tried] absorb_ok[OF tried, of H]
    by (auto simp: serve_def Let_def simp del: split_paired_All
        split: sum.splits option.splits prod.splits exchange.splits if_splits)
qed

text \<open>A client serves requests one after the other, each with its own clock, addresses and answer.\<close>

record ('h, 'u) serve_call =
  sc_clock :: "nat \<times> nat"
  sc_transport :: "('h, 'u) transport"
  sc_trace :: "(string \<times> string) list option"
  sc_peer :: peer_info
  sc_req :: "('h, 'u) routed_request"
  sc_body :: string
  sc_prefix :: string

fun serve_run ::
  "'h header_ops \<Rightarrow> 'u uri_ops \<Rightarrow> 'u backend_uri_ops \<Rightarrow> (bool \<Rightarrow> 'u \<Rightarrow> bool) \<Rightarrow> 'u inner_client \<Rightarrow>
   ('h, 'u) serve_call list \<Rightarrow> 'u h3_state \<Rightarrow> 'u h3_state" where
  "serve_run H U B h3_new ic [] st = st"
| "serve_run H U B h3_new ic (c # cs) st =
     serve_run H U B h3_new ic cs
       (fst (snd (serve H U B h3_new (sc_transport c) (sc_trace c) (sc_clock c) ic (sc_peer c) (sc_req c) (sc_body c)
          (sc_prefix c) st 0)))"

fun in_order :: "nat \<Rightarrow> ('h, 'u) serve_call list \<Rightarrow> nat \<Rightarrow> bool" where
  "in_order t [] now = (t \<le> now)"
| "in_order t (c # cs) now = (t \<le> fst (sc_clock c) \<and> fst (sc_clock c) \<le> snd (sc_clock c) \<and> in_order (snd (sc_clock c)) cs now)"

lemma serve_run_ok:
  "hint_ok B ic t st \<Longrightarrow> in_order t cs now \<Longrightarrow> hint_ok B ic now (serve_run H U B h3_new ic cs st)"
proof (induction cs arbitrary: t st)
  case Nil
  then show ?case using hint_ok_later by simp
next
  case (Cons c cs)
  let ?r = "serve H U B h3_new (sc_transport c) (sc_trace c) (sc_clock c) ic (sc_peer c) (sc_req c) (sc_body c) (sc_prefix c) st 0"
  have "hint_ok B ic (fst (sc_clock c)) st" using Cons.prems hint_ok_later by auto
  then have "hint_ok B ic (snd (sc_clock c)) (fst (snd ?r))"
    using serve_hint_ok[where r = "fst ?r" and st' = "fst (snd ?r)" and errs' = "snd (snd ?r)"] Cons.prems(2) by simp
  then show ?case using Cons by simp
qed

text \<open>
  C37. What upstreams announce cannot redirect the proxy to a foreign privileged port: after any
  sequence of exchanges that starts without a hint, the URL of a QUIC client built from a hint is
  the upstream's host with an unprivileged port or the upstream's own, and a hint that is still
  held expires within a day.
\<close>

theorem alt_svc_guarded:
  assumes "in_order t cs now"
    "st = serve_run H U B h3_new ic cs \<lparr>h3_hint = None, h3_lazy = None\<rparr>"
    "fst (try_upgrade_to_h3 B h3_new ic now st) = Some u"
  shows "(\<exists>host port. bu_host B (ic_upstream ic) = Some host \<and> bu_parse B (alt_url host port) = Some u
      \<and> (1024 \<le> port \<or> port = original_port B ic))
    \<and> (\<exists>port e. h3_hint st = Some (port, e) \<and> e \<le> now + 86400)"
proof -
  have "hint_ok B ic t \<lparr>h3_hint = None, h3_lazy = None\<rparr>" by (simp add: hint_ok_def)
  then have ok: "hint_ok B ic now st" unfolding assms(2) using assms(1) by (rule serve_run_ok)
  then have "\<exists>host port. bu_host B (ic_upstream ic) = Some host \<and> ok_port B ic port \<and> bu_parse B (alt_url host port) = Some u"
    using try_ok[OF ok, of h3_new] try_returns_lazy[OF assms(3)] by (simp add: hint_ok_def)
  moreover have "h3_hint st \<noteq> None" using assms(3) by (cases "h3_hint st") (simp_all add: try_upgrade_to_h3_def)
  ultimately show ?thesis
    using ok by (auto simp: hint_ok_def ok_port_def MAX_ALT_SVC_MA_SECS_def)
qed

definition demo_inner :: "full_uri inner_client" where
  "demo_inner =
     \<lparr>ic_client = HttpClient, ic_http2_only = False, ic_upstream = demo_upstream, ic_strip_prefix = True,
      ic_proxy_protocol = None, ic_unix_path = None, ic_skip_verify = False, ic_auto_h3_enabled = True,
      ic_upgrade_scheme = Auto\<rparr>"

definition demo_call :: "(header_list, full_uri) serve_call" where
  "demo_call =
     \<lparr>sc_clock = (5, 6),
      sc_transport =
        \<lparr>tp_pooled = (\<lambda>_ _. Answered \<lparr>rs_status = 200, rs_headers = [(''alt-svc'', ''h3=:8443; ma=60'')], rs_body = None\<rparr>),
         tp_h3 = (\<lambda>_ _ _. None), tp_raw = (\<lambda>_ _ _ _. RequestFailed)\<rparr>,
      sc_trace = None, sc_peer = \<lparr>pi_src = None, pi_dst = None, pi_dst_unix = None\<rparr>,
      sc_req = demo_request, sc_body = [], sc_prefix = ''/x''\<rparr>"

lemma demo_alt_svc: "parse_alt_svc_h3 ''h3=:8443; ma=60'' = Some (8443, 60)"
proof -
  have p: "split_on CHR '';'' ''h3=:8443; ma=60'' = [''h3=:8443'', '' ma=60'']"
    "split_on CHR '','' ''h3=:8443; ma=60'' = [''h3=:8443; ma=60'']" "trim ''h3'' = ''h3''"
    "trim_char CHR 0x22 (trim '':8443'') = '':8443''" "trim ''60'' = ''60''"
    "trim ''h3=:8443'' = ''h3=:8443''" "trim '' ma=60'' = ''ma=60''" by code_simp+
  have "alt_ma [''ma=60''] = Some 60" using p(5) by (simp add: alt_ma_def parse_uint_def is_ascii_digit_def)
  moreover have "parse_uint u16_max ''8443'' = Some 8443" by (simp add: parse_uint_def is_ascii_digit_def)
  ultimately show ?thesis unfolding parse_alt_svc_h3_def p(2) by (simp add: p(1,3,4,6,7) Let_def del: split_on.simps)
qed

theorem alt_svc_guarded_witness:
  "\<exists>u. fst (try_upgrade_to_h3 full_backend (\<lambda>_ _. True) demo_inner 7
      (serve_run list_headers full_uris full_backend (\<lambda>_ _. True) demo_inner [demo_call] \<lparr>h3_hint = None, h3_lazy = None\<rparr>)) = Some u
    \<and> (\<exists>host port. bu_parse full_backend (alt_url host port) = Some u \<and> (1024 \<le> port \<or> port = original_port full_backend demo_inner))"
proof -
  let ?st = "serve_run list_headers full_uris full_backend (\<lambda>_ _. True) demo_inner [demo_call] \<lparr>h3_hint = None, h3_lazy = None\<rparr>"
  obtain uri where "build_backend_uri full_uris full_backend demo_upstream (rr_uri demo_request) ''/x'' True = Inr uri"
    by (simp add: build_backend_uri_def full_uris_def full_backend_def demo_upstream_def demo_request_def
        forwarded_path_def combine_path_def Let_def trim_end_char_def starts_with_def full_pq_def)
  moreover have "hm_get_all list_headers [(''alt-svc'', ''h3=:8443; ma=60'')] ''alt-svc'' = [''h3=:8443; ma=60'']"
    "hv_to_str list_headers ''h3=:8443; ma=60'' = Some ''h3=:8443; ma=60''" by code_simp+
  ultimately have "?st = \<lparr>h3_hint = Some (8443, 66), h3_lazy = None\<rparr>"
    by (simp add: serve_def prepare_backend_request_inner_def demo_call_def demo_inner_def try_upgrade_to_h3_def
        absorb_alt_svc_def demo_alt_svc MAX_ALT_SVC_MA_SECS_def Let_def finish_exchange_def)
  then obtain u where u: "fst (try_upgrade_to_h3 full_backend (\<lambda>_ _. True) demo_inner 7 ?st) = Some u"
    by (simp add: try_upgrade_to_h3_def demo_inner_def full_backend_def demo_upstream_def alt_url_def full_parse_def Let_def)
  have "in_order 5 [demo_call] 7" by (simp add: demo_call_def)
  from alt_svc_guarded[OF this refl u] u show ?thesis by blast
qed

end
