(* ===== verification/Proxy_Handler.thy ===== *)
theory Proxy_Handler
  imports Forwarding Load_Balancer
begin

text \<open>
  The reverse-proxy handler (\<open>handler/proxy.rs\<close>): an attempt picks an upstream from the pool, holds
  its in-flight guard over the exchange and records the outcome; with retries configured the
  body is buffered and attempts are repeated on the statuses the configuration lists.

  The pool, the hints and the metrics are shared by all requests. An attempt awaits once, during
  its exchange, and there the other requests may change them: \<open>ae_others\<close> is what they do. The
  rendered \<open>group-by\<close> template is an argument, as are the clock readings of every attempt.
\<close>

section \<open>Shared state\<close>

record proxy_metrics =
  pm_connect_errors :: u64
  pm_lb_retries :: u64
  pm_latency :: "u64 list"
  pm_latency_sum_us :: u64
  pm_bytes_out :: u64
  pm_bytes_in :: u64

definition record_proxy_upstream_latency :: "proxy_metrics \<Rightarrow> nat \<Rightarrow> proxy_metrics" where
  "record_proxy_upstream_latency m us =
     (let i = latency_bucket_us us
      in m\<lparr>pm_latency := (pm_latency m)[i := pm_latency m ! i + 1],
           pm_latency_sum_us := pm_latency_sum_us m + of_nat (min us u64_max)\<rparr>)"

record 'u proxy_state =
  ps_pool :: upstream_pool
  ps_h3 :: "'u h3_state list"
  ps_metrics :: proxy_metrics

definition at_upstream :: "nat \<Rightarrow> (upstream \<Rightarrow> upstream) \<Rightarrow> 'u proxy_state \<Rightarrow> 'u proxy_state" where
  "at_upstream i f st =
     st\<lparr>ps_pool := (ps_pool st)\<lparr>upstreams := (upstreams (ps_pool st))[i := f (upstreams (ps_pool st) ! i)]\<rparr>\<rparr>"

section \<open>The handler\<close>

record retry_config =
  rc_max :: u32
  rc_on_status :: "nat list"

record 'u proxy_handler =
  ph_inners :: "'u inner_client list"
  ph_retry :: retry_config

datatype pool_error = No_upstreams | Inner_failed inner_error

text \<open>One inner client per configured upstream, all with the settings of the outer block.\<close>

definition new_pool_handler ::
  "'u backend_uri_ops \<Rightarrow> (bool \<Rightarrow> 'u \<Rightarrow> bool) \<Rightarrow> (string \<times> u32 \<times> string option) list \<Rightarrow> lb_policy \<Rightarrow> string option \<Rightarrow>
   passive_health \<Rightarrow> retry_config \<Rightarrow> bool \<Rightarrow> proxy_version option \<Rightarrow> upstream_scheme \<Rightarrow> bool \<Rightarrow> bool \<Rightarrow> lb_metrics \<Rightarrow>
   pool_error + 'u proxy_handler \<times> upstream_pool" where
  "new_pool_handler B h3_new cfgs pol hh pas retry strip pp scheme skip_verify grpc m =
     (if cfgs = [] then Inl No_upstreams
      else case collect_result (\<lambda>(u, _, _). new_inner B h3_new u strip pp scheme skip_verify grpc) cfgs of
        Inl e \<Rightarrow> Inl (Inner_failed e)
      | Inr inners \<Rightarrow>
          Inr (\<lparr>ph_inners = inners, ph_retry = retry\<rparr>, new_pool (build_upstreams cfgs) pol hh pas (Some m)))"

definition is_5xx :: "nat \<Rightarrow> bool" where
  "is_5xx status \<longleftrightarrow> 500 \<le> status \<and> status < 600"

text \<open>A reply the proxy makes itself is a 502, which has no \<open>Content-Length\<close>.\<close>

fun reply_length :: "'h header_ops \<Rightarrow> 'h proxy_reply \<Rightarrow> u64" where
  "reply_length H (Local r) = 0"
| "reply_length H (Backend r) = content_length H (rs_headers r)"

definition record_upstream ::
  "'h header_ops \<Rightarrow> nat \<Rightarrow> nat \<Rightarrow> u64 \<Rightarrow> 'h proxy_reply \<Rightarrow> 'u proxy_state \<Rightarrow> 'u proxy_state" where
  "record_upstream H i elapsed req_bytes resp st =
     (let resp_bytes = reply_length H resp;
          ok = (\<not> is_5xx (reply_status resp));
          st1 = at_upstream i (\<lambda>u. record_bytes (record_request u ok elapsed) req_bytes resp_bytes) st;
          m = record_proxy_upstream_latency (ps_metrics st1) elapsed
      in st1\<lparr>ps_metrics := m\<lparr>pm_bytes_out := pm_bytes_out m + req_bytes, pm_bytes_in := pm_bytes_in m + resp_bytes\<rparr>\<rparr>)"

definition record_outcome :: "nat \<Rightarrow> u64 \<Rightarrow> nat \<Rightarrow> 'u proxy_state \<Rightarrow> 'u proxy_state" where
  "record_outcome i now status st =
     (if is_5xx status then
        (case record_failure (ps_pool st) now (upstreams (ps_pool st) ! i) of
           (u, m) \<Rightarrow> at_upstream i (\<lambda>_. u) (st\<lparr>ps_pool := (ps_pool st)\<lparr>lb_metrics_of := m\<rparr>\<rparr>))
      else at_upstream i record_success st)"

definition should_retry :: "'u proxy_handler \<Rightarrow> nat \<Rightarrow> bool" where
  "should_retry ph status \<longleftrightarrow> status \<in> set (rc_on_status (ph_retry ph))"

text \<open>What surrounds one attempt: clock readings, the backend, and the other requests.\<close>

record ('h, 'u) attempt_env =
  ae_now1 :: u64
  ae_now2 :: u64
  ae_nanos :: nat
  ae_transport :: "('h, 'u) transport"
  ae_trace :: "(string \<times> string) list option"
  ae_clock :: "nat \<times> nat"
  ae_elapsed :: nat
  ae_fail_now :: u64
  ae_others :: "'u proxy_state \<Rightarrow> 'u proxy_state"

record ('h, 'u) proxy_ops =
  po_headers :: "'h header_ops"
  po_uri :: "'u uri_ops"
  po_backend :: "'u backend_uri_ops"
  po_h3_new :: "bool \<Rightarrow> 'u \<Rightarrow> bool"
  po_hash :: lb_env

definition run_attempt ::
  "('h, 'u) proxy_ops \<Rightarrow> ('h, 'u) attempt_env \<Rightarrow> 'u proxy_handler \<Rightarrow> peer_info \<Rightarrow> string option \<Rightarrow>
   ('h, 'u) routed_request \<Rightarrow> string \<Rightarrow> u64 \<Rightarrow> string \<Rightarrow> 'u proxy_state \<Rightarrow> (nat \<times> 'h proxy_reply) option \<times> 'u proxy_state" where
  "run_attempt P e ph pinfo grp req body req_bytes prefix st =
     (case pick (po_headers P) (po_hash P) (ae_now1 e) (ae_now2 e) (ae_nanos e)
             \<lparr>pc_peer_ip = map_option fst (pi_src pinfo), pc_headers = rr_headers req, pc_group = grp\<rparr> (ps_pool st) of
        (None, pool) \<Rightarrow> (None, st\<lparr>ps_pool := pool\<rparr>)
      | (Some i, pool) \<Rightarrow>
          let st1 = at_upstream i in_flight_guard (st\<lparr>ps_pool := pool\<rparr>);
              (r, hs, errs) = serve (po_headers P) (po_uri P) (po_backend P) (po_h3_new P) (ae_transport e) (ae_trace e)
                 (ae_clock e) (ph_inners ph ! i) pinfo req body prefix (ps_h3 st1 ! i) (pm_connect_errors (ps_metrics st1));
              st2 = ae_others e (st1\<lparr>ps_h3 := (ps_h3 st1)[i := hs],
                                     ps_metrics := (ps_metrics st1)\<lparr>pm_connect_errors := errs\<rparr>\<rparr>);
              st3 = record_upstream (po_headers P) i (ae_elapsed e) req_bytes r st2;
              st4 = record_outcome i (ae_fail_now e) (reply_status r) st3
          in (Some (i, r), at_upstream i drop_guard st4))"

definition max_attempts :: "'u proxy_handler \<Rightarrow> nat" where
  "max_attempts ph = max 1 (min (unat (rc_max (ph_retry ph)) + 1) u32_max)"

text \<open>
  The loop over the attempts that are left. It returns the attempts it made, each with the index
  of its upstream and its reply, next to the reply of the handler.
\<close>

fun retry_loop ::
  "('h, 'u) proxy_ops \<Rightarrow> (nat \<Rightarrow> ('h, 'u) attempt_env) \<Rightarrow> 'u proxy_handler \<Rightarrow> peer_info \<Rightarrow> string option \<Rightarrow>
   ('h, 'u) routed_request \<Rightarrow> string \<Rightarrow> string \<Rightarrow> nat \<Rightarrow> nat \<Rightarrow> 'h proxy_reply option \<Rightarrow> 'u proxy_state \<Rightarrow>
   'h proxy_reply \<times> (nat \<times> 'h proxy_reply) list \<times> 'u proxy_state" where
  "retry_loop P env ph pinfo grp req body prefix attempt 0 last_resp st =
     (case last_resp of Some r \<Rightarrow> r | None \<Rightarrow> Local response_502, [], st)"
| "retry_loop P env ph pinfo grp req body prefix attempt (Suc left) last_resp st =
     (case run_attempt P (env attempt) ph pinfo grp req body (of_nat (length body)) prefix st of
        (None, st') \<Rightarrow> (case last_resp of Some r \<Rightarrow> r | None \<Rightarrow> Local response_502, [], st')
      | (Some (i, r), st') \<Rightarrow>
          if should_retry ph (reply_status r) \<and> left \<noteq> 0 then
            (case retry_loop P env ph pinfo grp req body prefix (Suc attempt) left (Some r)
                    (st'\<lparr>ps_metrics := (ps_metrics st')\<lparr>pm_lb_retries := pm_lb_retries (ps_metrics st') + 1\<rparr>\<rparr>) of
               (res, log, st'') \<Rightarrow> (res, (i, r) # log, st''))
          else (r, [(i, r)], st'))"

text \<open>
  The handler for a request that is no upgrade. On the path without retries the body is streamed;
  on the other it is collected first, which fails unless \<open>read_ok\<close>.
\<close>

definition proxy_handle ::
  "('h, 'u) proxy_ops \<Rightarrow> (nat \<Rightarrow> ('h, 'u) attempt_env) \<Rightarrow> 'u proxy_handler \<Rightarrow> peer_info \<Rightarrow> string option \<Rightarrow>
   ('h, 'u) routed_request \<Rightarrow> string \<Rightarrow> bool \<Rightarrow> string \<Rightarrow> 'u proxy_state \<Rightarrow>
   'h proxy_reply \<times> (nat \<times> 'h proxy_reply) list \<times> 'u proxy_state" where
  "proxy_handle P env ph pinfo group_val req body read_ok prefix st =
     (let grp = (case group_val of Some g \<Rightarrow> if g = [] then None else Some g | None \<Rightarrow> None) in
      if max_attempts ph = 1 then
        (case run_attempt P (env 0) ph pinfo grp req body (content_length (po_headers P) (rr_headers req)) prefix st of
           (None, st') \<Rightarrow> (Local response_502, [], st')
         | (Some (i, r), st') \<Rightarrow> (r, [(i, r)], st'))
      else if \<not> read_ok then (Local response_502, [], st)
      else retry_loop P env ph pinfo grp req body prefix 0 (max_attempts ph) None st)"

section \<open>Health probes\<close>

definition build_probe_uri :: "'u backend_uri_ops \<Rightarrow> string \<Rightarrow> string \<Rightarrow> 'u option" where
  "build_probe_uri B up path =
     (let base = trim_end_char CHR ''/'' up;
          suffix = (if starts_with path ''/'' then path else ''/'' @ path)
      in bu_parse B (base @ suffix))"

text \<open>\<open>ask\<close> is a GET with the timeout: the status, or nothing when it fails or takes too long.\<close>

definition probe :: "'u backend_uri_ops \<Rightarrow> ('u \<Rightarrow> nat \<Rightarrow> nat option) \<Rightarrow> string \<Rightarrow> string \<Rightarrow> nat \<Rightarrow> nat \<Rightarrow> bool" where
  "probe B ask url path timeout_secs expect_status =
     (if starts_with url ''unix:'' then True
      else case build_probe_uri B url path of
        None \<Rightarrow> False
      | Some u \<Rightarrow> ask u (max timeout_secs 1) = Some expect_status)"

section \<open>Attempts\<close>

lemma retry_loop_spec:
  assumes "retry_loop P env ph pinfo grp req body prefix attempt left last_resp st = (res, log, st')"
  shows "length log \<le> left \<and>
    res = (if log = [] then (case last_resp of Some r \<Rightarrow> r | None \<Rightarrow> Local response_502) else snd (last log)) \<and>
    list_all (\<lambda>(_, r). should_retry ph (reply_status r)) (butlast log)"
  using assms
proof (induction left arbitrary: attempt last_resp st res log st')
  case (Suc left)
  obtain x st1 where a: "run_attempt P (env attempt) ph pinfo grp req body (of_nat (length body)) prefix st = (x, st1)"
    by fastforce
  show ?case
  proof (cases x)
    case None
    then show ?thesis using Suc.prems a by auto
  next
    case (Some y)
    obtain i r where y: "x = Some (i, r)" using Some by (cases y) auto
    let ?st2 = "st1\<lparr>ps_metrics := (ps_metrics st1)\<lparr>pm_lb_retries := pm_lb_retries (ps_metrics st1) + 1\<rparr>\<rparr>"
    obtain res' log' st2 where rec: "retry_loop P env ph pinfo grp req body prefix (Suc attempt) left (Some r) ?st2 = (res', log', st2)"
      by (metis prod_cases3)
    show ?thesis using Suc.prems a y rec Suc.IH[OF rec] by (auto split: if_splits)
  qed
qed auto

text \<open>
  C38. Retries are bounded and honest: the handler makes at most one attempt more than the
  configured number of retries, every attempt but the last was answered with a status the
  configuration lists, and the client gets the reply of the last attempt, or 502 when no upstream
  could be picked or the body could not be read.
\<close>

theorem retries_bounded:
  "case proxy_handle P env ph pinfo group_val req body read_ok prefix st of
     (res, log, st') \<Rightarrow>
       length log \<le> unat (rc_max (ph_retry ph)) + 1
       \<and> res = (if log = [] then Local response_502 else snd (last log))
       \<and> list_all (\<lambda>(_, r). should_retry ph (reply_status r)) (butlast log)"
proof -
  obtain res log st' where h: "proxy_handle P env ph pinfo group_val req body read_ok prefix st = (res, log, st')"
    by (metis prod_cases3)
  have m: "max_attempts ph \<le> unat (rc_max (ph_retry ph)) + 1" by (simp add: max_attempts_def)
  have "length log \<le> unat (rc_max (ph_retry ph)) + 1 \<and> res = (if log = [] then Local response_502 else snd (last log))
      \<and> list_all (\<lambda>(_, r). should_retry ph (reply_status r)) (butlast log)"
  proof (cases "max_attempts ph = 1 \<or> \<not> read_ok")
    case True
    then show ?thesis using h by (auto simp: proxy_handle_def Let_def split: option.splits prod.splits if_splits)
  next
    case False
    then have "\<exists>grp. retry_loop P env ph pinfo grp req body prefix 0 (max_attempts ph) None st = (res, log, st')"
      using h by (auto simp: proxy_handle_def Let_def)
    then show ?thesis using retry_loop_spec m by fastforce
  qed
  then show ?thesis using h by simp
qed

section \<open>The in-flight gauges\<close>

definition gauge :: "nat \<Rightarrow> 'u proxy_state \<Rightarrow> u32" where
  "gauge j st = in_flight (upstreams (ps_pool st) ! j)"

definition pool_size :: "'u proxy_state \<Rightarrow> nat" where
  "pool_size st = length (upstreams (ps_pool st))"

lemma at_upstream_size [simp]: "pool_size (at_upstream i f st) = pool_size st"
  by (simp add: pool_size_def at_upstream_def)

lemma at_upstream_gauge:
  "j < pool_size st \<Longrightarrow> gauge j (at_upstream i f st) =
     (if i = j then in_flight (f (upstreams (ps_pool st) ! j)) else gauge j st)"
  by (simp add: gauge_def at_upstream_def pool_size_def)

lemma record_upstream_gauge:
  "pool_size (record_upstream H i el rb r st) = pool_size st"
  "j < pool_size st \<Longrightarrow> gauge j (record_upstream H i el rb r st) = gauge j st"
  by (simp_all add: record_upstream_def Let_def gauge_def pool_size_def at_upstream_def record_bytes_def record_request_def
      nth_update)

lemma record_outcome_gauge:
  "pool_size (record_outcome i now s st) = pool_size st"
  "j < pool_size st \<Longrightarrow> gauge j (record_outcome i now s st) = gauge j st"
  by (auto simp: record_outcome_def gauge_def pool_size_def at_upstream_def record_failure_def record_success_def Let_def
      nth_update split: prod.splits if_splits)

text \<open>The other requests keep the pool and change the gauges by what they hold themselves.\<close>

definition others_shift :: "(nat \<Rightarrow> ('h, 'u) attempt_env) \<Rightarrow> (nat \<Rightarrow> nat \<Rightarrow> u32) \<Rightarrow> bool" where
  "others_shift env d \<longleftrightarrow> (\<forall>k st. pool_size (ae_others (env k) st) = pool_size st \<and>
     (\<forall>j. j < pool_size st \<longrightarrow> gauge j (ae_others (env k) st) = gauge j st + d k j))"

lemma pick_gauge:
  "pick H E n1 n2 na cx (ps_pool st) = (r, q) \<Longrightarrow> gauge j (st\<lparr>ps_pool := q\<rparr>) = gauge j st \<and> pool_size (st\<lparr>ps_pool := q\<rparr>) = pool_size st"
  using pick_same[of H E n1 n2 na cx "ps_pool st" q] by (simp add: gauge_def pool_size_def same_pool_def)

lemma attempt_gauge:
  assumes "others_shift env d" "run_attempt P (env k) ph pinfo grp req body rb prefix st = (r, st')" "j < pool_size st"
  shows "pool_size st' = pool_size st \<and> gauge j st' = gauge j st + (if r = None then 0 else d k j)"
proof -
  obtain p q where pk: "pick (po_headers P) (po_hash P) (ae_now1 (env k)) (ae_now2 (env k)) (ae_nanos (env k))
      \<lparr>pc_peer_ip = map_option fst (pi_src pinfo), pc_headers = rr_headers req, pc_group = grp\<rparr> (ps_pool st) = (p, q)"
    by fastforce
  note q = pick_gauge[OF pk, of j]
  show ?thesis
  proof (cases p)
    case None
    then show ?thesis using assms(2) pk q by (auto simp: run_attempt_def)
  next
    case (Some i)
    define st1 where "st1 = at_upstream i in_flight_guard (st\<lparr>ps_pool := q\<rparr>)"
    have g1: "pool_size st1 = pool_size st" "gauge j st1 = gauge j st + (if i = j then 1 else 0)"
      using q assms(3) at_upstream_gauge[of j "st\<lparr>ps_pool := q\<rparr>" i in_flight_guard]
      by (auto simp: st1_def in_flight_guard_def gauge_def)
    obtain rr hs errs where sv: "serve (po_headers P) (po_uri P) (po_backend P) (po_h3_new P) (ae_transport (env k))
        (ae_trace (env k)) (ae_clock (env k)) (ph_inners ph ! i) pinfo req body prefix (ps_h3 st1 ! i)
        (pm_connect_errors (ps_metrics st1)) = (rr, hs, errs)" by (metis prod_cases3)
    define st2 where "st2 = ae_others (env k) (st1\<lparr>ps_h3 := (ps_h3 st1)[i := hs],
        ps_metrics := (ps_metrics st1)\<lparr>pm_connect_errors := errs\<rparr>\<rparr>)"
    have g2: "pool_size st2 = pool_size st1" "gauge j st2 = gauge j st1 + d k j"
      using assms(1,3) g1(1) unfolding st2_def others_shift_def by (simp_all add: gauge_def pool_size_def)
    define st4 where "st4 = record_outcome i (ae_fail_now (env k)) (reply_status rr)
        (record_upstream (po_headers P) i (ae_elapsed (env k)) rb rr st2)"
    have g4: "pool_size st4 = pool_size st2" "gauge j st4 = gauge j st2"
      using assms(3) g1 g2 by (simp_all add: st4_def record_outcome_gauge record_upstream_gauge)
    have "r = Some (i, rr)" "st' = at_upstream i drop_guard st4"
      using assms(2) pk Some sv by (simp_all add: run_attempt_def st1_def st2_def st4_def Let_def)
    then show ?thesis
      using g1 g2 g4 assms(3) at_upstream_gauge[of j st4 i drop_guard] by (auto simp: drop_guard_def gauge_def)
  qed
qed

lemma retry_loop_gauge:
  assumes "others_shift env d" "j < pool_size st"
    "retry_loop P env ph pinfo grp req body prefix attempt left last_resp st = (res, log, st')"
  shows "gauge j st' = gauge j st + (\<Sum>k = attempt..<attempt + length log. d k j)"
  using assms(2,3)
proof (induction left arbitrary: attempt last_resp st res log st')
  case (Suc left)
  obtain x st1 where a: "run_attempt P (env attempt) ph pinfo grp req body (of_nat (length body)) prefix st = (x, st1)"
    by fastforce
  note g = attempt_gauge[OF assms(1) a Suc.prems(1)]
  show ?case
  proof (cases x)
    case None
    then show ?thesis using Suc.prems a g by auto
  next
    case (Some y)
    obtain i r where y: "x = Some (i, r)" using Some by (cases y) auto
    let ?st2 = "st1\<lparr>ps_metrics := (ps_metrics st1)\<lparr>pm_lb_retries := pm_lb_retries (ps_metrics st1) + 1\<rparr>\<rparr>"
    have g2: "gauge j ?st2 = gauge j st + d attempt j" "j < pool_size ?st2"
      using g y Suc.prems(1) by (simp_all add: gauge_def pool_size_def)
    obtain res' log' st2 where rec: "retry_loop P env ph pinfo grp req body prefix (Suc attempt) left (Some r) ?st2 = (res', log', st2)"
      by (metis prod_cases3)
    have "(\<Sum>k = attempt..<attempt + length ((i, r) # log'). d k j)
        = d attempt j + (\<Sum>k = Suc attempt..<Suc attempt + length log'. d k j)"
      by (simp add: sum.atLeast_Suc_lessThan)
    then show ?thesis
      using Suc.prems(2) a y rec Suc.IH[OF g2(2) rec] g2(1) g by (auto simp: add.assoc split: if_splits)
  qed
qed auto

text \<open>
  C39. The in-flight gauges stay exact: over a request, with all its retries and whatever the other
  requests do meanwhile, the gauge of every upstream changes by exactly what the others changed
  it. No path leaks a guard.
\<close>

theorem in_flight_balanced:
  assumes "others_shift env d" "j < pool_size st"
    "proxy_handle P env ph pinfo group_val req body read_ok prefix st = (res, log, st')"
  shows "gauge j st' = gauge j st + (\<Sum>k < length log. d k j)"
proof -
  define grp where "grp = (case group_val of Some g \<Rightarrow> if g = [] then None else Some g | None \<Rightarrow> None)"
  show ?thesis
  proof (cases "max_attempts ph = 1")
    case True
    obtain x st1 where a: "run_attempt P (env 0) ph pinfo grp req body
        (content_length (po_headers P) (rr_headers req)) prefix st = (x, st1)" by fastforce
    show ?thesis using attempt_gauge[OF assms(1) a assms(2)] assms(3) True a
      by (cases x) (auto simp: proxy_handle_def Let_def grp_def[symmetric])
  next
    case False
    then show ?thesis
      using assms(3) retry_loop_gauge[OF assms(1,2), of P ph pinfo grp req body prefix 0 "max_attempts ph" None res log st']
      by (cases read_ok) (simp_all add: proxy_handle_def Let_def grp_def[symmetric] atLeast0LessThan)
  qed
qed

text \<open>A handler with one plain upstream that cannot be reached, to evaluate with.\<close>

definition down_transport :: "(header_list, full_uri) transport" where
  "down_transport = \<lparr>tp_pooled = (\<lambda>_ _. ConnectFailed), tp_h3 = (\<lambda>_ _ _. None), tp_raw = (\<lambda>_ _ _ _. ConnectFailed)\<rparr>"

definition down_env :: "nat \<Rightarrow> (header_list, full_uri) attempt_env" where
  "down_env k =
     \<lparr>ae_now1 = 1, ae_now2 = 1, ae_nanos = 0, ae_transport = down_transport, ae_trace = None, ae_clock = (0, 0),
      ae_elapsed = 10, ae_fail_now = 1, ae_others = (\<lambda>st. st)\<rparr>"

definition demo_ops :: "(header_list, full_uri) proxy_ops" where
  "demo_ops = \<lparr>po_headers = list_headers, po_uri = full_uris, po_backend = full_backend, po_h3_new = (\<lambda>_ _. True),
     po_hash = flat_env\<rparr>"

definition demo_handler :: "full_uri proxy_handler" where
  "demo_handler = \<lparr>ph_inners = [demo_inner\<lparr>ic_auto_h3_enabled := False\<rparr>], ph_retry = \<lparr>rc_max = 3, rc_on_status = [503]\<rparr>\<rparr>"

definition demo_state :: "full_uri proxy_state" where
  "demo_state =
     \<lparr>ps_pool = new_pool [new_upstream ''http://b:81'' 1 None] RoundRobin None no_ejection None,
      ps_h3 = [\<lparr>h3_hint = None, h3_lazy = None\<rparr>],
      ps_metrics = \<lparr>pm_connect_errors = 0, pm_lb_retries = 0, pm_latency = replicate 13 0, pm_latency_sum_us = 0,
                    pm_bytes_out = 0, pm_bytes_in = 0\<rparr>\<rparr>"

definition no_peer :: peer_info where
  "no_peer = \<lparr>pi_src = None, pi_dst = None, pi_dst_unix = None\<rparr>"

theorem in_flight_balanced_witness:
  "\<exists>res log st'. proxy_handle demo_ops down_env demo_handler no_peer None demo_request [] True ''/x'' demo_state = (res, log, st')
     \<and> gauge 0 st' = 0"
proof -
  obtain res log st' where h: "proxy_handle demo_ops down_env demo_handler no_peer None demo_request [] True ''/x'' demo_state
      = (res, log, st')" by (metis prod_cases3)
  have "others_shift down_env (\<lambda>_ _. 0)" by (simp add: others_shift_def down_env_def)
  moreover have "0 < pool_size demo_state" by (simp add: pool_size_def demo_state_def new_pool_def)
  ultimately have "gauge 0 st' = gauge 0 demo_state + (\<Sum>k < length log. 0)" using h by (rule in_flight_balanced)
  then show ?thesis using h by (simp add: gauge_def demo_state_def new_pool_def new_upstream_def)
qed

section \<open>Failed connections\<close>

definition plain_client :: "'u inner_client \<Rightarrow> bool" where
  "plain_client ic \<longleftrightarrow> ic_client ic = HttpClient \<and> ic_proxy_protocol ic = None \<and> \<not> ic_auto_h3_enabled ic"

lemma serve_down:
  assumes "plain_client ic" "\<forall>q b. tp_pooled T q b = ConnectFailed"
  shows "fst (serve H U B h3_new T trace clock ic pinfo req body prefix st errs) = Local response_502"
  using assms by (auto simp: serve_def plain_client_def finish_exchange_def split: sum.splits)

lemma pick_in_range:
  assumes wf: "pool_wf p" and i: "fst (pick H E now1 now2 nanos cx p) = Some i"
  shows "i < length (upstreams p)"
proof -
  have ne: "upstreams p \<noteq> []"
  proof
    assume "upstreams p = []"
    then have "fst (pick H E now1 now2 nanos cx p) = None" by (simp add: pick_def count_metric_def)
    then show False using i by simp
  qed
  have range: "k < length (upstreams p)"
    if "same_pool p q" "pick_where H E n nanos cx g q = (Some k, q')" for q n g k q'
  proof -
    have "pool_wf q" using pool_wf_cong[OF that(1)] wf by simp
    from pick_where_Some[OF this that(2)] show ?thesis using that(1) by (simp add: same_pool_def)
  qed
  from ne show ?thesis
  proof (cases rule: pick_passes[of p cx H E now1 nanos now2])
    case (group g k q1 q2)
    then have "k = i" using i by simp
    then show ?thesis using range[OF group(3,5)] by simp
  next
    case (whole q1 r q2)
    then have "r = Some i" using i by simp
    then show ?thesis using range[OF whole(1)] whole(3) by simp
  qed
qed

lemma attempt_down:
  assumes "\<forall>ic \<in> set (ph_inners ph). plain_client ic" "\<forall>q b. tp_pooled (ae_transport e) q b = ConnectFailed"
    "pool_wf (ps_pool st)" "pool_size st = length (ph_inners ph)"
    "run_attempt P e ph pinfo grp req body rb prefix st = (Some (i, r), st')"
  shows "r = Local response_502"
proof -
  obtain q where pk: "pick (po_headers P) (po_hash P) (ae_now1 e) (ae_now2 e) (ae_nanos e)
      \<lparr>pc_peer_ip = map_option fst (pi_src pinfo), pc_headers = rr_headers req, pc_group = grp\<rparr> (ps_pool st) = (Some i, q)"
    using assms(5) by (auto simp: run_attempt_def Let_def split: prod.splits option.splits)
  then have "i < length (ph_inners ph)"
    using pick_in_range[OF assms(3), where i = i] assms(4) by (metis fst_conv pool_size_def)
  then have "plain_client (ph_inners ph ! i)" using assms(1) by simp
  from serve_down[OF this assms(2)] show ?thesis
    using assms(5) pk unfolding run_attempt_def Let_def case_prod_beta by auto
qed



end
