(* ===== verification/Spec2Isabelle.thy ===== *)
theory Spec2Isabelle
  imports Variable_Values Access Policy_Resolve Rate_Limit Load_Balancer Cache_Serve Matcher
    Router Proxy_Proto Static_Files Cgi Websocket Proxy_Handler
begin

text \<open>
  Verification of hypershunt, an HTTP server and reverse proxy. Paths below are relative to
  \<open>src/src\<close>.

  \<^bold>\<open>The program.\<close> A listener accepts a connection, reads the PROXY header if one is configured, and
  hands each request to the router, which picks a virtual host by the \<open>Host\<close> header, a location by
  path prefix and match block, and applies rewrites. The location's access policy, rate limits and
  header rules run next, with variables and templates evaluated on the request; a cacheable
  response goes through the shared cache. The location's handler then makes the response: files,
  a CGI, FastCGI or SCGI application, or the reverse proxy, which picks an upstream from a
  load-balanced pool. Configuration blocks become these structures once, at start-up or reload.

  \<^bold>\<open>Shared vocabulary.\<close>
  \<^item> \<open>Prelude\<close>: machine integers, results, and the string functions of the standard library.
  \<^item> \<open>Crates\<close>: header maps, the recency-ordered map and regular expressions of third-party crates as
    records of operations, with the laws the code relies on as the locales \<open>header_map\<close> and
    \<open>lru_cache\<close>, each interpreted on a complete list implementation.
  \<^item> \<open>Http\<close>, \<open>Utf8\<close>, \<open>Ip_Text\<close>, \<open>Replies\<close>: durations and messages, UTF-8, the text of IP addresses
    with its round trip, and the responses of \<open>error.rs\<close>.

  \<^bold>\<open>Components.\<close>
  \<^item> \<open>Templates\<close>, \<open>Variables\<close>, \<open>Variable_Values\<close> (\<open>headers.rs\<close>, \<open>vars.rs\<close>): the lexer and compiler of
    templates, the table of variables with its cycle check, needs analysis and memoised evaluation.
    An accepted table evaluates every variable; the cycle check is exact; needs are exact.
  \<^item> \<open>Access\<close>, \<open>Policy_Resolve\<close> (\<open>access.rs\<close>, \<open>router.rs\<close>): evaluation of policies is first match, and
    resolution of named policies is their expansion.
  \<^item> \<open>Rate_Limit\<close> (\<open>rate_limit.rs\<close>): token buckets; the bound over every interval, the honest
    \<open>Retry-After\<close>, and that evicting idle buckets is not observable.
  \<^item> \<open>Load_Balancer\<close> (\<open>lb.rs\<close>): the five picking policies, passive ejection and active health checks
    on 32- and 64-bit counters that wrap.
  \<^item> \<open>Cache_Entry\<close>, \<open>Cache_Store\<close>, \<open>Cache_Policy\<close>, \<open>Cache_Serve\<close> (\<open>cache/*\<close>, \<open>listener/service.rs\<close>): the
    byte-budgeted store, freshness and storability, and serving through the cache as tasks that
    interleave at their awaits; provenance, single flight and wake-up hold for every interleaving.
  \<^item> \<open>Matcher\<close>, \<open>Router_Build\<close>, \<open>Router\<close> (\<open>matcher.rs\<close>, \<open>router.rs\<close>, validation of \<open>config/mod.rs\<close>):
    compiled matchers mean their configuration; the tables of virtual hosts resolve a host as the
    configuration reads; rewriting ends.
  \<^item> \<open>Proxy_Proto\<close> (\<open>proxy_proto.rs\<close>): headers of both versions parse back to their addresses.
  \<^item> \<open>Static_Files\<close> (\<open>handler/static_files.rs\<close>): containment of served files below the root, exact
    range responses, and the streamed body.
  \<^item> \<open>Cgi\<close> (\<open>handler/cgi_util.rs\<close>, \<open>cgi.rs\<close>, \<open>fcgi.rs\<close>, \<open>scgi.rs\<close>): a reader of either socket protocol
    recovers the request, responses taken from scripts are well formed, and the counters of the
    three handlers are exact.
  \<^item> \<open>Websocket\<close> (\<open>handler/proxy/upgrade/ws.rs\<close>): the streaming mask translator equals the
    translation of the whole stream for every way of cutting it into reads.
  \<^item> \<open>Forwarding\<close> (\<open>handler/proxy.rs\<close>, \<open>handler/proxy/inner.rs\<close>): the backend request, header by
    header, and the client of one upstream with its HTTP/3 hint.
  \<^item> \<open>Proxy_Handler\<close> (\<open>handler/proxy.rs\<close>): attempts and retries over the shared pool; retries are
    bounded and in-flight gauges stay balanced whatever other requests do during an attempt.

  \<^bold>\<open>Correspondence.\<close> A struct is a record with a short field prefix, an enum a datatype, a method a
  function of the same name that takes the state and returns it updated. Errors are the left
  summand of a result, panics a value of their own. Asynchronous code is cut at its awaits: tasks
  interleave between them (\<open>Cache_Serve\<close>), or the effect of the other requests is an argument
  (\<open>Proxy_Handler\<close>). Strings are bytes; a statement about text makes its encoding explicit.

  \<^bold>\<open>Bounds and fuel.\<close> The rewrite loop of the router runs at most \<open>MAX_REWRITES\<close> times, as in the
  code; the retry loop runs over the attempts that are left. The recursion of variable evaluation
  and policy expansion carries fuel, and the theorems show that one more than the number of names is
  enough of it. All other loops are total functions with a termination proof. Counters keep their
  width and wrap; lengths and durations that the code bounds are natural numbers.

  \<^bold>\<open>Not modelled.\<close> The listeners and the dispatch around the modelled steps, upgrade tunnels and the
  inside of the QUIC client, TLS, ACME and OCSP, OpenID Connect and the authentication back ends
  are exchanges over third-party libraries whose results are data of the model. Parsing of the
  configuration file ends in the configuration records the model starts from. Metrics pages, logs
  and traces are output. Start-up, reload and privilege changes are system calls. Compression,
  gRPC status mapping and the handlers that render a fixed template are left out.
\<close>

end
